(* ===== verification/VllmPrelude.thy ===== *)
theory VllmPrelude
  imports Main "HOL-Library.Word"
begin

text \<open>
  Shared vocabulary of the development: Python exceptions as values, the result type with
  its sequencing operator and loop combinator, integer helpers of
  \<^verbatim>\<open>src/vllm/utils/math_utils.py\<close>, Python slices, and the generic lemmas the component
  theories rely on.
\<close>

section \<open>Exceptions as values\<close>

text \<open>The exception classes the modelled code raises.\<close>

datatype py_error =
    AssertionError
  | ValueError
  | RuntimeError
  | IndexError
  | KeyError
  | TypeError
  | NotImplementedError
  | OverflowError
  | StopIteration
  | AttributeError

type_synonym 'a res = "py_error + 'a"

type_synonym byte = "8 word"
type_synonym bytes = "byte list"
type_synonym token = int

named_theorems res_simps \<open>equations that evaluate results and loops over results\<close>
named_theorems frame \<open>fields an operation leaves unchanged\<close>

text \<open>Sequencing: the first exception ends the computation.\<close>

definition bind_res :: "'a res \<Rightarrow> ('a \<Rightarrow> 'b res) \<Rightarrow> 'b res" where
  "bind_res m f = (case m of Inl e \<Rightarrow> Inl e | Inr x \<Rightarrow> f x)"

lemma bind_res_simps [simp, res_simps]:
  "bind_res (Inl e) f = Inl e"
  "bind_res (Inr x) f = f x"
  by (simp_all add: bind_res_def)

lemma bind_res_eq_Inr [simp]:
  "bind_res m f = Inr y \<longleftrightarrow> (\<exists>x. m = Inr x \<and> f x = Inr y)"
  by (cases m) simp_all

lemma bind_res_cong [fundef_cong]:
  "m = m' \<Longrightarrow> (\<And>x. m' = Inr x \<Longrightarrow> f x = g x) \<Longrightarrow> bind_res m f = bind_res m' g"
  by (cases m') simp_all

lemma bind_res_assoc: "bind_res (bind_res m f) g = bind_res m (\<lambda>x. bind_res (f x) g)"
  by (cases m) simp_all

text \<open>A Python assertion.\<close>

definition py_assert :: "bool \<Rightarrow> 'a res \<Rightarrow> 'a res" where
  "py_assert b k = (if b then k else Inl AssertionError)"

lemma py_assert_simps [simp, res_simps]:
  "py_assert True k = k"
  "py_assert False k = Inl AssertionError"
  by (simp_all add: py_assert_def)

lemma py_assert_Inr [simp]: "py_assert b k = Inr y \<longleftrightarrow> b \<and> k = Inr y"
  by (cases b) simp_all

text \<open>Indexing a Python list at a non-negative position.\<close>

definition py_nth :: "'a list \<Rightarrow> nat \<Rightarrow> 'a res" where
  "py_nth xs i = (if i < length xs then Inr (xs ! i) else Inl IndexError)"

text \<open>A for loop whose body may raise.\<close>

primrec for_res :: "('a \<Rightarrow> 's \<Rightarrow> 's res) \<Rightarrow> 'a list \<Rightarrow> 's \<Rightarrow> 's res" where
  "for_res f [] s = Inr s"
| "for_res f (x # xs) s = bind_res (f x s) (for_res f xs)"

declare for_res.simps [res_simps]

lemma for_res_append [simp]:
  "for_res f (xs @ ys) s = bind_res (for_res f xs s) (for_res f ys)"
  by (induction xs arbitrary: s) (simp_all add: bind_res_assoc cong: bind_res_cong)

lemma for_res_invariant:
  assumes "for_res f xs s = Inr t"
    and "P s"
    and "\<And>x s t. x \<in> set xs \<Longrightarrow> P s \<Longrightarrow> f x s = Inr t \<Longrightarrow> P t"
  shows "P t"
  using assms
proof (induction xs arbitrary: s)
  case Nil
  then show ?case by simp
next
  case (Cons x xs)
  then obtain u where u: "f x s = Inr u" and rest: "for_res f xs u = Inr t" by auto
  from Cons.prems u have "P u" by auto
  with rest Cons.prems(3) show ?case by (intro Cons.IH) auto
qed

lemma for_res_total:
  assumes "P s"
    and "\<And>x s. x \<in> set xs \<Longrightarrow> P s \<Longrightarrow> \<exists>t. f x s = Inr t \<and> P t"
  shows "\<exists>t. for_res f xs s = Inr t \<and> P t"
  using assms
proof (induction xs arbitrary: s)
  case Nil
  then show ?case by simp
next
  case (Cons x xs)
  from Cons.prems obtain u where u: "f x s = Inr u" and "P u" by auto
  with Cons.prems(2) have "\<exists>t. for_res f xs u = Inr t \<and> P t" by (intro Cons.IH) auto
  with u show ?case by simp
qed

section \<open>Integer helpers\<close>

text \<open>Ceiling division as the source writes it, on Python's unbounded integers.\<close>

definition cdiv :: "int \<Rightarrow> int \<Rightarrow> int" where
  "cdiv a b = - (a div (- b))"

text \<open>The same on counts, which are never negative.\<close>

definition cdivn :: "nat \<Rightarrow> nat \<Rightarrow> nat" where
  "cdivn a b = nat (cdiv (int a) (int b))"

lemma div_minus_ceil: "0 < b \<Longrightarrow> - (int a div - int b) = int ((a + b - 1) div b)"
proof -
  assume b: "0 < b"
  define k r where "k = a div b" and "r = a mod b"
  have a: "a = b * k + r" and r: "r < b" using b by (simp_all add: k_def r_def)
  have "a + b - 1 = (r + b - 1) + k * b" using b by (simp add: a mult.commute)
  then have "(a + b - 1) div b = k + (r + b - 1) div b"
    using b by (metis div_mult_self1 less_numeral_extra(3))
  moreover have "(r + b - 1) div b = (if r = 0 then 0 else 1)"
  proof (cases "r = 0")
    case False
    then have "r + b - 1 = (r - 1) + b" by simp
    with r False show ?thesis by (simp only: div_add_self2) simp
  qed (use b in simp)
  moreover have "int a div - int b = - int k - (if r = 0 then 0 else 1)"
    using b by (simp add: zdiv_zminus2_eq_if k_def r_def flip: of_nat_div of_nat_mod)
  ultimately show ?thesis by simp
qed

lemma cdivn_eq: "0 < b \<Longrightarrow> cdivn a b = (a + b - 1) div b"
  by (simp add: cdivn_def cdiv_def div_minus_ceil)

lemma cdivn_le_iff: "0 < b \<Longrightarrow> cdivn a b \<le> n \<longleftrightarrow> a \<le> n * b"
proof -
  assume b: "0 < b"
  have "(a + b - 1) div b < Suc n \<longleftrightarrow> a + b - 1 < Suc n * b"
    using b by (simp add: div_less_iff_less_mult)
  also have "\<dots> \<longleftrightarrow> a \<le> n * b" using b by auto
  finally show ?thesis using b by (simp add: cdivn_eq less_Suc_eq_le)
qed

lemma cdivn_mult [simp]: "0 < b \<Longrightarrow> cdivn (n * b) b = n"
  by (rule antisym) (use cdivn_le_iff [of b "n * b" "cdivn (n * b) b"] in \<open>auto simp: cdivn_le_iff\<close>)

lemma cdivn_0 [simp]: "0 < b \<Longrightarrow> cdivn 0 b = 0"
  using cdivn_le_iff [of b 0 0] by simp

lemma cdivn_covers: "0 < b \<Longrightarrow> a \<le> cdivn a b * b"
  using cdivn_le_iff [of b a "cdivn a b"] by simp

lemma cdivn_mono: "0 < b \<Longrightarrow> a \<le> c \<Longrightarrow> cdivn a b \<le> cdivn c b"
  using cdivn_covers [of b c] by (simp add: cdivn_le_iff)

lemma div_le_cdivn: "0 < b \<Longrightarrow> a div b \<le> cdivn a b"
  by (simp add: cdivn_eq div_le_mono)

end
