(* ===== verification/RequestModel.thy ===== *)
theory RequestModel
  imports Complex_Main VllmPrelude "HOL-Library.Char_ord" "HOL-Library.List_Lexorder" "HOL-Library.Product_Lexorder"
begin

text \<open>
  The request object the scheduler works on (\<^verbatim>\<open>src/vllm/v1/request.py\<close>): its status with the
  finish reasons, the token bookkeeping kept in step with the block hashes, and the order that
  priority scheduling uses. Fields that no modelled component reads (tracing, metrics, transfer
  parameters of connectors) are left out. The stop conditions of
  \<^verbatim>\<open>src/vllm/v1/core/sched/utils.py\<close> are in the second half.
\<close>

section \<open>Status\<close>

datatype request_status =
    WAITING
  | WAITING_FOR_STRUCTURED_OUTPUT_GRAMMAR
  | WAITING_FOR_REMOTE_KVS
  | WAITING_FOR_STREAMING_REQ
  | RUNNING
  | PREEMPTED
  | FINISHED_STOPPED
  | FINISHED_LENGTH_CAPPED
  | FINISHED_ABORTED
  | FINISHED_IGNORED
  | FINISHED_ERROR
  | FINISHED_REPETITION

text \<open>The integer values \<^verbatim>\<open>enum.auto()\<close> assigns, from 1 in declaration order.\<close>

fun status_value :: "request_status \<Rightarrow> nat" where
  "status_value WAITING = 1"
| "status_value WAITING_FOR_STRUCTURED_OUTPUT_GRAMMAR = 2"
| "status_value WAITING_FOR_REMOTE_KVS = 3"
| "status_value WAITING_FOR_STREAMING_REQ = 4"
| "status_value RUNNING = 5"
| "status_value PREEMPTED = 6"
| "status_value FINISHED_STOPPED = 7"
| "status_value FINISHED_LENGTH_CAPPED = 8"
| "status_value FINISHED_ABORTED = 9"
| "status_value FINISHED_IGNORED = 10"
| "status_value FINISHED_ERROR = 11"
| "status_value FINISHED_REPETITION = 12"

definition status_is_finished :: "request_status \<Rightarrow> bool" where
  "status_is_finished s \<longleftrightarrow> status_value s > status_value PREEMPTED"

datatype finish_reason = Reason_STOP | Reason_LENGTH | Reason_ABORT | Reason_ERROR | Reason_REPETITION

text \<open>\<^verbatim>\<open>_FINISHED_REASON_MAP\<close>.\<close>

fun status_finished_reason :: "request_status \<Rightarrow> finish_reason option" where
  "status_finished_reason FINISHED_STOPPED = Some Reason_STOP"
| "status_finished_reason FINISHED_LENGTH_CAPPED = Some Reason_LENGTH"
| "status_finished_reason FINISHED_ABORTED = Some Reason_ABORT"
| "status_finished_reason FINISHED_IGNORED = Some Reason_LENGTH"
| "status_finished_reason FINISHED_ERROR = Some Reason_ERROR"
| "status_finished_reason WAITING_FOR_STREAMING_REQ = Some Reason_STOP"
| "status_finished_reason FINISHED_REPETITION = Some Reason_REPETITION"
| "status_finished_reason _ = None"

section \<open>The request\<close>

record repetition_params =
  max_pattern_size :: int
  min_pattern_size :: int
  min_count :: int

text \<open>
  The sampling parameters the modelled code reads. \<open>structured_outputs\<close> says whether any
  structured output constraint is set; \<open>max_tokens\<close> is optional in the source.
\<close>

record sampling_params =
  sp_max_tokens :: "nat option"
  min_tokens :: nat
  eos_token_id :: "token option"
  stop_token_ids :: "token list option"
  repetition_detection :: "repetition_params option"
  structured_outputs :: bool
  sp_skip_reading_prefix_cache :: "bool option"

record pooling_params =
  pp_skip_reading_prefix_cache :: "bool option"

record lora_request =
  lora_name :: string
  lora_int_id :: int
  lora_path :: string

record placeholder_range =
  offset :: nat
  placeholder_length :: nat
  is_embed :: "bool list option"

record mm_feature =
  mm_identifier :: string
  mm_position :: placeholder_range

text \<open>
  \<open>stop_reason\<close> holds a token or a string; \<open>prompt_embeds\<close> the raw bytes of each row of the
  tensor. The memo \<open>embeds_hashes\<close> is \<^verbatim>\<open>_prompt_embeds_per_block_hashes\<close>.
\<close>

datatype stop_reason = StopToken token | StopText string

record request =
  request_id :: string
  priority :: int
  arrival_time :: rat
  object_id :: nat
  req_sampling_params :: "sampling_params option"
  req_pooling_params :: "pooling_params option"
  lora :: "lora_request option"
  cache_salt :: "string option"
  session_id :: "string option"
  mm_features :: "mm_feature list"
  prompt_token_ids :: "token list option"
  prompt_embeds :: "bytes list option"
  embeds_hashes :: "nat \<times> nat \<Rightarrow> bytes option"
  num_prompt_tokens :: nat
  output_token_ids :: "token list"
  all_token_ids :: "token list"
  spec_token_ids :: "token list"
  max_tokens :: nat
  status :: request_status
  req_stop_reason :: "stop_reason option"
  num_computed_tokens :: nat
  num_in_flight_tokens :: nat
  num_preemptions :: nat
  shared_prefix_boundary :: nat
  block_hashes :: "bytes list"
  skip_reading_prefix_cache :: bool

text \<open>\<^verbatim>\<open>length_from_prompt_token_ids_or_embeds\<close>.\<close>

definition prompt_length :: "token list option \<Rightarrow> bytes list option \<Rightarrow> nat res" where
  "prompt_length toks embeds =
     (case map_option length toks of
        None \<Rightarrow> (case map_option length embeds of None \<Rightarrow> Inl ValueError | Some m \<Rightarrow> Inr m)
      | Some n \<Rightarrow> (case map_option length embeds of
          None \<Rightarrow> Inr n
        | Some m \<Rightarrow> if m \<noteq> n then Inl ValueError else Inr n))"

definition get_skip_reading_prefix_cache :: "sampling_params option \<Rightarrow> pooling_params option \<Rightarrow> bool" where
  "get_skip_reading_prefix_cache sp pp =
     (case Option.bind sp sp_skip_reading_prefix_cache of
        Some b \<Rightarrow> b
      | None \<Rightarrow> (case Option.bind pp pp_skip_reading_prefix_cache of Some b \<Rightarrow> b | None \<Rightarrow> False))"

text \<open>
  The block hasher installed on a request: it computes the hashes of new full blocks, and may
  fill the request's memo of prompt embedding digests.
\<close>

type_synonym block_hasher = "request \<Rightarrow> (bytes list \<times> request) res"

definition update_block_hashes :: "block_hasher option \<Rightarrow> request \<Rightarrow> request res" where
  "update_block_hashes hasher r =
     (case hasher of
        None \<Rightarrow> Inr r
      | Some f \<Rightarrow> bind_res (f r) (\<lambda>(hs, r'). Inr (r'\<lparr>block_hashes := block_hashes r' @ hs\<rparr>)))"

text \<open>
  \<^verbatim>\<open>Request.__init__\<close>. \<open>is_token_ids\<close> is the mask of a mixed prompt; \<open>oid\<close> stands for the
  object identity that \<^verbatim>\<open>id(self)\<close> returns.
\<close>

definition initial_token_ids :: "token list option \<Rightarrow> bool list option \<Rightarrow> nat \<Rightarrow> token list" where
  "initial_token_ids toks is_token_ids n =
     (case toks of
        None \<Rightarrow> replicate n 0
      | Some ts \<Rightarrow> (case is_token_ids of
          None \<Rightarrow> ts
        | Some msk \<Rightarrow> map (\<lambda>(t, is_tok). if is_tok then t else 0) (zip ts msk)))"

definition initial_request :: "nat \<Rightarrow> string \<Rightarrow> token list option \<Rightarrow> sampling_params option \<Rightarrow>
    pooling_params option \<Rightarrow> rat \<Rightarrow> bytes list option \<Rightarrow> bool list option \<Rightarrow> mm_feature list \<Rightarrow>
    lora_request option \<Rightarrow> string option \<Rightarrow> int \<Rightarrow> string option \<Rightarrow> nat \<Rightarrow> request_status \<Rightarrow> nat \<Rightarrow>
    request" where
  "initial_request oid rid toks sp pp arrival embeds is_token_ids mms lr salt prio sess mx st n =
     \<lparr>request_id = rid, priority = prio, arrival_time = arrival, object_id = oid,
      req_sampling_params = sp, req_pooling_params = pp, lora = lr, cache_salt = salt,
      session_id = sess, mm_features = mms, prompt_token_ids = toks, prompt_embeds = embeds,
      embeds_hashes = Map.empty, num_prompt_tokens = n, output_token_ids = [],
      all_token_ids = initial_token_ids toks is_token_ids n, spec_token_ids = [],
      max_tokens = mx, status = st, req_stop_reason = None, num_computed_tokens = 0,
      num_in_flight_tokens = 0, num_preemptions = 0, shared_prefix_boundary = 0,
      block_hashes = [], skip_reading_prefix_cache = get_skip_reading_prefix_cache sp pp\<rparr>"

definition Request_init :: "nat \<Rightarrow> string \<Rightarrow> token list option \<Rightarrow> sampling_params option \<Rightarrow>
    pooling_params option \<Rightarrow> rat \<Rightarrow> bytes list option \<Rightarrow> bool list option \<Rightarrow> mm_feature list \<Rightarrow>
    lora_request option \<Rightarrow> string option \<Rightarrow> int \<Rightarrow> string option \<Rightarrow> block_hasher option \<Rightarrow>
    request res" where
  "Request_init oid rid toks sp pp arrival embeds is_token_ids mms lr salt prio sess hasher =
     bind_res
       (case pp of
          Some _ \<Rightarrow> Inr (1, WAITING)
        | None \<Rightarrow> (case sp of
            Some s \<Rightarrow>
              (case sp_max_tokens s of
                 None \<Rightarrow> Inl AssertionError
               | Some m \<Rightarrow> Inr (m, if structured_outputs s
                                then WAITING_FOR_STRUCTURED_OUTPUT_GRAMMAR else WAITING))
          | None \<Rightarrow> Inl ValueError))
       (\<lambda>(mx, st). bind_res (prompt_length toks embeds)
         (\<lambda>n. update_block_hashes hasher
            (initial_request oid rid toks sp pp arrival embeds is_token_ids mms lr salt prio sess mx st n)))"

definition append_output_token_ids :: "block_hasher option \<Rightarrow> token list \<Rightarrow> request \<Rightarrow> request res" where
  "append_output_token_ids hasher ts r =
     update_block_hashes hasher
       (r\<lparr>output_token_ids := output_token_ids r @ ts, all_token_ids := all_token_ids r @ ts\<rparr>)"

definition num_tokens :: "request \<Rightarrow> nat" where
  "num_tokens r = length (all_token_ids r)"

definition num_tokens_with_spec :: "request \<Rightarrow> nat" where
  "num_tokens_with_spec r = length (all_token_ids r) + length (spec_token_ids r)"

definition num_output_tokens :: "request \<Rightarrow> nat" where
  "num_output_tokens r = length (output_token_ids r)"

definition is_finished :: "request \<Rightarrow> bool" where
  "is_finished r = status_is_finished (status r)"

definition get_finished_reason :: "request \<Rightarrow> finish_reason option" where
  "get_finished_reason r = status_finished_reason (status r)"

text \<open>\<^verbatim>\<open>PlaceholderRange.get_num_embeds\<close>: the last entry of the running count of the mask.\<close>

definition get_num_embeds :: "placeholder_range \<Rightarrow> nat" where
  "get_num_embeds p =
     (case is_embed p of None \<Rightarrow> placeholder_length p | Some msk \<Rightarrow> length (filter id msk))"

definition get_num_encoder_embeds :: "request \<Rightarrow> nat \<Rightarrow> nat res" where
  "get_num_encoder_embeds r input_id =
     py_assert (input_id < length (mm_features r))
       (Inr (get_num_embeds (mm_position (mm_features r ! input_id))))"

text \<open>\<^verbatim>\<open>Request.__lt__\<close>, the order of priority scheduling.\<close>

definition request_lt :: "request \<Rightarrow> request \<Rightarrow> bool" where
  "request_lt a b =
     (if priority a \<noteq> priority b then priority a < priority b
      else if arrival_time a \<noteq> arrival_time b then arrival_time a < arrival_time b
      else if request_id a \<noteq> request_id b then request_id a < request_id b
      else object_id a < object_id b)"

section \<open>Stop conditions\<close>

text \<open>
  \<^verbatim>\<open>_has_repeating_pattern\<close>: \<^verbatim>\<open>token_ids[-n]\<close> is the \<open>n\<close>-th token from the end.
  Both loops return at the first mismatch.
\<close>

definition from_end :: "token list \<Rightarrow> nat \<Rightarrow> token res" where
  "from_end ts n = (if 0 < n \<and> n \<le> length ts then Inr (ts ! (length ts - n)) else Inl IndexError)"

fun pattern_inner :: "token list \<Rightarrow> nat \<Rightarrow> nat \<Rightarrow> token \<Rightarrow> nat list \<Rightarrow> bool res" where
  "pattern_inner ts p n target [] = Inr True"
| "pattern_inner ts p n target (m # ms) =
     bind_res (from_end ts (p * m + n))
       (\<lambda>t. if t \<noteq> target then Inr False else pattern_inner ts p n target ms)"

fun pattern_outer :: "token list \<Rightarrow> nat \<Rightarrow> nat \<Rightarrow> nat list \<Rightarrow> bool res" where
  "pattern_outer ts p c [] = Inr True"
| "pattern_outer ts p c (n # ns) =
     bind_res (from_end ts n) (\<lambda>target. bind_res (pattern_inner ts p n target [1..<c])
       (\<lambda>ok. if ok then pattern_outer ts p c ns else Inr False))"

definition has_repeating_pattern :: "token list \<Rightarrow> nat \<Rightarrow> nat \<Rightarrow> bool res" where
  "has_repeating_pattern ts pattern_len repetition_min_count =
     pattern_outer ts pattern_len repetition_min_count [1..<pattern_len + 1]"

fun repetition_loop :: "token list \<Rightarrow> nat \<Rightarrow> nat list \<Rightarrow> bool res" where
  "repetition_loop ts c [] = Inr False"
| "repetition_loop ts c (p # ps) =
     (if p * c > length ts then Inr False
      else bind_res (has_repeating_pattern ts p c)
             (\<lambda>hit. if hit then Inr True else repetition_loop ts c ps))"

definition check_sequence_repetition :: "token list \<Rightarrow> repetition_params \<Rightarrow> bool res" where
  "check_sequence_repetition ts params =
     (let mx = max_pattern_size params;
          mn = (if min_pattern_size params \<le> 0 then 1 else min_pattern_size params);
          c = min_count params
      in if mx \<le> 0 \<or> c < 2 \<or> mn > mx then Inr False
         else repetition_loop ts (nat c) [nat mn..<nat mx + 1])"

text \<open>
  \<^verbatim>\<open>check_stop\<close> updates the request and says whether it stopped. \<^verbatim>\<open>not request.pooling_params\<close>
  holds only when there are none.
\<close>

definition check_stop :: "request \<Rightarrow> nat \<Rightarrow> (bool \<times> request) res" where
  "check_stop r max_model_len =
     py_assert (req_pooling_params r = None)
       (case req_sampling_params r of
          None \<Rightarrow> Inl AssertionError
        | Some sp \<Rightarrow> bind_res (from_end (output_token_ids r) 1) (\<lambda>last_token_id.
            if Some last_token_id = eos_token_id sp
            then Inr (True, r\<lparr>status := FINISHED_STOPPED\<rparr>)
            else if last_token_id \<in> set (case stop_token_ids sp of None \<Rightarrow> [] | Some ts \<Rightarrow> ts)
            then Inr (True, r\<lparr>status := FINISHED_STOPPED,
                              req_stop_reason := Some (StopToken last_token_id)\<rparr>)
            else if num_tokens r \<ge> max_model_len \<or> num_output_tokens r \<ge> max_tokens r
            then Inr (True, r\<lparr>status := FINISHED_LENGTH_CAPPED\<rparr>)
            else if num_output_tokens r < min_tokens sp then Inr (False, r)
            else (case repetition_detection sp of
                    None \<Rightarrow> Inr (False, r)
                  | Some rd \<Rightarrow> bind_res (check_sequence_repetition (output_token_ids r) rd)
                      (\<lambda>rep. if rep
                             then Inr (True, r\<lparr>status := FINISHED_REPETITION,
                                   req_stop_reason := Some (StopText ''repetition_detected'')\<rparr>)
                             else Inr (False, r)))))"

text \<open>
  \<^verbatim>\<open>remove_all\<close>: a single item is removed with \<^verbatim>\<open>list.remove\<close>, several with a comprehension.
  The set is given by a list of its elements.
\<close>

definition remove_all :: "'a list \<Rightarrow> 'a list \<Rightarrow> 'a list" where
  "remove_all xs items =
     (case remdups items of
        [] \<Rightarrow> xs
      | [x] \<Rightarrow> remove1 x xs
      | _ \<Rightarrow> filter (\<lambda>x. x \<notin> set items) xs)"

section \<open>The repetition check\<close>

text \<open>Reference definition: the sequence ends in \<open>c\<close> copies of its last \<open>p\<close> tokens.\<close>

definition ends_in_copies :: "token list \<Rightarrow> nat \<Rightarrow> nat \<Rightarrow> bool" where
  "ends_in_copies ts p c \<longleftrightarrow> p * c \<le> length ts \<and>
     drop (length ts - p * c) ts = concat (replicate c (drop (length ts - p) ts))"

lemma from_end_ok [simp]: "0 < n \<Longrightarrow> n \<le> length ts \<Longrightarrow> from_end ts n = Inr (ts ! (length ts - n))"
  by (simp add: from_end_def)

lemma pattern_inner_spec:
  assumes "\<forall>m \<in> set ms. 0 < p * m + n \<and> p * m + n \<le> length ts"
  shows "pattern_inner ts p n target ms = Inr (\<forall>m \<in> set ms. ts ! (length ts - (p * m + n)) = target)"
  using assms by (induction ms) auto

lemma pattern_outer_spec:
  assumes "\<forall>n \<in> set ns. 0 < n \<and> n \<le> p" and "p * c \<le> length ts" and "0 < c"
  shows "pattern_outer ts p c ns =
    Inr (\<forall>n \<in> set ns. \<forall>m \<in> {1..<c}. ts ! (length ts - (p * m + n)) = ts ! (length ts - n))"
  using assms
proof (induction ns)
  case Nil
  then show ?case by simp
next
  case (Cons n ns)
  have n: "0 < n" "n \<le> p" using Cons.prems(1) by auto
  have bound: "p * m + n \<le> length ts" if "m < c" for m
  proof -
    have "p * m + n \<le> p * Suc m" using n by simp
    also have "\<dots> \<le> p * c" using that by (intro mult_le_mono2) simp
    finally show ?thesis using Cons.prems(2) by simp
  qed
  have inner: "pattern_inner ts p n t [1..<c] =
      Inr (\<forall>m \<in> {1..<c}. ts ! (length ts - (p * m + n)) = t)" for t
    using pattern_inner_spec [of "[1..<c]" p n ts t] bound n by auto
  have "n \<le> length ts" using bound [of 0] Cons.prems(3) by simp
  with n inner Cons show ?case by auto
qed

lemma nth_concat_replicate:
  "j < c * length w \<Longrightarrow> concat (replicate c w) ! j = w ! (j mod length w)"
proof (induction c arbitrary: j)
  case (Suc c)
  show ?case
  proof (cases "j < length w")
    case False
    with Suc.prems have "concat (replicate c w) ! (j - length w) = w ! ((j - length w) mod length w)"
      by (intro Suc.IH) auto
    with False show ?thesis by (simp add: nth_append le_mod_geq)
  qed (simp add: nth_append)
qed simp

lemma length_concat_replicate: "length (concat (replicate c w)) = c * length w"
  by (induction c) auto

lemma ends_in_copies_iff:
  assumes p: "0 < p" and c: "0 < c" and len: "p * c \<le> length ts"
  shows "ends_in_copies ts p c \<longleftrightarrow>
    (\<forall>n \<in> {1..p}. \<forall>m \<in> {1..<c}. ts ! (length ts - (p * m + n)) = ts ! (length ts - n))"
    (is "_ \<longleftrightarrow> ?rhs")
proof -
  define L where "L = length ts"
  have pL: "p \<le> L" using len c p by (metis L_def Suc_leI dual_order.trans mult_le_mono2 mult_1_right One_nat_def)
  have "ends_in_copies ts p c \<longleftrightarrow> (\<forall>j < p * c. ts ! (L - p * c + j) = ts ! (L - p + j mod p))"
    using len pL c
    by (auto simp: ends_in_copies_def list_eq_iff_nth_eq length_concat_replicate
        nth_concat_replicate mult.commute L_def)
  also have "\<dots> \<longleftrightarrow> ?rhs"
  proof
    assume l: "\<forall>j < p * c. ts ! (L - p * c + j) = ts ! (L - p + j mod p)"
    show ?rhs
    proof (intro ballI)
      fix n m assume n: "n \<in> {1..p}" and m: "m \<in> {1..<c}"
      define j where "j = p * c - (p * m + n)"
      have b: "p * m + n \<le> p * c" "0 < p * m + n"
        using n m mult_le_mono2 [of "Suc m" c p] by auto
      have j: "j < p * c" unfolding j_def by (rule diff_less) (use b in linarith)+
      have "j = p * (c - Suc m) + (p - n)"
        using n m b mult_le_mono2 [of "Suc m" c p] by (simp add: j_def right_diff_distrib')
      then have "j mod p = (p - n) mod p" by (simp only: mod_mult_self4)
      also have "\<dots> = p - n" using n by (intro mod_less) auto
      finally have jm: "L - p + j mod p = L - n" using n pL by auto
      have "L - p * c + j = L - (p * m + n)" using b len by (simp add: j_def L_def)
      with l [rule_format, OF j] jm show "ts ! (length ts - (p * m + n)) = ts ! (length ts - n)"
        by (simp only: L_def)
    qed
  next
    assume r: ?rhs
    show "\<forall>j < p * c. ts ! (L - p * c + j) = ts ! (L - p + j mod p)"
    proof (intro allI impI)
      fix j assume j: "j < p * c"
      define n m where "n = p - j mod p" and "m = c - Suc (j div p)"
      have jm: "j mod p < p" and jd: "j div p < c"
        using p j by (simp_all add: less_mult_imp_div_less mult.commute)
      have n: "n \<in> {1..p}" using jm by (auto simp: n_def)
      have "p * Suc (j div p) \<le> p * c" using jd by (intro mult_le_mono2) simp
      then have "p * m + n = p * c - j"
        using jm jd by (simp add: n_def m_def right_diff_distrib')
      then have e: "L - p * c + j = L - (p * m + n)" using j len by (simp add: L_def)
      show "ts ! (L - p * c + j) = ts ! (L - p + j mod p)"
      proof (cases "m = 0")
        case True
        then show ?thesis using e jm pL by (simp add: n_def)
      next
        case False
        then have "m \<in> {1..<c}" using c by (auto simp: m_def)
        with r n have "ts ! (L - (p * m + n)) = ts ! (L - n)" by (simp add: L_def)
        then show ?thesis using e jm pL by (simp add: n_def)
      qed
    qed
  qed
  finally show ?thesis .
qed

lemma has_repeating_pattern_spec:
  assumes "0 < p" and "0 < c" and "p * c \<le> length ts"
  shows "has_repeating_pattern ts p c = Inr (ends_in_copies ts p c)"
proof -
  have "set [1..<p + 1] = {1..p}" by auto
  with pattern_outer_spec [of "[1..<p + 1]" p c ts] assms show ?thesis
    by (simp only: has_repeating_pattern_def ends_in_copies_iff) auto
qed

lemma repetition_loop_spec:
  assumes "0 < c" and "\<forall>p \<in> set ps. 0 < p" and "sorted ps"
  shows "repetition_loop ts c ps = Inr (\<exists>p \<in> set ps. ends_in_copies ts p c)"
  using assms
proof (induction ps)
  case Nil
  then show ?case by simp
next
  case (Cons p ps)
  show ?case
  proof (cases "p * c > length ts")
    case True
    have "\<not> ends_in_copies ts p' c" if "p' \<in> set (p # ps)" for p'
    proof -
      have "p \<le> p'" using that Cons.prems(3) by auto
      then have "p * c \<le> p' * c" by (rule mult_le_mono1)
      with True have "\<not> p' * c \<le> length ts" by linarith
      then show ?thesis by (simp only: ends_in_copies_def) simp
    qed
    with True show ?thesis by auto
  next
    case False
    then have "has_repeating_pattern ts p c = Inr (ends_in_copies ts p c)"
      using Cons.prems by (intro has_repeating_pattern_spec) auto
    with False Cons show ?thesis by auto
  qed
qed

section \<open>The order of requests\<close>

text \<open>Reference: the lexicographic order of the four keys.\<close>

definition request_key :: "request \<Rightarrow> int \<times> rat \<times> string \<times> nat" where
  "request_key r = (priority r, arrival_time r, request_id r, object_id r)"

lemma request_lt_key: "request_lt a b \<longleftrightarrow> request_key a < request_key b"
  by (auto simp: request_lt_def request_key_def less_prod_def')

lemma check_sequence_repetition_spec:
  "check_sequence_repetition ts params =
     Inr (min_count params \<ge> 2 \<and>
       (\<exists>p. 0 < p \<and> min_pattern_size params \<le> int p \<and> int p \<le> max_pattern_size params \<and>
            ends_in_copies ts p (nat (min_count params))))"
proof -
  let ?mx = "max_pattern_size params" and ?c = "min_count params"
  define mn where "mn = (if min_pattern_size params \<le> 0 then 1 else min_pattern_size params)"
  define R where "R p \<longleftrightarrow> 0 < p \<and> min_pattern_size params \<le> int p \<and> int p \<le> ?mx" for p
  define ps where "ps = [nat mn..<nat ?mx + 1]"
  have cases: "check_sequence_repetition ts params =
      (if ?mx \<le> 0 \<or> ?c < 2 \<or> mn > ?mx then Inr False else repetition_loop ts (nat ?c) ps)"
    by (simp only: check_sequence_repetition_def Let_def mn_def ps_def)
  have none: "\<not> R p" if "?mx \<le> 0 \<or> mn > ?mx" for p
    using that by (auto simp: R_def mn_def split: if_splits)
  have range: "p \<in> set ps \<longleftrightarrow> R p" if "\<not> ?mx \<le> 0" for p
    using that unfolding ps_def R_def mn_def set_upt by (auto split: if_splits)
  have "check_sequence_repetition ts params = Inr (?c \<ge> 2 \<and> (\<exists>p. R p \<and> ends_in_copies ts p (nat ?c)))"
  proof (cases "?mx \<le> 0 \<or> ?c < 2 \<or> mn > ?mx")
    case True
    then show ?thesis unfolding cases using none by auto
  next
    case False
    have "repetition_loop ts (nat ?c) ps = Inr (\<exists>p \<in> set ps. ends_in_copies ts p (nat ?c))"
      by (rule repetition_loop_spec) (use False range in \<open>auto simp: R_def ps_def simp del: upt_Suc\<close>)
    with False range show ?thesis unfolding cases Bex_def by simp
  qed
  then show ?thesis unfolding R_def by (simp only: conj_assoc)
qed

text \<open>Reference: the conditions on which a request stops.\<close>

definition hit_stop_token :: "sampling_params \<Rightarrow> token \<Rightarrow> bool" where
  "hit_stop_token sp t \<longleftrightarrow> Some t = eos_token_id sp \<or> (\<exists>ts. stop_token_ids sp = Some ts \<and> t \<in> set ts)"

definition hit_length_cap :: "request \<Rightarrow> nat \<Rightarrow> bool" where
  "hit_length_cap r max_model_len \<longleftrightarrow> max_model_len \<le> num_tokens r \<or> max_tokens r \<le> num_output_tokens r"

definition hit_repetition :: "sampling_params \<Rightarrow> request \<Rightarrow> bool" where
  "hit_repetition sp r \<longleftrightarrow> min_tokens sp \<le> num_output_tokens r \<and>
     (\<exists>rd. repetition_detection sp = Some rd \<and> check_sequence_repetition (output_token_ids r) rd = Inr True)"

section \<open>Properties\<close>

text \<open>C29: the repetition check never fails, and says yes exactly when the parameters ask for at
  least two copies and the sequence ends in that many copies of a pattern whose length is within
  the configured bounds.\<close>

theorem check_sequence_repetition_correct:
  "check_sequence_repetition ts params =
     Inr (min_count params \<ge> 2 \<and>
       (\<exists>p. 0 < p \<and> min_pattern_size params \<le> int p \<and> int p \<le> max_pattern_size params \<and>
            ends_in_copies ts p (nat (min_count params))))"
  by (rule check_sequence_repetition_spec)

text \<open>A concrete sampling request, for the witnesses.\<close>

definition demo_sampling :: "token list \<Rightarrow> nat \<Rightarrow> request" where
  "demo_sampling outs mx =
     (initial_request 1 ''r'' (Some [1, 2]) (Some \<lparr>sp_max_tokens = Some mx, min_tokens = 0,
        eos_token_id = Some 6, stop_token_ids = None, repetition_detection = None,
        structured_outputs = False, sp_skip_reading_prefix_cache = None\<rparr>)
        None 0 None None [] None None 0 None mx RUNNING 2)
     \<lparr>output_token_ids := outs, all_token_ids := [1, 2] @ outs\<rparr>"

text \<open>C28: on a sampling request with output, the stop check never fails; it stops the request exactly
  on a stop token, at a length cap or on repetition, a stop token winning over the cap and the cap
  over repetition; the new status says which; and the tokens do not change.\<close>

theorem check_stop_correct:
  assumes "req_pooling_params r = None" and "req_sampling_params r = Some sp"
    and "output_token_ids r \<noteq> []" and "\<not> is_finished r"
  shows "\<exists>stopped r'. check_stop r max_model_len = Inr (stopped, r') \<and>
    (stopped \<longleftrightarrow> is_finished r') \<and>
    (status r' =
      (if hit_stop_token sp (last (output_token_ids r)) then FINISHED_STOPPED
       else if hit_length_cap r max_model_len then FINISHED_LENGTH_CAPPED
       else if hit_repetition sp r then FINISHED_REPETITION else status r)) \<and>
    all_token_ids r' = all_token_ids r \<and> output_token_ids r' = output_token_ids r"
proof -
  have last: "from_end (output_token_ids r) 1 = Inr (last (output_token_ids r))"
    using assms(3) by (simp add: from_end_def last_conv_nth Suc_le_eq)
  have rep: "check_sequence_repetition ts rd = Inr (projr (check_sequence_repetition ts rd))" for ts rd
    by (simp add: check_sequence_repetition_spec)
  define res where "res =
     (if Some (last (output_token_ids r)) = eos_token_id sp then (True, r\<lparr>status := FINISHED_STOPPED\<rparr>)
      else if hit_stop_token sp (last (output_token_ids r))
      then (True, r\<lparr>status := FINISHED_STOPPED,
                    req_stop_reason := Some (StopToken (last (output_token_ids r)))\<rparr>)
      else if hit_length_cap r max_model_len then (True, r\<lparr>status := FINISHED_LENGTH_CAPPED\<rparr>)
      else if hit_repetition sp r
      then (True, r\<lparr>status := FINISHED_REPETITION,
                    req_stop_reason := Some (StopText ''repetition_detected'')\<rparr>)
      else (False, r))"
  have "check_stop r max_model_len = Inr res"
  proof (cases "repetition_detection sp")
    case None
    then show ?thesis
      unfolding check_stop_def last assms(2) option.case bind_res_simps res_def hit_stop_token_def
        hit_length_cap_def hit_repetition_def
      by (cases "stop_token_ids sp") (simp_all add: assms(1))
  next
    case (Some rd)
    obtain hit where hit: "check_sequence_repetition (output_token_ids r) rd = Inr hit" using rep by blast
    with Some show ?thesis
      unfolding check_stop_def last assms(2) option.case bind_res_simps res_def hit_stop_token_def
        hit_length_cap_def hit_repetition_def
      by (cases "stop_token_ids sp") (simp_all add: assms(1))
  qed
  moreover have "is_finished (snd res) = fst res" "all_token_ids (snd res) = all_token_ids r"
    "output_token_ids (snd res) = output_token_ids r"
    "status (snd res) =
      (if hit_stop_token sp (last (output_token_ids r)) then FINISHED_STOPPED
       else if hit_length_cap r max_model_len then FINISHED_LENGTH_CAPPED
       else if hit_repetition sp r then FINISHED_REPETITION else status r)"
    using assms(4) by (auto simp: res_def hit_stop_token_def is_finished_def status_is_finished_def)
  ultimately show ?thesis by (intro exI [of _ "fst res"] exI [of _ "snd res"]) simp
qed

theorem check_stop_correct_witness:
  "\<exists>stopped r'. check_stop (demo_sampling [5, 6] 100) 64 = Inr (stopped, r') \<and> status r' = FINISHED_STOPPED"
  using check_stop_correct [of "demo_sampling [5, 6] 100" _ 64]
  by (auto simp: demo_sampling_def initial_request_def is_finished_def status_is_finished_def hit_stop_token_def)

end
