(* ===== verification/HeapQueue.thy ===== *)
theory HeapQueue
  imports VllmPrelude "HOL-Library.Multiset"
begin

text \<open>
  Python's \<^verbatim>\<open>heapq\<close> on a list, which the priority request queue is built on: the two sift
  loops with the hole they move, push, pop and heapify, over the comparison \<open>lt\<close> of the elements.
  Shown for every comparison that orders the elements by a key: the operations keep the heap order
  and the multiset of elements, pop returns a least element, and popping until the heap is empty
  yields the elements in order.
\<close>

section \<open>The algorithms\<close>

text \<open>\<^verbatim>\<open>_siftdown\<close>: \<open>new\<close> is held aside while parents move down into the hole at \<open>pos\<close>.\<close>

function siftdown_loop :: "('a \<Rightarrow> 'a \<Rightarrow> bool) \<Rightarrow> 'a \<Rightarrow> nat \<Rightarrow> nat \<Rightarrow> 'a list \<Rightarrow> 'a list" where
  "siftdown_loop lt new startpos pos heap =
     (if pos > startpos
      then let parentpos = (pos - 1) div 2
           in if lt new (heap ! parentpos)
              then siftdown_loop lt new startpos parentpos (heap[pos := heap ! parentpos])
              else heap[pos := new]
      else heap[pos := new])"
  by pat_completeness auto
termination
  by (relation "measure (\<lambda>(lt, new, startpos, pos, heap). pos)") auto

declare siftdown_loop.simps [simp del]

definition siftdown :: "('a \<Rightarrow> 'a \<Rightarrow> bool) \<Rightarrow> 'a list \<Rightarrow> nat \<Rightarrow> nat \<Rightarrow> 'a list" where
  "siftdown lt heap startpos pos = siftdown_loop lt (heap ! pos) startpos pos heap"

text \<open>\<^verbatim>\<open>_siftup\<close>: the smaller child moves up into the hole until the hole is a leaf; the result
  is the leaf position with the list.\<close>

definition smaller_child :: "('a \<Rightarrow> 'a \<Rightarrow> bool) \<Rightarrow> nat \<Rightarrow> 'a list \<Rightarrow> nat" where
  "smaller_child lt pos heap =
     (let childpos = 2 * pos + 1; rightpos = childpos + 1
      in if rightpos < length heap \<and> \<not> lt (heap ! childpos) (heap ! rightpos) then rightpos else childpos)"

function siftup_loop :: "('a \<Rightarrow> 'a \<Rightarrow> bool) \<Rightarrow> nat \<Rightarrow> 'a list \<Rightarrow> nat \<times> 'a list" where
  "siftup_loop lt pos heap =
     (if 2 * pos + 1 < length heap
      then let childpos = smaller_child lt pos heap
           in siftup_loop lt childpos (heap[pos := heap ! childpos])
      else (pos, heap))"
  by pat_completeness auto
termination
  by (relation "measure (\<lambda>(lt, pos, heap). length heap - pos)") (auto simp: smaller_child_def Let_def)

declare siftup_loop.simps [simp del]

definition siftup :: "('a \<Rightarrow> 'a \<Rightarrow> bool) \<Rightarrow> 'a list \<Rightarrow> nat \<Rightarrow> 'a list" where
  "siftup lt heap pos =
     (let (leaf, heap') = siftup_loop lt pos heap
      in siftdown lt (heap'[leaf := heap ! pos]) pos leaf)"

definition heappush :: "('a \<Rightarrow> 'a \<Rightarrow> bool) \<Rightarrow> 'a list \<Rightarrow> 'a \<Rightarrow> 'a list" where
  "heappush lt heap item = siftdown lt (heap @ [item]) 0 (length heap)"

definition heappop :: "('a \<Rightarrow> 'a \<Rightarrow> bool) \<Rightarrow> 'a list \<Rightarrow> ('a \<times> 'a list) res" where
  "heappop lt heap =
     (if heap = [] then Inl IndexError
      else let lastelt = last heap; rest = butlast heap
           in if rest \<noteq> [] then Inr (rest ! 0, siftup lt (rest[0 := lastelt]) 0)
              else Inr (lastelt, rest))"

definition heapify :: "('a \<Rightarrow> 'a \<Rightarrow> bool) \<Rightarrow> 'a list \<Rightarrow> 'a list" where
  "heapify lt heap = fold (\<lambda>i h. siftup lt h i) (rev [0..<length heap div 2]) heap"

section \<open>The elements\<close>

abbreviation par :: "nat \<Rightarrow> nat" where
  "par i \<equiv> (i - 1) div 2"

lemma siftdown_loop_length [simp]: "length (siftdown_loop lt new s pos xs) = length xs"
proof (induction lt new s pos xs rule: siftdown_loop.induct)
  case (1 lt new s pos xs)
  then show ?case by (subst siftdown_loop.simps) (simp add: Let_def)
qed

lemma siftdown_loop_mset:
  "pos < length xs \<Longrightarrow> mset (siftdown_loop lt new s pos xs) = mset (xs[pos := new])"
proof (induction lt new s pos xs rule: siftdown_loop.induct)
  case (1 lt new s pos xs)
  show ?case
  proof (cases "pos > s \<and> lt new (xs ! par pos)")
    case True
    define ys where "ys = xs[pos := new]"
    have p: "par pos < pos" "par pos < length xs" using True 1(2) by auto
    have "mset (siftdown_loop lt new s pos xs) = mset (xs[pos := xs ! par pos, par pos := new])"
      using 1(1) [OF _ refl] True p by (subst siftdown_loop.simps) (simp add: Let_def)
    also have "xs[pos := xs ! par pos, par pos := new] = ys[pos := ys ! par pos, par pos := ys ! pos]"
      using p 1(2) by (simp add: ys_def)
    also have "mset \<dots> = mset ys" using p 1(2) by (intro mset_swap) (simp_all add: ys_def)
    finally show ?thesis by (simp add: ys_def)
  next
    case False
    then show ?thesis by (subst siftdown_loop.simps) (simp add: Let_def)
  qed
qed

lemma smaller_child:
  assumes "2 * pos + 1 < length xs"
  shows "smaller_child lt pos xs < length xs" "par (smaller_child lt pos xs) = pos" "pos < smaller_child lt pos xs"
    "smaller_child lt pos xs = 2 * pos + 1 \<or> smaller_child lt pos xs = 2 * pos + 2"
  using assms by (auto simp: smaller_child_def Let_def)

lemma siftup_loop_length:
  "siftup_loop lt pos xs = (leaf, ys) \<Longrightarrow> pos < length xs \<Longrightarrow> length ys = length xs \<and> leaf < length xs"
proof (induction lt pos xs rule: siftup_loop.induct)
  case (1 lt pos xs)
  show ?case
  proof (cases "2 * pos + 1 < length xs")
    case True
    then show ?thesis
      using 1(1) [OF True refl] 1(2) smaller_child(1) [OF True] by (subst (asm) (2) siftup_loop.simps) (simp add: Let_def)
  next
    case False
    then show ?thesis using 1(2,3) by (subst (asm) siftup_loop.simps) simp
  qed
qed

lemma siftup_loop_mset:
  "siftup_loop lt pos xs = (leaf, ys) \<Longrightarrow> pos < length xs \<Longrightarrow> mset (ys[leaf := v]) = mset (xs[pos := v])"
proof (induction lt pos xs rule: siftup_loop.induct)
  case (1 lt pos xs)
  show ?case
  proof (cases "2 * pos + 1 < length xs")
    case True
    define c where "c = smaller_child lt pos xs"
    have c: "c < length xs" "c \<noteq> pos" using smaller_child [OF True, of lt] by (auto simp: c_def)
    have "siftup_loop lt c (xs[pos := xs ! c]) = (leaf, ys)"
      using 1(2) True by (subst (asm) siftup_loop.simps) (simp add: Let_def c_def)
    then have "mset (ys[leaf := v]) = mset (xs[pos := xs ! c, c := v])"
      using 1(1) [OF True c_def] c by simp
    also have "xs[pos := xs ! c, c := v] = (xs[pos := v])[pos := (xs[pos := v]) ! c, c := (xs[pos := v]) ! pos]"
      using c 1(3) by simp
    also have "mset \<dots> = mset (xs[pos := v])" using c 1(3) by (intro mset_swap) simp_all
    finally show ?thesis .
  next
    case False
    then show ?thesis using 1(2) by (subst (asm) siftup_loop.simps) simp
  qed
qed

lemma siftup_mset: "pos < length xs \<Longrightarrow> mset (siftup lt xs pos) = mset xs \<and> length (siftup lt xs pos) = length xs"
proof -
  assume pos: "pos < length xs"
  obtain leaf ys where r: "siftup_loop lt pos xs = (leaf, ys)" by fastforce
  note l = siftup_loop_length [OF r pos]
  have "mset (siftup lt xs pos) = mset (ys[leaf := xs ! pos])"
    using l by (simp add: siftup_def r siftdown_def siftdown_loop_mset)
  then show ?thesis
    using siftup_loop_mset [OF r pos, of "xs ! pos"] l by (simp add: siftup_def r siftdown_def)
qed

lemma heapify_mset: "mset (heapify lt xs) = mset xs"
proof -
  have "mset (fold (\<lambda>i h. siftup lt h i) (rev [0..<n]) ys) = mset ys" if "n \<le> length ys" for n and ys :: "'a list"
    using that
  proof (induction n arbitrary: ys)
    case (Suc n)
    then show ?case using siftup_mset [of n ys lt] by simp
  qed simp
  then show ?thesis by (simp add: heapify_def)
qed

lemma heappush_mset: "mset (heappush lt heap item) = add_mset item (mset heap)"
  by (simp add: heappush_def siftdown_def siftdown_loop_mset)

lemma heappop_mset:
  assumes "heappop lt heap = Inr (x, h)"
  shows "mset heap = add_mset x (mset h)" and "length heap = Suc (length h)"
proof -
  from assms have ne: "heap \<noteq> []" by (auto simp: heappop_def)
  then have split: "heap = butlast heap @ [last heap]" by simp
  show "mset heap = add_mset x (mset h)"
  proof (cases "butlast heap = []")
    case True
    with assms ne split have "x = last heap" "h = []" by (auto simp: heappop_def Let_def)
    with True split show ?thesis by (metis append_Nil mset.simps mset_single_iff_right mset_append union_mset_add_mset_right empty_neutral(2))
  next
    case False
    let ?r = "butlast heap"
    from assms ne False have x: "x = ?r ! 0" and h: "h = siftup lt (?r[0 := last heap]) 0"
      by (auto simp: heappop_def Let_def)
    have "0 < length (?r[0 := last heap])" using False unfolding length_list_update by (metis length_greater_0_conv)
    from siftup_mset [OF this, of lt] have "mset h = mset (?r[0 := last heap])" by (simp add: h)
    also have "add_mset (?r ! 0) \<dots> = add_mset (last heap) (mset ?r)"
      using False by (cases "butlast heap") simp_all
    also have "\<dots> = mset heap" by (subst split) simp
    finally show ?thesis by (simp add: x)
  qed
  then show "length heap = Suc (length h)" by (metis size_mset size_add_mset)
qed

text \<open>\<^verbatim>\<open>while heap: yield heappop(heap)\<close>.\<close>

function heap_drain :: "('a \<Rightarrow> 'a \<Rightarrow> bool) \<Rightarrow> 'a list \<Rightarrow> 'a list" where
  "heap_drain lt heap = (case heappop lt heap of Inl e \<Rightarrow> [] | Inr (x, h) \<Rightarrow> x # heap_drain lt h)"
  by pat_completeness auto
termination
  by (relation "measure (\<lambda>(lt, heap). length heap)") (auto dest: heappop_mset(2))

declare heap_drain.simps [simp del]

section \<open>Heap order\<close>

text \<open>\<open>below s i\<close>: position \<open>i\<close> lies in the subtree of \<open>s\<close>.\<close>

inductive below :: "nat \<Rightarrow> nat \<Rightarrow> bool" where
  below_refl: "below s s"
| below_left: "below s i \<Longrightarrow> below s (2 * i + 1)"
| below_right: "below s i \<Longrightarrow> below s (2 * i + 2)"

lemma below_ge: "below s i \<Longrightarrow> s \<le> i"
  by (induction rule: below.induct) auto

lemma below_par: "below s i \<Longrightarrow> i \<noteq> s \<Longrightarrow> 0 < i \<and> below s (par i) \<and> s \<le> par i"
  by (cases rule: below.cases) (auto dest: below_ge)

lemma below_0: "below 0 i"
proof (induction i rule: less_induct)
  case (less i)
  show ?case
  proof (cases "i = 0")
    case False
    then have "par i < i" by linarith
    then have "below 0 (par i)" by (rule less.IH)
    moreover have "i = 2 * par i + 1 \<or> i = 2 * par i + 2" using False by linarith
    ultimately show ?thesis by (metis below_left below_right)
  qed (simp add: below_refl)
qed

text \<open>Comparisons that order the elements by a key.\<close>

locale key_order =
  fixes lt :: "'a \<Rightarrow> 'a \<Rightarrow> bool" and key :: "'a \<Rightarrow> 'k::linorder"
  assumes lt_key: "lt a b \<longleftrightarrow> key a < key b"
begin

text \<open>Heap order at every position whose parent is at \<open>s\<close> or later.\<close>

definition heap_from :: "nat \<Rightarrow> 'a list \<Rightarrow> bool" where
  "heap_from s xs \<longleftrightarrow> (\<forall>i. 0 < i \<and> i < length xs \<and> s \<le> par i \<longrightarrow> key (xs ! par i) \<le> key (xs ! i))"

text \<open>The same with one exception at \<open>pos\<close>, whose element may be smaller than its parent.\<close>

definition heap_up :: "nat \<Rightarrow> nat \<Rightarrow> 'a list \<Rightarrow> bool" where
  "heap_up s pos xs \<longleftrightarrow> pos < length xs \<and> below s pos \<and>
     (\<forall>i. 0 < i \<and> i < length xs \<and> s \<le> par i \<and> i \<noteq> pos \<longrightarrow> key (xs ! par i) \<le> key (xs ! i)) \<and>
     (\<forall>i. 0 < i \<and> i < length xs \<and> par i = pos \<and> s < pos \<longrightarrow> key (xs ! par pos) \<le> key (xs ! i))"

text \<open>A hole at \<open>pos\<close>: its element is arbitrary.\<close>

definition heap_hole :: "nat \<Rightarrow> nat \<Rightarrow> 'a list \<Rightarrow> bool" where
  "heap_hole s pos xs \<longleftrightarrow> pos < length xs \<and> below s pos \<and>
     (\<forall>i. 0 < i \<and> i < length xs \<and> s \<le> par i \<and> i \<noteq> pos \<and> par i \<noteq> pos \<longrightarrow> key (xs ! par i) \<le> key (xs ! i)) \<and>
     (\<forall>i. 0 < i \<and> i < length xs \<and> par i = pos \<and> s < pos \<longrightarrow> key (xs ! par pos) \<le> key (xs ! i))"

lemma siftdown_loop_heap:
  "pos < length xs \<Longrightarrow> heap_up s pos (xs[pos := new]) \<Longrightarrow> heap_from s (siftdown_loop lt new s pos xs)"
proof (induction pos arbitrary: xs rule: less_induct)
  case (less pos)
  define ys where "ys = xs[pos := new]"
  have up: "heap_up s pos ys" and len: "length ys = length xs" using less.prems by (simp_all add: ys_def)
  have at: "ys ! pos = new" using less.prems(1) by (simp add: ys_def)
  show ?case
  proof (cases "pos > s \<and> lt new (xs ! par pos)")
    case True
    define q where "q = par pos"
    define zs where "zs = xs[pos := xs ! q, q := new]"
    have b: "below s pos" using up by (simp add: heap_up_def)
    have q: "0 < pos" "below s q" "s \<le> q" "q < pos" "q < length xs"
      using below_par [OF b] True less.prems(1) by (auto simp: q_def)
    have yq: "ys ! q = xs ! q" using q by (simp add: ys_def)
    have small: "key new < key (xs ! q)" using True by (simp add: lt_key q_def)
    have z: "zs ! i = (if i = q then new else if i = pos then xs ! q else ys ! i)" if "i < length xs" for i
      using that q less.prems(1) by (simp add: zs_def ys_def)
    have ord: "key (ys ! par i) \<le> key (ys ! i)" if "0 < i" "i < length xs" "s \<le> par i" "i \<noteq> pos" for i
      using up that len by (simp add: heap_up_def)
    have kids: "key (ys ! q) \<le> key (ys ! i)" if "0 < i" "i < length xs" "par i = pos" for i
      using up that len True by (simp add: heap_up_def q_def)
    have "heap_up s q zs"
      unfolding heap_up_def
    proof (intro conjI allI impI; (elim conjE)?)
      show "q < length zs" "below s q" using q by (simp_all add: zs_def)
      fix i assume i: "0 < i" "i < length zs"
      have il: "i < length xs" "par i < length xs" using i by (auto simp: zs_def)
      {
        assume h: "s \<le> par i" "i \<noteq> q"
        consider "i = pos" | "i \<noteq> pos" "par i = pos" | "i \<noteq> pos" "par i = q" | "i \<noteq> pos" "par i \<noteq> pos" "par i \<noteq> q"
          by blast
        then show "key (zs ! par i) \<le> key (zs ! i)"
        proof cases
          case 1
          then have "par i = q" by (simp add: q_def)
          with 1 h show ?thesis using z [OF il(1)] z [OF il(2)] small by simp
        next
          case 2
          then show ?thesis using z [OF il(1)] z [OF il(2)] h kids [OF i(1) il(1) 2(2)] q(4) yq by simp
        next
          case 3
          then show ?thesis using z [OF il(1)] z [OF il(2)] h ord [OF i(1) il(1) h(1) 3(1)] small yq by simp
        next
          case 4
          then show ?thesis using z [OF il(1)] z [OF il(2)] h ord [OF i(1) il(1) h(1) 4(1)] by simp
        qed
      }
      assume qi: "par i = q" "s < q"
      have gp: "key (ys ! par q) \<le> key (xs ! q)" using ord [of q] below_par [OF q(2)] q qi(2) yq by simp
      have "par q < q" using qi(2) by linarith
      then have "zs ! par q = ys ! par q" using z [of "par q"] q by simp
      moreover have "i \<noteq> q" using qi i(1) by linarith
      then have "key (xs ! q) \<le> key (zs ! i)"
        using z [OF il(1)] ord [OF i(1) il(1)] qi yq by (cases "i = pos") simp_all
      ultimately show "key (zs ! par q) \<le> key (zs ! i)" using gp by simp
    qed
    then have "heap_from s (siftdown_loop lt new s q (xs[pos := xs ! q]))"
      using q by (intro less.IH) (simp_all add: zs_def)
    then show ?thesis using True by (subst siftdown_loop.simps) (simp add: Let_def q_def)
  next
    case False
    have "heap_from s ys"
      unfolding heap_from_def
    proof (intro allI impI; elim conjE)
      fix i assume i: "0 < i" "i < length ys" "s \<le> par i"
      show "key (ys ! par i) \<le> key (ys ! i)"
      proof (cases "i = pos")
        case True
        then have "s < pos" using i by linarith
        with False True at i show ?thesis by (auto simp: lt_key ys_def)
      next
        case False
        then show ?thesis using up i by (simp add: heap_up_def)
      qed
    qed
    then show ?thesis using False by (subst siftdown_loop.simps) (auto simp: Let_def ys_def)
  qed
qed

lemma siftup_loop_hole:
  "siftup_loop lt pos xs = (leaf, ys) \<Longrightarrow> heap_hole s pos xs \<Longrightarrow>
    heap_hole s leaf ys \<and> length ys \<le> 2 * leaf + 1"
proof (induction "length xs - pos" arbitrary: pos xs rule: less_induct)
  case less
  show ?case
  proof (cases "2 * pos + 1 < length xs")
    case True
    define c where "c = smaller_child lt pos xs"
    note C = smaller_child [OF True, of lt, folded c_def]
    define zs where "zs = xs[pos := xs ! c]"
    have hole: "heap_hole s pos xs" by (rule less.prems(2))
    have z: "zs ! i = (if i = pos then xs ! c else xs ! i)" if "i < length xs" for i
      using that by (simp add: zs_def nth_list_update)
    have min: "key (xs ! c) \<le> key (xs ! i)" if "0 < i" "i < length xs" "par i = pos" for i
    proof -
      have "i = 2 * pos + 1 \<or> i = 2 * pos + 2" using that by linarith
      with that show ?thesis by (auto simp: c_def smaller_child_def Let_def lt_key)
    qed
    have "below s pos" using hole by (simp add: heap_hole_def)
    then have bs: "below s c" using C(4) below_left below_right by metis
    have sp: "s \<le> pos" using hole by (auto simp: heap_hole_def dest: below_ge)
    have "heap_hole s c zs"
      unfolding heap_hole_def
    proof (intro conjI allI impI; (elim conjE)?)
      show "c < length zs" "below s c" using C(1) bs by (simp_all add: zs_def)
      fix i assume i: "0 < i" "i < length zs"
      have il: "i < length xs" "par i < length xs" using i by (auto simp: zs_def)
      {
        assume h: "s \<le> par i" "i \<noteq> c" "par i \<noteq> c"
        consider "i = pos" | "i \<noteq> pos" "par i = pos" | "i \<noteq> pos" "par i \<noteq> pos" by blast
        then show "key (zs ! par i) \<le> key (zs ! i)"
        proof cases
          case 1
          then have "par i \<noteq> pos" "s < pos" using i(1) h(1) by linarith+
          with 1 hole C show ?thesis using z [OF il(1)] z [OF il(2)] by (simp add: heap_hole_def)
        next
          case 2
          then show ?thesis using z [OF il(1)] z [OF il(2)] min [OF i(1) il(1)] by simp
        next
          case 3
          then show ?thesis using z [OF il(1)] z [OF il(2)] hole h(1) i(1) il(1) by (simp add: heap_hole_def)
        qed
      }
      assume pc: "par i = c" "s < c"
      have "i \<noteq> pos" using pc(1) C(3) by linarith
      then have "key (xs ! c) \<le> key (xs ! i)"
        using hole [unfolded heap_hole_def, THEN conjunct2, THEN conjunct2, THEN conjunct1, rule_format, of i]
          pc i(1) il(1) C(3) by simp
      with \<open>i \<noteq> pos\<close> show "key (zs ! par c) \<le> key (zs ! i)"
        using z [OF il(1)] z [of pos] C(1-3) by simp
    qed
    moreover have "siftup_loop lt c zs = (leaf, ys)"
      using less.prems(1) True by (subst (asm) siftup_loop.simps) (simp add: Let_def c_def zs_def)
    moreover have "length zs - c < length xs - pos" using C(1,3) by (simp add: zs_def)
    ultimately show ?thesis using less.hyps by blast
  next
    case False
    then show ?thesis using less.prems by (subst (asm) siftup_loop.simps) simp
  qed
qed

lemma siftup_heap:
  assumes "heap_hole s s xs"
  shows "heap_from s (siftup lt xs s)"
proof -
  obtain leaf ys where r: "siftup_loop lt s xs = (leaf, ys)" by fastforce
  from siftup_loop_hole [OF r assms] have h: "heap_hole s leaf ys" and no: "length ys \<le> 2 * leaf + 1" by auto
  let ?zs = "ys[leaf := xs ! s]"
  have leaf: "leaf < length ys" using h by (simp add: heap_hole_def)
  have none: "par i \<noteq> leaf" if "0 < i" "i < length ys" for i using no that by linarith
  have "heap_up s leaf ?zs"
    using h leaf none by (auto simp: heap_up_def heap_hole_def nth_list_update)
  then have "heap_from s (siftdown_loop lt (?zs ! leaf) s leaf ?zs)"
    using leaf by (intro siftdown_loop_heap) simp_all
  then show ?thesis by (simp add: siftup_def r siftdown_def)
qed

lemma heappush_heap:
  assumes "heap_from 0 heap"
  shows "heap_from 0 (heappush lt heap item)"
proof -
  have no: "par i \<noteq> length heap" if "0 < i" "i < Suc (length heap)" for i using that by linarith
  have "heap_up 0 (length heap) (heap @ [item])"
    unfolding heap_up_def
  proof (intro conjI allI impI; (elim conjE)?)
    show "below 0 (length heap)" by (rule below_0)
    fix i assume "0 < i" "i < length (heap @ [item])"
    then show "i \<noteq> length heap \<Longrightarrow> key ((heap @ [item]) ! par i) \<le> key ((heap @ [item]) ! i)"
      "par i = length heap \<Longrightarrow> key ((heap @ [item]) ! par (length heap)) \<le> key ((heap @ [item]) ! i)"
      using assms no [of i] by (auto simp: heap_from_def nth_append)
  qed simp
  then show ?thesis
    unfolding heappush_def siftdown_def by (intro siftdown_loop_heap) simp_all
qed

lemma heap_root_least:
  assumes "heap_from 0 xs" and "i < length xs"
  shows "key (xs ! 0) \<le> key (xs ! i)"
  using assms(2)
proof (induction i rule: less_induct)
  case (less i)
  show ?case
  proof (cases "i = 0")
    case False
    then have "par i < i" by linarith
    then have "key (xs ! 0) \<le> key (xs ! par i)" using less by simp
    also have "\<dots> \<le> key (xs ! i)" using assms(1) False less.prems by (simp add: heap_from_def)
    finally show ?thesis .
  qed simp
qed

lemma heappop_heap:
  assumes "heap_from 0 heap" and "heap \<noteq> []"
  obtains x h where "heappop lt heap = Inr (x, h)" and "heap_from 0 h" and "x = heap ! 0"
    and "\<And>y. y \<in> set heap \<Longrightarrow> key x \<le> key y"
proof -
  let ?r = "butlast heap"
  have least: "key (heap ! 0) \<le> key y" if "y \<in> set heap" for y
    using heap_root_least [OF assms(1)] that by (metis in_set_conv_nth)
  show thesis
  proof (cases "?r = []")
    case True
    then have one: "heap = [last heap]" using assms(2) by (metis append_Nil append_butlast_last_id)
    then have "heappop lt heap = Inr (last heap, [])" using assms(2) True by (simp add: heappop_def Let_def)
    moreover have "last heap = heap ! 0" using one by (metis nth_Cons_0)
    ultimately show thesis using least by (intro that [of "last heap" "[]"]) (simp_all add: heap_from_def)
  next
    case False
    then have len: "0 < length ?r" by (metis length_greater_0_conv)
    have nth: "?r ! i = heap ! i" if "i < length ?r" for i using that by (simp add: nth_butlast)
    have "heap_hole 0 0 (?r[0 := last heap])"
      using assms(1) len nth below_refl by (auto simp: heap_hole_def heap_from_def nth_list_update)
    then have "heap_from 0 (siftup lt (?r[0 := last heap]) 0)" by (rule siftup_heap)
    moreover have "heappop lt heap = Inr (heap ! 0, siftup lt (?r[0 := last heap]) 0)"
      using assms(2) False nth [OF len] by (simp add: heappop_def Let_def)
    ultimately show thesis using least by (intro that) simp_all
  qed
qed

lemma heapify_loop:
  "n \<le> length xs \<Longrightarrow> heap_from n xs \<Longrightarrow> heap_from 0 (fold (\<lambda>i h. siftup lt h i) (rev [0..<n]) xs)"
proof (induction n arbitrary: xs)
  case 0
  then show ?case by simp
next
  case (Suc n)
  have "heap_hole n n xs" using Suc.prems below_refl by (auto simp: heap_hole_def heap_from_def)
  then have "heap_from n (siftup lt xs n)" by (rule siftup_heap)
  moreover have "length (siftup lt xs n) = length xs" using siftup_mset [of n xs lt] Suc.prems(1) by simp
  ultimately show ?case using Suc by simp
qed

lemma heapify_heap: "heap_from 0 (heapify lt xs)"
  unfolding heapify_def by (rule heapify_loop) (auto simp: heap_from_def)

lemma heap_drain_sorted:
  "heap_from 0 heap \<Longrightarrow> sorted (map key (heap_drain lt heap)) \<and> mset (heap_drain lt heap) = mset heap"
proof (induction "length heap" arbitrary: heap)
  case 0
  then show ?case by (subst heap_drain.simps, subst (2) heap_drain.simps) (simp add: heappop_def)
next
  case (Suc n)
  then have "heap \<noteq> []" by auto
  from heappop_heap [OF Suc.prems this] obtain x h where
    x: "heappop lt heap = Inr (x, h)" "heap_from 0 h" "\<And>y. y \<in> set heap \<Longrightarrow> key x \<le> key y" by blast
  note M = heappop_mset [OF x(1)]
  have ih: "sorted (map key (heap_drain lt h))" "mset (heap_drain lt h) = mset h"
    using Suc.hyps(1) [of h] x(2) M(2) Suc.hyps(2) by auto
  have "set (heap_drain lt h) \<subseteq> set heap" using ih(2) M(1) by (metis set_mset_mset set_mset_add_mset_insert subset_insertI)
  then have "\<forall>y \<in> set (heap_drain lt h). key x \<le> key y" using x(3) by blast
  with ih M(1) show ?case by (subst heap_drain.simps, subst (2) heap_drain.simps) (simp add: x(1))
qed

end

end
