(* ===== verification/RequestQueues.thy ===== *)
theory RequestQueues
  imports RequestModel HeapQueue
begin

text \<open>
  The waiting queues of the scheduler (\<^verbatim>\<open>src/vllm/v1/core/sched/request_queue.py\<close>): first come
  first served on a deque, and by priority on a heap ordered by \<^verbatim>\<open>Request.__lt__\<close>. A queue
  object is a constructor with its list; the methods dispatch on it. The contract of the abstract
  base class is the locale \<open>queue_contract\<close>, which the model implements for both policies.
\<close>

section \<open>The queues\<close>

datatype scheduling_policy = FCFS | PRIORITY

datatype request_queue = FCFSRequestQueue "request list" | PriorityRequestQueue "request list"

subsection \<open>First come, first served: a deque\<close>

definition FCFS_add_request :: "request list \<Rightarrow> request \<Rightarrow> request list" where
  [simp]: "FCFS_add_request q r = q @ [r]"

fun FCFS_pop_request :: "request list \<Rightarrow> (request \<times> request list) res" where
  "FCFS_pop_request [] = Inl IndexError"
| "FCFS_pop_request (r # q) = Inr (r, q)"

definition FCFS_peek_request :: "request list \<Rightarrow> request res" where
  [simp]: "FCFS_peek_request q = (if q = [] then Inl IndexError else Inr (q ! 0))"

definition FCFS_prepend_request :: "request list \<Rightarrow> request \<Rightarrow> request list" where
  [simp]: "FCFS_prepend_request q r = r # q"

text \<open>\<^verbatim>\<open>extendleft\<close> pushes one after the other to the left.\<close>

definition FCFS_prepend_requests :: "request list \<Rightarrow> request list \<Rightarrow> request list" where
  "FCFS_prepend_requests q rs = fold (\<lambda>r q. r # q) rs q"

text \<open>\<^verbatim>\<open>remove\<close> takes out the first occurrence and raises when there is none.\<close>

definition FCFS_remove_request :: "request list \<Rightarrow> request \<Rightarrow> request list res" where
  [simp]: "FCFS_remove_request q r = (if r \<in> set q then Inr (remove1 r q) else Inl ValueError)"

definition FCFS_remove_requests :: "request list \<Rightarrow> request list \<Rightarrow> request list" where
  [simp]: "FCFS_remove_requests q rs = filter (\<lambda>r. r \<notin> set rs) q"

definition FCFS_len :: "request list \<Rightarrow> nat" where
  [simp]: "FCFS_len q = length q"

definition FCFS_bool :: "request list \<Rightarrow> bool" where
  [simp]: "FCFS_bool q \<longleftrightarrow> length q > 0"

definition FCFS_iter :: "request list \<Rightarrow> request list" where
  [simp]: "FCFS_iter q = q"

subsection \<open>By priority: a heap\<close>

definition Priority_add_request :: "request list \<Rightarrow> request \<Rightarrow> request list" where
  [simp]: "Priority_add_request heap r = heappush request_lt heap r"

definition Priority_pop_request :: "request list \<Rightarrow> (request \<times> request list) res" where
  [simp]: "Priority_pop_request heap = (if heap = [] then Inl IndexError else heappop request_lt heap)"

definition Priority_peek_request :: "request list \<Rightarrow> request res" where
  [simp]: "Priority_peek_request heap = (if heap = [] then Inl IndexError else Inr (heap ! 0))"

definition Priority_prepend_request :: "request list \<Rightarrow> request \<Rightarrow> request list" where
  [simp]: "Priority_prepend_request heap r = Priority_add_request heap r"

definition Priority_prepend_requests :: "request list \<Rightarrow> request list \<Rightarrow> request list" where
  [simp]: "Priority_prepend_requests heap rs = fold (\<lambda>r heap. Priority_add_request heap r) rs heap"

definition Priority_remove_request :: "request list \<Rightarrow> request \<Rightarrow> request list res" where
  [simp]: "Priority_remove_request heap r =
     (if r \<in> set heap then Inr (heapify request_lt (remove1 r heap)) else Inl ValueError)"

definition Priority_remove_requests :: "request list \<Rightarrow> request list \<Rightarrow> request list" where
  [simp]: "Priority_remove_requests heap rs = heapify request_lt (filter (\<lambda>r. r \<notin> set rs) heap)"

definition Priority_bool :: "request list \<Rightarrow> bool" where
  [simp]: "Priority_bool heap \<longleftrightarrow> heap \<noteq> []"

definition Priority_len :: "request list \<Rightarrow> nat" where
  [simp]: "Priority_len heap = length heap"

text \<open>Iteration drains a copy of the heap.\<close>

definition Priority_iter :: "request list \<Rightarrow> request list" where
  [simp]: "Priority_iter heap = heap_drain request_lt heap"

subsection \<open>The abstract methods: dispatch on the class\<close>

fun create_request_queue :: "scheduling_policy \<Rightarrow> request_queue" where
  "create_request_queue PRIORITY = PriorityRequestQueue []"
| "create_request_queue FCFS = FCFSRequestQueue []"

fun add_request :: "request_queue \<Rightarrow> request \<Rightarrow> request_queue" where
  "add_request (FCFSRequestQueue q) r = FCFSRequestQueue (FCFS_add_request q r)"
| "add_request (PriorityRequestQueue h) r = PriorityRequestQueue (Priority_add_request h r)"

fun pop_request :: "request_queue \<Rightarrow> (request \<times> request_queue) res" where
  "pop_request (FCFSRequestQueue q) = bind_res (FCFS_pop_request q) (\<lambda>(r, q'). Inr (r, FCFSRequestQueue q'))"
| "pop_request (PriorityRequestQueue h) =
     bind_res (Priority_pop_request h) (\<lambda>(r, h'). Inr (r, PriorityRequestQueue h'))"

fun peek_request :: "request_queue \<Rightarrow> request res" where
  "peek_request (FCFSRequestQueue q) = FCFS_peek_request q"
| "peek_request (PriorityRequestQueue h) = Priority_peek_request h"

fun prepend_request :: "request_queue \<Rightarrow> request \<Rightarrow> request_queue" where
  "prepend_request (FCFSRequestQueue q) r = FCFSRequestQueue (FCFS_prepend_request q r)"
| "prepend_request (PriorityRequestQueue h) r = PriorityRequestQueue (Priority_prepend_request h r)"

fun prepend_requests :: "request_queue \<Rightarrow> request list \<Rightarrow> request_queue" where
  "prepend_requests (FCFSRequestQueue q) rs = FCFSRequestQueue (FCFS_prepend_requests q rs)"
| "prepend_requests (PriorityRequestQueue h) rs = PriorityRequestQueue (Priority_prepend_requests h rs)"

fun remove_request :: "request_queue \<Rightarrow> request \<Rightarrow> request_queue res" where
  "remove_request (FCFSRequestQueue q) r = bind_res (FCFS_remove_request q r) (\<lambda>q'. Inr (FCFSRequestQueue q'))"
| "remove_request (PriorityRequestQueue h) r =
     bind_res (Priority_remove_request h r) (\<lambda>h'. Inr (PriorityRequestQueue h'))"

fun remove_requests :: "request_queue \<Rightarrow> request list \<Rightarrow> request_queue" where
  "remove_requests (FCFSRequestQueue q) rs = FCFSRequestQueue (FCFS_remove_requests q rs)"
| "remove_requests (PriorityRequestQueue h) rs = PriorityRequestQueue (Priority_remove_requests h rs)"

fun rq_bool :: "request_queue \<Rightarrow> bool" where
  "rq_bool (FCFSRequestQueue q) \<longleftrightarrow> FCFS_bool q"
| "rq_bool (PriorityRequestQueue h) \<longleftrightarrow> Priority_bool h"

fun rq_len :: "request_queue \<Rightarrow> nat" where
  "rq_len (FCFSRequestQueue q) = FCFS_len q"
| "rq_len (PriorityRequestQueue h) = Priority_len h"

fun rq_iter :: "request_queue \<Rightarrow> request list" where
  "rq_iter (FCFSRequestQueue q) = FCFS_iter q"
| "rq_iter (PriorityRequestQueue h) = Priority_iter h"

lemma FCFS_prepend_requests_rev [simp]: "FCFS_prepend_requests q rs = rev rs @ q"
  unfolding FCFS_prepend_requests_def by (induction rs arbitrary: q) simp_all

lemma Priority_prepends:
  "fold (\<lambda>r q. add_request q r) rs (PriorityRequestQueue h) =
     PriorityRequestQueue (fold (\<lambda>r h. heappush request_lt h r) rs h)"
  by (induction rs arbitrary: h) simp_all

lemma rq_bool_len: "rq_bool q \<longleftrightarrow> rq_len q > 0"
  by (cases q) simp_all

section \<open>The contract\<close>

locale queue_contract =
  fixes ok :: "'q \<Rightarrow> bool"
    and bag :: "'q \<Rightarrow> request multiset"
    and order :: "'q \<Rightarrow> request list"
    and add :: "'q \<Rightarrow> request \<Rightarrow> 'q"
    and pop :: "'q \<Rightarrow> (request \<times> 'q) res"
    and peek :: "'q \<Rightarrow> request res"
    and rm :: "'q \<Rightarrow> request list \<Rightarrow> 'q"
  assumes add_ok: "ok q \<Longrightarrow> ok (add q r) \<and> bag (add q r) = add_mset r (bag q)"
    and order_bag: "ok q \<Longrightarrow> mset (order q) = bag q"
    and pop_empty: "ok q \<Longrightarrow> bag q = {#} \<Longrightarrow> pop q = Inl IndexError \<and> peek q = Inl IndexError"
    and pop_ok: "ok q \<Longrightarrow> bag q \<noteq> {#} \<Longrightarrow> \<exists>r q'. pop q = Inr (r, q') \<and> peek q = Inr r \<and>
      ok q' \<and> order q = r # order q'"
    and rm_ok: "ok q \<Longrightarrow> ok (rm q rs) \<and> bag (rm q rs) = filter_mset (\<lambda>r. r \<notin> set rs) (bag q)"
begin

lemma bag_pop:
  assumes "ok q" and "pop q = Inr (r, q')"
  shows "ok q' \<and> peek q = Inr r \<and> bag q = add_mset r (bag q') \<and> order q = r # order q'"
proof -
  have "bag q \<noteq> {#}" using pop_empty [OF assms(1)] assms(2) by auto
  from pop_ok [OF assms(1) this] assms(2) have "ok q'" "peek q = Inr r" "order q = r # order q'" by auto
  with order_bag [OF assms(1)] order_bag [of q'] show ?thesis by auto
qed

text \<open>Popping \<open>n\<close> times serves the first \<open>n\<close> requests of the iteration order.\<close>

primrec pops :: "nat \<Rightarrow> 'q \<Rightarrow> (request list \<times> 'q) res" where
  "pops 0 q = Inr ([], q)"
| "pops (Suc n) q = bind_res (pop q) (\<lambda>(r, q1). bind_res (pops n q1) (\<lambda>(rs, q2). Inr (r # rs, q2)))"

lemma pops_order:
  assumes "ok q" and "n \<le> size (bag q)"
  shows "\<exists>q'. pops n q = Inr (take n (order q), q') \<and> ok q' \<and> order q' = drop n (order q)"
  using assms
proof (induction n arbitrary: q)
  case (Suc n)
  then have "bag q \<noteq> {#}" by auto
  from pop_ok [OF Suc.prems(1) this] obtain r q1 where
    q1: "pop q = Inr (r, q1)" "ok q1" "order q = r # order q1" by blast
  have "n \<le> size (bag q1)" using bag_pop [OF Suc.prems(1) q1(1)] Suc.prems(2) by auto
  from Suc.IH [OF q1(2) this] q1 show ?case by auto
qed simp

end

section \<open>Both policies meet it\<close>

interpretation prio: key_order request_lt request_key
  by unfold_locales (rule request_lt_key)

fun rq_ok :: "request_queue \<Rightarrow> bool" where
  "rq_ok (FCFSRequestQueue q) \<longleftrightarrow> True"
| "rq_ok (PriorityRequestQueue h) \<longleftrightarrow> prio.heap_from 0 h"

fun rq_list :: "request_queue \<Rightarrow> request list" where
  "rq_list (FCFSRequestQueue q) = q"
| "rq_list (PriorityRequestQueue h) = h"

abbreviation rq_bag :: "request_queue \<Rightarrow> request multiset" where
  "rq_bag q \<equiv> mset (rq_list q)"

interpretation rq: queue_contract rq_ok rq_bag rq_iter add_request pop_request peek_request remove_requests
proof unfold_locales
  fix q :: request_queue and r :: request and rs :: "request list"
  assume ok: "rq_ok q"
  show "rq_ok (add_request q r) \<and> rq_bag (add_request q r) = add_mset r (rq_bag q)"
    using ok by (cases q) (simp_all add: prio.heappush_heap heappush_mset)
  show "mset (rq_iter q) = rq_bag q"
    using ok by (cases q) (simp_all add: prio.heap_drain_sorted)
  show "rq_bag q = {#} \<Longrightarrow> pop_request q = Inl IndexError \<and> peek_request q = Inl IndexError"
    by (cases q) auto
  show "rq_bag q \<noteq> {#} \<Longrightarrow> \<exists>r q'. pop_request q = Inr (r, q') \<and> peek_request q = Inr r \<and> rq_ok q' \<and>
      rq_iter q = r # rq_iter q'"
  proof (cases q)
    case (FCFSRequestQueue xs)
    then show "rq_bag q \<noteq> {#} \<Longrightarrow> ?thesis" by (cases xs) auto
  next
    case (PriorityRequestQueue h)
    assume "rq_bag q \<noteq> {#}"
    with PriorityRequestQueue have ne: "h \<noteq> []" by auto
    from ok PriorityRequestQueue have "prio.heap_from 0 h" by simp
    from prio.heappop_heap [OF this ne] obtain r h' where
      r: "heappop request_lt h = Inr (r, h')" "prio.heap_from 0 h'" "r = h ! 0" by blast
    have "heap_drain request_lt h = r # heap_drain request_lt h'" by (subst heap_drain.simps) (simp add: r(1))
    with r ne PriorityRequestQueue show ?thesis by auto
  qed
  show "rq_ok (remove_requests q rs) \<and> rq_bag (remove_requests q rs) = filter_mset (\<lambda>r. r \<notin> set rs) (rq_bag q)"
    by (cases q) (simp_all add: prio.heapify_heap heapify_mset)
qed

section \<open>Every queue the operations build\<close>

inductive rq_step :: "request_queue \<Rightarrow> request_queue \<Rightarrow> bool" where
  step_add: "rq_step q (add_request q r)"
| step_pop: "pop_request q = Inr (r, q') \<Longrightarrow> rq_step q q'"
| step_prepend: "rq_step q (prepend_request q r)"
| step_prepends: "rq_step q (prepend_requests q rs)"
| step_remove: "remove_request q r = Inr q' \<Longrightarrow> rq_step q q'"
| step_removes: "rq_step q (remove_requests q rs)"

abbreviation built :: "scheduling_policy \<Rightarrow> request_queue \<Rightarrow> bool" where
  "built pol \<equiv> rq_step\<^sup>*\<^sup>* (create_request_queue pol)"

fun policy_of :: "request_queue \<Rightarrow> scheduling_policy" where
  "policy_of (FCFSRequestQueue q) = FCFS"
| "policy_of (PriorityRequestQueue h) = PRIORITY"

lemma add_policy [simp]: "policy_of (add_request q r) = policy_of q"
  by (cases q) simp_all

lemma adds_ok:
  "rq_ok q \<Longrightarrow> rq_ok (fold (\<lambda>r q. add_request q r) rs q) \<and>
     policy_of (fold (\<lambda>r q. add_request q r) rs q) = policy_of q"
  by (induction rs arbitrary: q) (simp_all add: rq.add_ok)

lemma rq_step_ok:
  assumes "rq_step q q'" and "rq_ok q"
  shows "rq_ok q' \<and> policy_of q' = policy_of q"
  using assms
proof cases
  case (step_add r)
  then show ?thesis using assms(2) by (simp add: rq.add_ok)
next
  case (step_pop r)
  have "policy_of q' = policy_of q" using step_pop
    by (cases q) (auto simp: bind_res_def split: if_splits sum.splits)
  then show ?thesis using rq.bag_pop [OF assms(2) step_pop] by simp
next
  case (step_prepend r)
  then show ?thesis using assms(2) rq.add_ok by (cases q) (simp_all add: prio.heappush_heap)
next
  case (step_prepends rs)
  then show ?thesis using assms(2) adds_ok [OF assms(2), of rs] by (cases q) (simp_all add: Priority_prepends)
next
  case (step_remove r)
  then show ?thesis by (cases q) (auto split: if_splits simp: prio.heapify_heap)
next
  case (step_removes rs)
  then show ?thesis using assms(2) by (cases q) (simp_all add: prio.heapify_heap)
qed

lemma built_ok:
  assumes "built pol q"
  shows "rq_ok q \<and> policy_of q = pol"
  using assms
proof (induction rule: rtranclp_induct)
  case base
  then show ?case by (cases pol) (simp_all add: prio.heap_from_def)
next
  case (step y z)
  then show ?case using rq_step_ok by blast
qed

lemma built_cases:
  assumes "built pol q"
  obtains (fcfs) xs where "pol = FCFS" and "q = FCFSRequestQueue xs"
  | (prio) h where "pol = PRIORITY" and "q = PriorityRequestQueue h" and "prio.heap_from 0 h"
  using built_ok [OF assms] by (cases q) auto

lemma rq_len_bag: "rq_len q = length (rq_list q)"
  by (cases q) simp_all

lemma rq_iter_list:
  assumes "rq_ok q"
  shows "set (rq_iter q) = set (rq_list q)" and "length (rq_iter q) = rq_len q"
  using rq.order_bag [OF assms] by (metis set_mset_mset, metis size_mset rq_len_bag)

lemma adds_fcfs: "fold (\<lambda>r q. add_request q r) rs (FCFSRequestQueue xs) = FCFSRequestQueue (xs @ rs)"
  by (induction rs arbitrary: xs) simp_all

lemma pops_fcfs: "n \<le> length xs \<Longrightarrow> rq.pops n (FCFSRequestQueue xs) = Inr (take n xs, FCFSRequestQueue (drop n xs))"
proof (induction n arbitrary: xs)
  case (Suc n)
  then show ?case by (cases xs) simp_all
qed simp

lemma sorted_key_unique:
  fixes f :: "'a \<Rightarrow> 'b::linorder"
  assumes "mset xs = mset ys" and "sorted (map f xs)" and "sorted (map f ys)" and "inj_on f (set xs)"
  shows "xs = ys"
proof -
  have "map f xs = map f ys"
    using assms(1-3) by (metis mset_map properties_for_sort)
  moreover have "set xs = set ys" using assms(1) by (metis set_mset_mset)
  ultimately show ?thesis using assms(4) by (simp add: inj_on_map_eq_map)
qed

lemma not_request_lt: "\<not> request_lt b a \<longleftrightarrow> request_key a \<le> request_key b"
  by (simp add: request_lt_key not_less)

section \<open>Properties\<close>

text \<open>C30: In every priority queue the operations build, a pop on a non-empty queue succeeds, agrees
  with peek, returns a queued request that no queued request precedes in the order of
  \<^verbatim>\<open>Request.__lt__\<close>, takes exactly that request out, and leaves the iteration order of the rest.\<close>

theorem priority_pop_least:
  assumes "built PRIORITY q" and "rq_bool q"
  shows "\<exists>r q'. pop_request q = Inr (r, q') \<and> peek_request q = Inr r \<and> built PRIORITY q' \<and>
    rq_bag q = add_mset r (rq_bag q') \<and> (\<forall>s \<in># rq_bag q. \<not> request_lt s r) \<and> rq_iter q = r # rq_iter q'"
proof -
  from built_cases [OF assms(1)] obtain h where q: "q = PriorityRequestQueue h" "prio.heap_from 0 h" by blast
  have ok: "rq_ok q" using q by simp
  have "rq_bag q \<noteq> {#}" using assms(2) q by (auto simp: rq_bool_len)
  from rq.pop_ok [OF ok this] obtain r q' where r: "pop_request q = Inr (r, q')" by blast
  note P = rq.bag_pop [OF ok r]
  have "built PRIORITY q'" using assms(1) step_pop [OF r] by (rule rtranclp.rtrancl_into_rtrancl)
  moreover have "sorted (map request_key (rq_iter q))" using prio.heap_drain_sorted [OF q(2)] q(1) by simp
  then have "\<forall>s \<in> set (rq_iter q). request_key r \<le> request_key s" using P by auto
  then have "\<forall>s \<in># rq_bag q. \<not> request_lt s r"
    using rq_iter_list(1) [OF ok] by (simp add: not_request_lt)
  ultimately show ?thesis using r P by blast
qed

text \<open>C31: Iterating over a priority queue yields every queued request exactly once, in the order of
  \<^verbatim>\<open>Request.__lt__\<close>, which is the order in which repeated pops serve them.\<close>

theorem priority_iter_sorted:
  assumes "built PRIORITY q"
  shows "sorted_wrt (\<lambda>a b. \<not> request_lt b a) (rq_iter q) \<and> mset (rq_iter q) = rq_bag q \<and>
    (\<forall>n \<le> rq_len q. \<exists>q'. rq.pops n q = Inr (take n (rq_iter q), q') \<and> rq_iter q' = drop n (rq_iter q))"
proof -
  from built_cases [OF assms] obtain h where q: "q = PriorityRequestQueue h" "prio.heap_from 0 h" by blast
  have ok: "rq_ok q" using q by simp
  have "sorted (map request_key (rq_iter q))" using prio.heap_drain_sorted [OF q(2)] q(1) by simp
  then have "sorted_wrt (\<lambda>a b. \<not> request_lt b a) (rq_iter q)"
    by (simp add: not_request_lt sorted_map)
  then show ?thesis using rq.pops_order [OF ok] rq.order_bag [OF ok] rq_len_bag [of q] by auto
qed

text \<open>C32: A first-come-first-served queue serves requests in the order they were added: after adding
  \<open>rs\<close>, pops serve what was queued before and then \<open>rs\<close> in order; a prepended request is served
  next, and several prepended at once are served in reverse.\<close>

theorem fcfs_queue_order:
  assumes "built FCFS q"
  shows "(\<exists>q'. rq.pops (rq_len q + length rs) (fold (\<lambda>r q. add_request q r) rs q) = Inr (rq_iter q @ rs, q') \<and> \<not> rq_bool q') \<and>
    pop_request (prepend_request q r) = Inr (r, q) \<and>
    rq.pops (length rs) (prepend_requests q rs) = Inr (rev rs, q)"
proof -
  from built_cases [OF assms] obtain xs where q: "q = FCFSRequestQueue xs" by blast
  show ?thesis
    using pops_fcfs [of "length xs + length rs" "xs @ rs"] pops_fcfs [of "length rs" "rev rs @ xs"]
    by (simp add: q adds_fcfs rq_bool_len)
qed

text \<open>C34: The error paths of the queues: on an empty queue pop and peek raise \<^verbatim>\<open>IndexError\<close>, on a
  non-empty one neither raises; removing one request raises \<^verbatim>\<open>ValueError\<close> exactly when it is
  not queued.\<close>

theorem queue_error_paths:
  assumes "built pol q"
  shows "(pop_request q = Inl IndexError \<longleftrightarrow> \<not> rq_bool q) \<and> (peek_request q = Inl IndexError \<longleftrightarrow> \<not> rq_bool q) \<and>
    (\<forall>e. pop_request q = Inl e \<longrightarrow> e = IndexError) \<and>
    (remove_request q r = Inl ValueError \<longleftrightarrow> r \<notin> set (rq_iter q)) \<and>
    (\<forall>q'. remove_request q r = Inr q' \<longrightarrow> rq_bag q = add_mset r (rq_bag q'))"
proof -
  have ok: "rq_ok q" using built_ok [OF assms] by simp
  have empty: "rq_bag q = {#} \<longleftrightarrow> \<not> rq_bool q" by (simp add: rq_bool_len rq_len_bag)
  have "r \<notin> set (rq_list q) \<longleftrightarrow> remove_request q r = Inl ValueError" by (cases q) auto
  moreover have "rq_bag q = add_mset r (rq_bag q')" if "remove_request q r = Inr q'" for q'
    using that by (cases q) (auto split: if_splits simp: heapify_mset)
  ultimately show ?thesis
    using rq.pop_empty [OF ok] rq.pop_ok [OF ok] rq_iter_list(1) [OF ok] empty by fastforce
qed

text \<open>C33: Removing a set of requests leaves exactly the others, under either policy, and they are
  served in the same relative order as before: re-heapifying does not reorder distinct requests.\<close>

theorem remove_requests_order:
  assumes "built pol q" and "inj_on request_key (set (rq_iter q))"
  shows "rq_iter (remove_requests q rs) = filter (\<lambda>r. r \<notin> set rs) (rq_iter q)"
  using assms(1)
proof (cases rule: built_cases)
  case (fcfs xs)
  then show ?thesis by simp
next
  case (prio h)
  let ?f = "filter (\<lambda>r. r \<notin> set rs)"
  note D = prio.heap_drain_sorted [OF prio(3)]
  have h: "prio.heap_from 0 (heapify request_lt (?f h))" by (rule prio.heapify_heap)
  note D' = prio.heap_drain_sorted [OF h]
  have "heap_drain request_lt (heapify request_lt (?f h)) = ?f (heap_drain request_lt h)"
  proof (rule sorted_key_unique [where f = request_key])
    have "mset (?f (heap_drain request_lt h)) = mset (?f h)" using D by (metis mset_filter)
    then show m: "mset (heap_drain request_lt (heapify request_lt (?f h))) = mset (?f (heap_drain request_lt h))"
      using D' by (simp add: heapify_mset)
    show "sorted (map request_key (?f (heap_drain request_lt h)))" using D by (simp add: sorted_filter)
    have "set (heap_drain request_lt (heapify request_lt (?f h))) \<subseteq> set (heap_drain request_lt h)"
      using m by (metis filter_is_subset set_mset_mset)
    then show "inj_on request_key (set (heap_drain request_lt (heapify request_lt (?f h))))"
      using assms(2) prio(2) by (auto intro: inj_on_subset)
  qed (use D' in simp)
  then show ?thesis using prio(2) by simp
qed

text \<open>Witnesses: three requests of different priorities and arrival times.\<close>

definition demo_queued :: "nat \<Rightarrow> int \<Rightarrow> rat \<Rightarrow> request" where
  "demo_queued i pr t = initial_request i ''r'' (Some [1]) None None t None None [] None None pr None 1 WAITING 1"

definition demo_queue :: "scheduling_policy \<Rightarrow> request_queue" where
  "demo_queue pol = fold (\<lambda>r q. add_request q r) [demo_queued 1 5 0, demo_queued 2 0 7, demo_queued 3 0 3]
     (create_request_queue pol)"

lemma adds_built: "built pol q \<Longrightarrow> built pol (fold (\<lambda>r q. add_request q r) rs q)"
  by (induction rs arbitrary: q) (simp_all add: rtranclp.rtrancl_into_rtrancl step_add)

lemma demo_built: "built pol (demo_queue pol)"
  unfolding demo_queue_def by (rule adds_built) simp

lemma demo_key [simp]: "request_key (demo_queued i pr t) = (pr, t, ''r'', i)"
  by (simp add: demo_queued_def initial_request_def request_key_def)

lemma demo_prio: "demo_queue PRIORITY = PriorityRequestQueue [demo_queued 3 0 3, demo_queued 1 5 0, demo_queued 2 0 7]"
  by (simp add: demo_queue_def heappush_def siftdown_def siftdown_loop.simps request_lt_key)

theorem priority_pop_least_witness: "\<exists>q'. pop_request (demo_queue PRIORITY) = Inr (demo_queued 3 0 3, q') \<and> built PRIORITY q'"
proof -
  have "rq_bool (demo_queue PRIORITY)" "peek_request (demo_queue PRIORITY) = Inr (demo_queued 3 0 3)"
    by (simp_all add: demo_prio rq_bool_len)
  with priority_pop_least [OF demo_built] show ?thesis by force
qed

theorem priority_iter_sorted_witness: "sorted_wrt (\<lambda>a b. \<not> request_lt b a) (rq_iter (demo_queue PRIORITY)) \<and> rq_len (demo_queue PRIORITY) = 3"
  using priority_iter_sorted [OF demo_built] by (simp add: demo_prio)

theorem fcfs_queue_order_witness: "pop_request (prepend_request (demo_queue FCFS) (demo_queued 4 0 0)) = Inr (demo_queued 4 0 0, demo_queue FCFS)"
  using fcfs_queue_order [OF demo_built] by blast

theorem queue_error_paths_witness: "pop_request (create_request_queue PRIORITY) = Inl IndexError \<and> pop_request (demo_queue FCFS) \<noteq> Inl IndexError"
  using queue_error_paths [of PRIORITY "create_request_queue PRIORITY"] queue_error_paths [OF demo_built [of FCFS]]
  by (simp add: rq_bool_len demo_queue_def)

theorem remove_requests_order_witness:
  "rq_iter (remove_requests (demo_queue PRIORITY) [demo_queued 3 0 3]) =
     filter (\<lambda>r. r \<notin> set [demo_queued 3 0 3]) (rq_iter (demo_queue PRIORITY))"
proof (rule remove_requests_order [OF demo_built])
  have "set (rq_iter (demo_queue PRIORITY)) = {demo_queued 3 0 3, demo_queued 1 5 0, demo_queued 2 0 7}"
    using rq_iter_list(1) [of "demo_queue PRIORITY"] built_ok [OF demo_built [of PRIORITY]] by (simp add: demo_prio)
  then show "inj_on request_key (set (rq_iter (demo_queue PRIORITY)))" by (simp add: inj_on_def)
qed

end
