(* ===== verification/EncoderCache.thy ===== *)
theory EncoderCache
  imports RequestModel "HOL-Library.AList"
begin

text \<open>
  The cache of multimodal encoder outputs (\<^verbatim>\<open>src/vllm/v1/core/encoder_cache_manager.py\<close>): the
  bookkeeping of \<^verbatim>\<open>EncoderCacheManager\<close> with its reference sets, its queue of evictable
  entries and its slot counters, the variant for encoder-decoder models, and the computation of
  the encoder budgets. The accounting invariant says that the counters agree with the entries and
  that an entry is evictable exactly when no request holds it.

  A Python set is iterated in an order the language leaves open: it is the argument \<open>order\<close>.
\<close>

section \<open>The manager\<close>

record encoder_cache =
  ec_cache_size :: int
  num_free_slots :: int
  num_freeable_slots :: int
  ec_cached :: "string \<Rightarrow> string set option"
  num_embeds_by_hash :: "string \<Rightarrow> nat option"
  request_cached_ids :: "string \<Rightarrow> nat set option"
  freeable :: "(string \<times> nat) list"
  freed :: "string list"

type_synonym set_order = "nat set \<Rightarrow> nat list"

definition EncoderCacheManager :: "int \<Rightarrow> encoder_cache" where
  "EncoderCacheManager cap =
     \<lparr>ec_cache_size = cap, num_free_slots = cap, num_freeable_slots = cap, ec_cached = Map.empty,
      num_embeds_by_hash = Map.empty, request_cached_ids = Map.empty, freeable = [], freed = []\<rparr>"

definition ec_reset :: "encoder_cache \<Rightarrow> encoder_cache" where
  "ec_reset ec =
     ec\<lparr>ec_cached := Map.empty, num_embeds_by_hash := Map.empty, request_cached_ids := Map.empty,
        freeable := [], freed := [], num_free_slots := ec_cache_size ec,
        num_freeable_slots := ec_cache_size ec\<rparr>"

text \<open>\<^verbatim>\<open>request.mm_features[input_id].identifier\<close>\<close>

definition feature_hash :: "request \<Rightarrow> nat \<Rightarrow> string res" where
  "feature_hash r i =
     (if i < length (mm_features r) then Inr (mm_identifier (mm_features r ! i)) else Inl IndexError)"

text \<open>\<^verbatim>\<open>request_cached_ids.setdefault(request_id, set()).add(input_id)\<close>\<close>

definition note_cached_id :: "string \<Rightarrow> nat \<Rightarrow> encoder_cache \<Rightarrow> encoder_cache" where
  "note_cached_id rid i ec =
     ec\<lparr>request_cached_ids := (request_cached_ids ec)(rid \<mapsto>
          insert i (case request_cached_ids ec rid of None \<Rightarrow> {} | Some S \<Rightarrow> S))\<rparr>"

definition check_and_update_cache :: "request \<Rightarrow> nat \<Rightarrow> encoder_cache \<Rightarrow> (bool \<times> encoder_cache) res" where
  "check_and_update_cache r i ec =
     bind_res (feature_hash r i) (\<lambda>h.
       case ec_cached ec h of
         None \<Rightarrow> Inr (False, ec)
       | Some refs \<Rightarrow>
           bind_res
             (if refs = {}
              then (case map_of (freeable ec) h of
                      None \<Rightarrow> Inl KeyError
                    | Some n \<Rightarrow> Inr (ec\<lparr>freeable := AList.delete h (freeable ec),
                                       num_freeable_slots := num_freeable_slots ec - int n\<rparr>))
              else Inr ec)
             (\<lambda>ec1. Inr (True, note_cached_id (request_id r) i
                (ec1\<lparr>ec_cached := (ec_cached ec1)(h \<mapsto> insert (request_id r) refs)\<rparr>))))"

definition get_cached_num_encoder_embeds :: "request \<Rightarrow> nat \<Rightarrow> encoder_cache \<Rightarrow> nat option res" where
  "get_cached_num_encoder_embeds r i ec = bind_res (feature_hash r i) (\<lambda>h. Inr (num_embeds_by_hash ec h))"

text \<open>The eviction loop of \<^verbatim>\<open>can_allocate\<close>: oldest evictable entry first.\<close>

function ec_evict_loop :: "int \<Rightarrow> encoder_cache \<Rightarrow> encoder_cache res" where
  "ec_evict_loop need ec =
     (if need \<le> num_free_slots ec then Inr ec
      else case freeable ec of
        [] \<Rightarrow> Inl KeyError
      | (h, n) # rest \<Rightarrow>
          if ec_cached ec h = None \<or> num_embeds_by_hash ec h = None then Inl KeyError
          else ec_evict_loop need
            (ec\<lparr>freeable := rest, ec_cached := (ec_cached ec)(h := None),
                num_embeds_by_hash := (num_embeds_by_hash ec)(h := None), freed := freed ec @ [h],
                num_free_slots := num_free_slots ec + int n\<rparr>))"
  by pat_completeness auto
termination by (relation "measure (\<lambda>(need, ec). length (freeable ec))") auto

declare ec_evict_loop.simps [simp del]

definition can_allocate :: "request \<Rightarrow> nat \<Rightarrow> int \<Rightarrow> int \<Rightarrow> encoder_cache \<Rightarrow> (bool \<times> encoder_cache) res" where
  "can_allocate r i encoder_compute_budget num_embeds_to_schedule ec =
     bind_res (get_num_encoder_embeds r i) (\<lambda>num_embeds.
       if int num_embeds > encoder_compute_budget then Inr (False, ec)
       else let need = int num_embeds + num_embeds_to_schedule
            in if need \<le> num_free_slots ec then Inr (True, ec)
               else if need > num_freeable_slots ec then Inr (False, ec)
               else bind_res (ec_evict_loop need ec) (\<lambda>ec'. Inr (True, ec')))"

definition ec_allocate :: "request \<Rightarrow> nat \<Rightarrow> encoder_cache \<Rightarrow> encoder_cache res" where
  "ec_allocate r i ec =
     bind_res (feature_hash r i) (\<lambda>h.
       let refs = (case ec_cached ec h of None \<Rightarrow> {} | Some S \<Rightarrow> S)
       in bind_res (get_num_encoder_embeds r i) (\<lambda>n.
            let known = (case num_embeds_by_hash ec h of None \<Rightarrow> n | Some m \<Rightarrow> m)
            in py_assert (known = n)
                 (py_assert (num_free_slots ec \<ge> int n)
                   (py_assert (num_freeable_slots ec \<ge> int n)
                     (Inr (note_cached_id (request_id r) i
                       (ec\<lparr>ec_cached := (ec_cached ec)(h \<mapsto> insert (request_id r) refs),
                           num_embeds_by_hash := (num_embeds_by_hash ec)(h \<mapsto> known),
                           num_free_slots := num_free_slots ec - int n,
                           num_freeable_slots := num_freeable_slots ec - int n\<rparr>)))))))"

definition get_cached_input_ids :: "request \<Rightarrow> encoder_cache \<Rightarrow> nat set" where
  "get_cached_input_ids r ec = (case request_cached_ids ec (request_id r) of None \<Rightarrow> {} | Some S \<Rightarrow> S)"

definition forget_cached_id :: "string \<Rightarrow> nat \<Rightarrow> encoder_cache \<Rightarrow> encoder_cache" where
  "forget_cached_id rid i ec =
     (case request_cached_ids ec rid of
        None \<Rightarrow> ec
      | Some S \<Rightarrow> ec\<lparr>request_cached_ids := (request_cached_ids ec)
                       (rid := if S - {i} = {} then None else Some (S - {i}))\<rparr>)"

text \<open>\<^verbatim>\<open>any(request.mm_features[other_id].identifier == mm_hash for other_id in ...)\<close>\<close>

fun any_feature :: "request \<Rightarrow> string \<Rightarrow> nat list \<Rightarrow> bool res" where
  "any_feature r h [] = Inr False"
| "any_feature r h (i # is) =
     bind_res (feature_hash r i) (\<lambda>h'. if h' = h then Inr True else any_feature r h is)"

definition ec_free_encoder_input :: "set_order \<Rightarrow> request \<Rightarrow> nat \<Rightarrow> encoder_cache \<Rightarrow> encoder_cache res" where
  "ec_free_encoder_input order r i ec =
     bind_res (feature_hash r i) (\<lambda>h.
       let ec1 = forget_cached_id (request_id r) i ec
       in case ec_cached ec1 h of
            None \<Rightarrow> Inr ec1
          | Some refs \<Rightarrow>
              if refs = {} then Inr ec1
              else bind_res (any_feature r h (order (get_cached_input_ids r ec1))) (\<lambda>held.
                if held then Inr ec1
                else let refs' = refs - {request_id r};
                         ec2 = ec1\<lparr>ec_cached := (ec_cached ec1)(h \<mapsto> refs')\<rparr>
                     in if refs' \<noteq> {} then Inr ec2
                        else case num_embeds_by_hash ec2 h of
                               None \<Rightarrow> Inl KeyError
                             | Some n \<Rightarrow> Inr (ec2\<lparr>freeable := AList.update h n (freeable ec2),
                                                num_freeable_slots := num_freeable_slots ec2 + int n\<rparr>)))"

definition ec_free :: "set_order \<Rightarrow> request \<Rightarrow> encoder_cache \<Rightarrow> encoder_cache res" where
  "ec_free order r ec =
     for_res (\<lambda>i. ec_free_encoder_input order r i) (order (get_cached_input_ids r ec)) ec"

definition get_freed_mm_hashes :: "encoder_cache \<Rightarrow> string list \<times> encoder_cache" where
  "get_freed_mm_hashes ec = (filter (\<lambda>h. ec_cached ec h = None) (freed ec), ec\<lparr>freed := []\<rparr>)"

section \<open>Encoder-decoder models\<close>

record encdec_cache =
  ed_cache_size :: int
  ed_num_free_slots :: int
  ed_allocated :: "string list"
  ed_to_free :: "string list"

definition EncoderDecoderCacheManager :: "int \<Rightarrow> encdec_cache" where
  "EncoderDecoderCacheManager cap =
     \<lparr>ed_cache_size = cap, ed_num_free_slots = cap, ed_allocated = [], ed_to_free = []\<rparr>"

definition ed_reset :: "encdec_cache \<Rightarrow> encdec_cache" where
  "ed_reset ed = ed\<lparr>ed_num_free_slots := ed_cache_size ed, ed_allocated := [], ed_to_free := []\<rparr>"

definition ed_check_and_update_cache :: "request \<Rightarrow> nat \<Rightarrow> encdec_cache \<Rightarrow> bool \<times> encdec_cache" where
  "ed_check_and_update_cache r i ed = (False, ed)"

definition ed_can_allocate :: "request \<Rightarrow> nat \<Rightarrow> int \<Rightarrow> int \<Rightarrow> encdec_cache \<Rightarrow> bool res" where
  "ed_can_allocate r i encoder_compute_budget num_embeds_to_schedule ed =
     bind_res (get_num_encoder_embeds r i) (\<lambda>n.
       if int n > encoder_compute_budget then Inr False
       else Inr (int n + num_embeds_to_schedule \<le> ed_num_free_slots ed))"

definition ed_allocate :: "request \<Rightarrow> nat \<Rightarrow> encdec_cache \<Rightarrow> encdec_cache res" where
  "ed_allocate r i ed =
     bind_res (get_num_encoder_embeds r i) (\<lambda>n.
       bind_res (feature_hash r i) (\<lambda>h.
         Inr (ed\<lparr>ed_num_free_slots := ed_num_free_slots ed - int n, ed_allocated := ed_allocated ed @ [h]\<rparr>)))"

definition ed_free_encoder_input :: "request \<Rightarrow> nat \<Rightarrow> encdec_cache \<Rightarrow> encdec_cache res" where
  "ed_free_encoder_input r i ed =
     bind_res (get_num_encoder_embeds r i) (\<lambda>n.
       Inr (ed\<lparr>ed_num_free_slots := ed_num_free_slots ed + int n\<rparr>))"

definition ed_free :: "request \<Rightarrow> encdec_cache \<Rightarrow> encdec_cache res" where
  "ed_free r ed = for_res (\<lambda>i. ed_free_encoder_input r i) [0..<length (mm_features r)] ed"

definition ed_get_cached_input_ids :: "request \<Rightarrow> encdec_cache \<Rightarrow> nat set" where
  "ed_get_cached_input_ids r ed = set [0..<length (mm_features r)]"

definition ed_get_freed_mm_hashes :: "encdec_cache \<Rightarrow> string list \<times> encdec_cache" where
  "ed_get_freed_mm_hashes ed = (ed_to_free ed, ed\<lparr>ed_to_free := ed_allocated ed, ed_allocated := []\<rparr>)"

section \<open>Budgets\<close>

text \<open>\<open>mm_max_toks_per_item\<close> is the dictionary from modality to its largest item.\<close>

definition compute_mm_encoder_budget :: "bool \<Rightarrow> nat \<Rightarrow> nat \<Rightarrow> nat \<Rightarrow> (string \<times> nat) list \<Rightarrow> (nat \<times> nat) res" where
  "compute_mm_encoder_budget disable_chunked_mm_input max_num_batched_tokens
       max_num_encoder_input_tokens encoder_cache_size mm_max_toks_per_item =
     (if mm_max_toks_per_item = [] then Inr (0, 0)
      else let max_tokens_per_mm_item = Max (set (map snd mm_max_toks_per_item))
           in if disable_chunked_mm_input \<and> max_tokens_per_mm_item > max_num_batched_tokens
              then Inl ValueError
              else Inr (max max_num_encoder_input_tokens max_tokens_per_mm_item,
                        max encoder_cache_size max_tokens_per_mm_item))"

section \<open>The accounting invariant\<close>

definition refs_of :: "encoder_cache \<Rightarrow> string \<Rightarrow> string set" where
  "refs_of ec h = (case ec_cached ec h of None \<Rightarrow> {} | Some S \<Rightarrow> S)"

definition ids_of :: "encoder_cache \<Rightarrow> string \<Rightarrow> nat set" where
  "ids_of ec rid = (case request_cached_ids ec rid of None \<Rightarrow> {} | Some S \<Rightarrow> S)"

definition embeds_of :: "encoder_cache \<Rightarrow> string \<Rightarrow> nat" where
  "embeds_of ec h = (case num_embeds_by_hash ec h of None \<Rightarrow> 0 | Some n \<Rightarrow> n)"

definition used_slots :: "encoder_cache \<Rightarrow> nat" where
  "used_slots ec = (\<Sum>h \<in> dom (ec_cached ec). embeds_of ec h)"

abbreviation total :: "(string \<times> nat) list \<Rightarrow> nat" where
  "total xs \<equiv> sum_list (map snd xs)"

definition slots_ok :: "encoder_cache \<Rightarrow> bool" where
  "slots_ok ec \<longleftrightarrow>
     finite (dom (ec_cached ec)) \<and> dom (num_embeds_by_hash ec) = dom (ec_cached ec) \<and>
     distinct (map fst (freeable ec)) \<and>
     (\<forall>h n. (h, n) \<in> set (freeable ec) \<longleftrightarrow> ec_cached ec h = Some {} \<and> num_embeds_by_hash ec h = Some n) \<and>
     num_free_slots ec + int (used_slots ec) = ec_cache_size ec \<and>
     num_freeable_slots ec = num_free_slots ec + int (total (freeable ec)) \<and> 0 \<le> num_free_slots ec"

text \<open>\<open>F\<close> gives the features of every request id: a request holds an entry exactly when one of its
  cached inputs has that hash.\<close>

definition holds_ok :: "(string \<Rightarrow> mm_feature list) \<Rightarrow> encoder_cache \<Rightarrow> bool" where
  "holds_ok F ec \<longleftrightarrow>
     (\<forall>rid S. request_cached_ids ec rid = Some S \<longrightarrow> finite S \<and> S \<noteq> {}) \<and>
     (\<forall>rid i. i \<in> ids_of ec rid \<longrightarrow> i < length (F rid)) \<and>
     (\<forall>rid h. rid \<in> refs_of ec h \<longleftrightarrow> (\<exists>i \<in> ids_of ec rid. mm_identifier (F rid ! i) = h))"

definition ec_inv :: "(string \<Rightarrow> mm_feature list) \<Rightarrow> encoder_cache \<Rightarrow> bool" where
  "ec_inv F ec \<longleftrightarrow> slots_ok ec \<and> holds_ok F ec"

lemma slots_okD:
  assumes "slots_ok ec"
  shows "finite (dom (ec_cached ec))" and "dom (num_embeds_by_hash ec) = dom (ec_cached ec)"
    and "distinct (map fst (freeable ec))"
    and "(h, n) \<in> set (freeable ec) \<longleftrightarrow> ec_cached ec h = Some {} \<and> num_embeds_by_hash ec h = Some n"
    and "num_free_slots ec + int (used_slots ec) = ec_cache_size ec"
    and "num_freeable_slots ec = num_free_slots ec + int (total (freeable ec))"
    and "0 \<le> num_free_slots ec"
  using assms unfolding slots_ok_def by blast+

lemma cached_embeds:
  assumes "slots_ok ec" and "ec_cached ec h = Some S"
  obtains n where "num_embeds_by_hash ec h = Some n" and "embeds_of ec h = n"
proof -
  have "h \<in> dom (num_embeds_by_hash ec)" using slots_okD(2) [OF assms(1)] assms(2) by auto
  then obtain n where "num_embeds_by_hash ec h = Some n" by auto
  then show thesis using that by (simp add: embeds_of_def)
qed

lemma freeable_lookup:
  assumes "slots_ok ec"
  shows "map_of (freeable ec) h = Some n \<longleftrightarrow> ec_cached ec h = Some {} \<and> num_embeds_by_hash ec h = Some n"
  using slots_okD(3,4) [OF assms] by (simp add: map_of_eq_Some_iff)

lemma update_new: "k \<notin> fst ` set al \<Longrightarrow> AList.update k v al = al @ [(k, v)]"
  by (induction al) auto

lemma total_delete:
  assumes "distinct (map fst al)" and "(k, v) \<in> set al"
  shows "total al = v + total (AList.delete k al)"
  using assms
proof (induction al)
  case (Cons p al)
  show ?case
  proof (cases "fst p = k")
    case True
    with Cons.prems have p: "p = (k, v)" by (auto simp: image_iff)
    with Cons.prems have "k \<notin> fst ` set al" by auto
    then have "AList.delete k al = al" by (simp add: AList.delete_eq filter_id_conv) force
    then show ?thesis using p by simp
  next
    case False
    then show ?thesis using Cons by (cases p) auto
  qed
qed simp

lemma used_remove:
  assumes "finite (dom (ec_cached ec))" and "ec_cached ec h \<noteq> None"
    and "ec_cached ec' = (ec_cached ec)(h := None)"
    and "num_embeds_by_hash ec' = (num_embeds_by_hash ec)(h := None)"
  shows "used_slots ec = embeds_of ec h + used_slots ec'"
proof -
  have h: "h \<in> dom (ec_cached ec)" using assms(2) by auto
  have d: "dom (ec_cached ec') = dom (ec_cached ec) - {h}" by (simp add: assms(3))
  have "(\<Sum>g \<in> dom (ec_cached ec) - {h}. embeds_of ec g) = (\<Sum>g \<in> dom (ec_cached ec) - {h}. embeds_of ec' g)"
    by (rule sum.cong) (auto simp: embeds_of_def assms(4))
  then show ?thesis unfolding used_slots_def d using sum.remove [OF assms(1) h, of "embeds_of ec"] by simp
qed

section \<open>Eviction\<close>

definition evicted :: "nat \<Rightarrow> encoder_cache \<Rightarrow> encoder_cache \<Rightarrow> bool" where
  "evicted k ec ec' \<longleftrightarrow>
     freeable ec' = drop k (freeable ec) \<and>
     freed ec' = freed ec @ map fst (take k (freeable ec)) \<and>
     ec_cached ec' = (\<lambda>h. if h \<in> fst ` set (take k (freeable ec)) then None else ec_cached ec h) \<and>
     num_free_slots ec' = num_free_slots ec + int (total (take k (freeable ec))) \<and>
     num_freeable_slots ec' = num_freeable_slots ec \<and>
     request_cached_ids ec' = request_cached_ids ec \<and> ec_cache_size ec' = ec_cache_size ec"

definition evict_oldest :: "encoder_cache \<Rightarrow> encoder_cache" where
  "evict_oldest ec =
     (case freeable ec of [] \<Rightarrow> ec
      | (h, n) # rest \<Rightarrow>
          ec\<lparr>freeable := rest, ec_cached := (ec_cached ec)(h := None),
             num_embeds_by_hash := (num_embeds_by_hash ec)(h := None), freed := freed ec @ [h],
             num_free_slots := num_free_slots ec + int n\<rparr>)"

lemma evict_oldest_ok:
  assumes "ec_inv F ec" and fr: "freeable ec = (h, n) # rest"
  shows "ec_inv F (evict_oldest ec)" and "ec_cached ec h = Some {}" and "num_embeds_by_hash ec h = Some n"
proof -
  have S: "slots_ok ec" and H: "holds_ok F ec" using assms(1) by (simp_all add: ec_inv_def)
  note D = slots_okD [OF S]
  let ?ec = "evict_oldest ec"
  have ec': "freeable ?ec = rest" "ec_cached ?ec = (ec_cached ec)(h := None)"
    "num_embeds_by_hash ?ec = (num_embeds_by_hash ec)(h := None)" "num_free_slots ?ec = num_free_slots ec + int n"
    "num_freeable_slots ?ec = num_freeable_slots ec" "ec_cache_size ?ec = ec_cache_size ec"
    "request_cached_ids ?ec = request_cached_ids ec"
    by (simp_all add: evict_oldest_def fr)
  show c: "ec_cached ec h = Some {}" "num_embeds_by_hash ec h = Some n"
    using D(4) [of h n] by (simp_all add: fr)
  have u: "used_slots ec = n + used_slots ?ec"
    using used_remove [OF D(1) _ ec'(2,3)] c by (simp add: embeds_of_def)
  have nh: "h \<notin> fst ` set rest" and dr: "distinct (map fst rest)" using D(3) by (simp_all add: fr)
  have "(g, m) \<in> set rest \<longleftrightarrow> ec_cached ?ec g = Some {} \<and> num_embeds_by_hash ?ec g = Some m" for g m
  proof (cases "g = h")
    case True
    then show ?thesis using nh ec'(2) by force
  next
    case False
    then show ?thesis using D(4) [of g m] by (simp add: fr ec')
  qed
  moreover have "dom (num_embeds_by_hash ?ec) = dom (ec_cached ?ec)" using D(2) by (simp add: ec')
  moreover have "finite (dom (ec_cached ?ec))" using D(1) by (simp add: ec')
  ultimately have "slots_ok ?ec"
    unfolding slots_ok_def using dr u D(5,6,7) by (simp add: ec' fr)
  moreover have "refs_of ?ec = refs_of ec" using c(1) by (simp add: fun_eq_iff refs_of_def ec')
  then have "holds_ok F ?ec" using H by (simp add: holds_ok_def ids_of_def ec')
  ultimately show "ec_inv F ?ec" by (simp add: ec_inv_def)
qed

lemma ec_evict_loop_spec:
  assumes "ec_inv F ec" and "need \<le> num_freeable_slots ec"
  shows "\<exists>k ec'. ec_evict_loop need ec = Inr ec' \<and> ec_inv F ec' \<and> need \<le> num_free_slots ec' \<and>
    k \<le> length (freeable ec) \<and> evicted k ec ec' \<and>
    (\<forall>j < k. num_free_slots ec + int (total (take j (freeable ec))) < need)"
  using assms
proof (induction "length (freeable ec)" arbitrary: ec)
  case 0
  then have "num_freeable_slots ec = num_free_slots ec" using slots_okD(6) by (force simp: ec_inv_def)
  then have "ec_evict_loop need ec = Inr ec" using 0 by (simp add: ec_evict_loop.simps)
  then show ?case using 0 \<open>num_freeable_slots ec = num_free_slots ec\<close>
    by (intro exI [of _ 0] exI [of _ ec]) (simp add: evicted_def)
next
  case (Suc m)
  from Suc.hyps(2) obtain h n rest where fr: "freeable ec = (h, n) # rest"
    by (cases "freeable ec") auto
  show ?case
  proof (cases "need \<le> num_free_slots ec")
    case True
    then have "ec_evict_loop need ec = Inr ec" by (simp add: ec_evict_loop.simps)
    then show ?thesis using Suc.prems True by (intro exI [of _ 0] exI [of _ ec]) (simp add: evicted_def)
  next
    case False
    let ?ec = "evict_oldest ec"
    note E = evict_oldest_ok [OF Suc.prems(1) fr]
    have step: "ec_evict_loop need ec = ec_evict_loop need ?ec"
      using False E(2,3) by (subst ec_evict_loop.simps) (simp add: fr evict_oldest_def)
    have f: "freeable ?ec = rest" "num_freeable_slots ?ec = num_freeable_slots ec"
      "num_free_slots ?ec = num_free_slots ec + int n" "freed ?ec = freed ec @ [h]"
      "ec_cached ?ec = (ec_cached ec)(h := None)" "ec_cache_size ?ec = ec_cache_size ec"
      "request_cached_ids ?ec = request_cached_ids ec"
      by (simp_all add: evict_oldest_def fr)
    have "m = length (freeable ?ec)" using Suc.hyps(2) by (simp add: f fr)
    from Suc.hyps(1) [OF this E(1)] Suc.prems(2) obtain k ec' where
      k: "ec_evict_loop need ?ec = Inr ec'" "ec_inv F ec'" "need \<le> num_free_slots ec'"
      "k \<le> length (freeable ?ec)" "evicted k ?ec ec'"
      "\<forall>j < k. num_free_slots ?ec + int (total (take j (freeable ?ec))) < need"
      by (auto simp: f)
    have "evicted (Suc k) ec ec'"
      using k(5) unfolding evicted_def f fr by (auto simp: fun_eq_iff)
    moreover have "num_free_slots ec + int (total (take j (freeable ec))) < need" if "j < Suc k" for j
    proof (cases j)
      case 0
      then show ?thesis using False by simp
    next
      case (Suc i)
      then show ?thesis using k(6) that by (auto simp: f fr)
    qed
    ultimately show ?thesis using k(1-4) step
      by (intro exI [of _ "Suc k"] exI [of _ ec']) (simp add: f fr)
  qed
qed

section \<open>Each operation keeps the invariant\<close>

definition of_request :: "(string \<Rightarrow> mm_feature list) \<Rightarrow> request \<Rightarrow> bool" where
  "of_request F r \<longleftrightarrow> mm_features r = F (request_id r)"

lemma feature_hash_Inr [simp]:
  "i < length (mm_features r) \<Longrightarrow> feature_hash r i = Inr (mm_identifier (mm_features r ! i))"
  by (simp add: feature_hash_def)

lemma num_encoder_embeds_Inr [simp]:
  "i < length (mm_features r) \<Longrightarrow> get_num_encoder_embeds r i = Inr (get_num_embeds (mm_position (mm_features r ! i)))"
  by (simp add: get_num_encoder_embeds_def)

lemma note_cached_id_sel [simp]:
  "ec_cached (note_cached_id rid i ec) = ec_cached ec"
  "num_embeds_by_hash (note_cached_id rid i ec) = num_embeds_by_hash ec"
  "num_free_slots (note_cached_id rid i ec) = num_free_slots ec"
  "num_freeable_slots (note_cached_id rid i ec) = num_freeable_slots ec"
  "freeable (note_cached_id rid i ec) = freeable ec"
  "freed (note_cached_id rid i ec) = freed ec"
  "ec_cache_size (note_cached_id rid i ec) = ec_cache_size ec"
  "ids_of (note_cached_id rid i ec) rid' = (if rid' = rid then insert i (ids_of ec rid) else ids_of ec rid')"
  by (simp_all add: note_cached_id_def ids_of_def)

lemma slots_ok_cong:
  assumes "slots_ok ec" and "ec_cached ec' = ec_cached ec" and "num_embeds_by_hash ec' = num_embeds_by_hash ec"
    and "num_free_slots ec' = num_free_slots ec" and "num_freeable_slots ec' = num_freeable_slots ec"
    and "freeable ec' = freeable ec" and "ec_cache_size ec' = ec_cache_size ec"
  shows "slots_ok ec'"
proof -
  have "used_slots ec' = used_slots ec" by (simp add: used_slots_def embeds_of_def assms)
  then show ?thesis using assms(1) unfolding slots_ok_def by (simp add: assms)
qed

text \<open>Taking a new reference: the reference set and the cached ids grow together.\<close>

lemma holds_add:
  assumes "holds_ok F ec" and "i < length (F rid)" and "mm_identifier (F rid ! i) = h"
    and "ec_cached ec' = (ec_cached ec)(h \<mapsto> insert rid (refs_of ec h))"
    and "request_cached_ids ec' = request_cached_ids (note_cached_id rid i ec)"
  shows "holds_ok F ec'"
proof -
  have ids: "ids_of ec' x = (if x = rid then insert i (ids_of ec rid) else ids_of ec x)" for x
    using assms(5) by (simp add: ids_of_def note_cached_id_def)
  have refs: "refs_of ec' g = (if g = h then insert rid (refs_of ec h) else refs_of ec g)" for g
    by (simp add: refs_of_def assms(4))
  have "finite S \<and> S \<noteq> {}" if "request_cached_ids ec' x = Some S" for x S
    using that assms(1,5) by (auto simp: holds_ok_def note_cached_id_def split: if_splits option.splits)
  moreover have "j < length (F x)" if "j \<in> ids_of ec' x" for x j
    using that assms(1,2) by (auto simp: ids holds_ok_def split: if_splits)
  moreover have "x \<in> refs_of ec' g \<longleftrightarrow> (\<exists>j \<in> ids_of ec' x. mm_identifier (F x ! j) = g)" for x g
  proof -
    have "x \<in> refs_of ec g \<longleftrightarrow> (\<exists>j \<in> ids_of ec x. mm_identifier (F x ! j) = g)"
      using assms(1) by (simp add: holds_ok_def)
    then show ?thesis using assms(3) by (auto simp: ids refs)
  qed
  ultimately show ?thesis unfolding holds_ok_def by blast
qed

lemma used_same:
  assumes "dom (ec_cached ec') = dom (ec_cached ec)" and "num_embeds_by_hash ec' = num_embeds_by_hash ec"
  shows "used_slots ec' = used_slots ec"
  using assms by (simp add: used_slots_def embeds_of_def)

lemma slots_take:
  assumes "slots_ok ec" and "ec_cached ec h = Some {}" and "map_of (freeable ec) h = Some n" and "S \<noteq> {}"
  shows "slots_ok (ec\<lparr>freeable := AList.delete h (freeable ec), num_freeable_slots := num_freeable_slots ec - int n,
    ec_cached := (ec_cached ec)(h \<mapsto> S)\<rparr>)" (is "slots_ok ?ec")
proof -
  note D = slots_okD [OF assms(1)]
  have hn: "(h, n) \<in> set (freeable ec)" using assms(3) by (rule map_of_SomeD)
  have "(g, m) \<in> set (AList.delete h (freeable ec)) \<longleftrightarrow>
      ec_cached ?ec g = Some {} \<and> num_embeds_by_hash ?ec g = Some m" for g m
    using D(4) [of g m] assms(4) by (auto simp: AList.delete_eq)
  moreover have "dom (num_embeds_by_hash ec) = insert h (dom (ec_cached ec))"
    using D(2) assms(2) by auto
  moreover have "used_slots ?ec = used_slots ec" by (rule used_same) (use assms(2) in auto)
  moreover have "distinct (map fst (AList.delete h (freeable ec)))" using D(3) by (simp add: AList.distinct_delete)
  ultimately show ?thesis
    unfolding slots_ok_def using D(1,5,6,7) total_delete [OF D(3) hn] by simp
qed

lemma slots_share:
  assumes "slots_ok ec" and "ec_cached ec h = Some R" and "R \<noteq> {}" and "S \<noteq> {}"
  shows "slots_ok (ec\<lparr>ec_cached := (ec_cached ec)(h \<mapsto> S)\<rparr>)" (is "slots_ok ?ec")
proof -
  note D = slots_okD [OF assms(1)]
  have "(g, m) \<in> set (freeable ec) \<longleftrightarrow> ec_cached ?ec g = Some {} \<and> num_embeds_by_hash ?ec g = Some m" for g m
    using D(4) [of g m] assms(2,3,4) by auto
  moreover have "dom (num_embeds_by_hash ec) = insert h (dom (ec_cached ec))" using D(2) assms(2) by auto
  moreover have "used_slots ?ec = used_slots ec" by (rule used_same) (use assms(2) in auto)
  ultimately show ?thesis unfolding slots_ok_def using D(1,3,5,6,7) by simp
qed

lemma check_and_update_cache_spec:
  assumes "ec_inv F ec" and "of_request F r" and i: "i < length (mm_features r)"
  defines "h \<equiv> mm_identifier (mm_features r ! i)"
  shows "ec_cached ec h = None \<Longrightarrow> check_and_update_cache r i ec = Inr (False, ec)"
    and "ec_cached ec h \<noteq> None \<Longrightarrow> \<exists>ec'. check_and_update_cache r i ec = Inr (True, ec') \<and> ec_inv F ec' \<and>
      ec_cached ec' = (ec_cached ec)(h \<mapsto> insert (request_id r) (refs_of ec h)) \<and>
      num_free_slots ec' = num_free_slots ec \<and> num_embeds_by_hash ec' = num_embeds_by_hash ec \<and>
      freed ec' = freed ec \<and> ec_cache_size ec' = ec_cache_size ec"
proof -
  show "ec_cached ec h = None \<Longrightarrow> check_and_update_cache r i ec = Inr (False, ec)"
    using i by (simp add: check_and_update_cache_def h_def)
  assume "ec_cached ec h \<noteq> None"
  then obtain R where R: "ec_cached ec h = Some R" by blast
  have S: "slots_ok ec" and H: "holds_ok F ec" using assms(1) by (simp_all add: ec_inv_def)
  have i': "i < length (F (request_id r))" "mm_identifier (F (request_id r) ! i) = h"
    using i assms(2) by (simp_all add: of_request_def h_def)
  have refs: "refs_of ec h = R" by (simp add: refs_of_def R)
  let ?S = "insert (request_id r) R"
  let ?a = "if R = {} then ec\<lparr>freeable := AList.delete h (freeable ec),
    num_freeable_slots := num_freeable_slots ec - int (embeds_of ec h)\<rparr> else ec"
  let ?b = "?a\<lparr>ec_cached := (ec_cached ec)(h \<mapsto> ?S)\<rparr>"
  let ?c = "note_cached_id (request_id r) i ?b"
  obtain n where n: "num_embeds_by_hash ec h = Some n" "embeds_of ec h = n" using cached_embeds [OF S R] .
  have lk: "map_of (freeable ec) h = Some n" if "R = {}" using freeable_lookup [OF S] R n(1) that by simp
  have run: "check_and_update_cache r i ec = Inr (True, ?c)"
    using i R n lk by (simp add: check_and_update_cache_def h_def [symmetric])
  have sb: "slots_ok ?b"
  proof (cases "R = {}")
    case True
    then show ?thesis using slots_take [OF S _ lk, of ?S] R n(2) by simp
  next
    case False
    then show ?thesis using slots_share [OF S R False, of ?S] by simp
  qed
  then have "slots_ok ?c" by (rule slots_ok_cong) simp_all
  moreover have "holds_ok F ?c"
    by (rule holds_add [OF H i'(1) i'(2)]) (simp_all add: refs note_cached_id_def)
  ultimately have "ec_inv F ?c" by (simp add: ec_inv_def)
  then show "\<exists>ec'. check_and_update_cache r i ec = Inr (True, ec') \<and> ec_inv F ec' \<and>
      ec_cached ec' = (ec_cached ec)(h \<mapsto> insert (request_id r) (refs_of ec h)) \<and>
      num_free_slots ec' = num_free_slots ec \<and> num_embeds_by_hash ec' = num_embeds_by_hash ec \<and>
      freed ec' = freed ec \<and> ec_cache_size ec' = ec_cache_size ec"
    using run by (intro exI [of _ ?c]) (simp add: refs)
qed

lemma used_add:
  assumes "finite (dom (ec_cached ec))" and "ec_cached ec h = None"
    and "ec_cached ec' = (ec_cached ec)(h \<mapsto> S)" and "num_embeds_by_hash ec' = (num_embeds_by_hash ec)(h \<mapsto> n)"
  shows "used_slots ec' = n + used_slots ec"
proof -
  have h: "h \<notin> dom (ec_cached ec)" using assms(2) by auto
  have "(\<Sum>g \<in> dom (ec_cached ec). embeds_of ec' g) = (\<Sum>g \<in> dom (ec_cached ec). embeds_of ec g)"
    by (rule sum.cong) (use h in \<open>auto simp: embeds_of_def assms(4)\<close>)
  moreover have "embeds_of ec' h = n" by (simp add: embeds_of_def assms(4))
  ultimately show ?thesis unfolding used_slots_def using assms(1) h by (simp add: assms(3))
qed

lemma ec_allocate_spec:
  assumes "ec_inv F ec" and "of_request F r" and i: "i < length (mm_features r)"
  defines "h \<equiv> mm_identifier (mm_features r ! i)" and "n \<equiv> get_num_embeds (mm_position (mm_features r ! i))"
  assumes new: "ec_cached ec h = None" and room: "int n \<le> num_free_slots ec"
  shows "\<exists>ec'. ec_allocate r i ec = Inr ec' \<and> ec_inv F ec' \<and> ec_cached ec' = (ec_cached ec)(h \<mapsto> {request_id r}) \<and>
    num_free_slots ec' = num_free_slots ec - int n \<and> num_freeable_slots ec' = num_freeable_slots ec - int n \<and>
    num_embeds_by_hash ec' = (num_embeds_by_hash ec)(h \<mapsto> n) \<and> freed ec' = freed ec \<and>
    freeable ec' = freeable ec \<and> ec_cache_size ec' = ec_cache_size ec"
proof -
  have S: "slots_ok ec" and H: "holds_ok F ec" using assms(1) by (simp_all add: ec_inv_def)
  note D = slots_okD [OF S]
  have i': "i < length (F (request_id r))" "mm_identifier (F (request_id r) ! i) = h"
    using i assms(2) by (simp_all add: of_request_def h_def)
  have "h \<notin> dom (num_embeds_by_hash ec)" using D(2) new by auto
  then have nh: "num_embeds_by_hash ec h = None" by auto
  let ?b = "ec\<lparr>ec_cached := (ec_cached ec)(h \<mapsto> {request_id r}), num_embeds_by_hash := (num_embeds_by_hash ec)(h \<mapsto> n),
    num_free_slots := num_free_slots ec - int n, num_freeable_slots := num_freeable_slots ec - int n\<rparr>"
  let ?c = "note_cached_id (request_id r) i ?b"
  have "num_freeable_slots ec \<ge> int n" using D(6) room by simp
  then have run: "ec_allocate r i ec = Inr ?c"
    using i new nh room by (simp add: ec_allocate_def h_def [symmetric] n_def [symmetric] Let_def)
  have u: "used_slots ?b = n + used_slots ec" by (rule used_add [OF D(1) new]) simp_all
  have "(g, m) \<in> set (freeable ec) \<longleftrightarrow> ec_cached ?b g = Some {} \<and> num_embeds_by_hash ?b g = Some m" for g m
    using D(4) [of g m] new by auto
  moreover have "dom (num_embeds_by_hash ?b) = dom (ec_cached ?b)" using D(2) by simp
  ultimately have "slots_ok ?b" unfolding slots_ok_def using D(1,3,5,6,7) u room by simp
  then have "slots_ok ?c" by (rule slots_ok_cong) simp_all
  moreover have "holds_ok F ?c"
    by (rule holds_add [OF H i'(1) i'(2)]) (simp_all add: refs_of_def new note_cached_id_def)
  ultimately show ?thesis using run by (intro exI [of _ ?c]) (simp add: ec_inv_def)
qed

lemma can_allocate_spec:
  assumes "ec_inv F ec" and i: "i < length (mm_features r)"
  defines "n \<equiv> int (get_num_embeds (mm_position (mm_features r ! i)))"
  shows "\<exists>k ec'. can_allocate r i budget sched ec = Inr (n \<le> budget \<and> n + sched \<le> num_freeable_slots ec, ec') \<and>
    ec_inv F ec' \<and> k \<le> length (freeable ec) \<and> evicted k ec ec' \<and>
    (n \<le> budget \<and> n + sched \<le> num_freeable_slots ec \<longrightarrow> n + sched \<le> num_free_slots ec') \<and>
    (\<forall>j < k. num_free_slots ec + int (total (take j (freeable ec))) < n + sched) \<and>
    (\<not> (n \<le> budget \<and> n + sched \<le> num_freeable_slots ec) \<longrightarrow> ec' = ec)"
proof -
  have S: "slots_ok ec" using assms(1) by (simp add: ec_inv_def)
  have le: "num_free_slots ec \<le> num_freeable_slots ec" using slots_okD(6) [OF S] by simp
  have e0: "evicted 0 ec ec" by (simp add: evicted_def)
  consider (no) "\<not> n \<le> budget" | (free) "n \<le> budget" "n + sched \<le> num_free_slots ec"
    | (full) "n \<le> budget" "\<not> n + sched \<le> num_freeable_slots ec"
    | (evict) "n \<le> budget" "\<not> n + sched \<le> num_free_slots ec" "n + sched \<le> num_freeable_slots ec"
    by blast
  then show ?thesis
  proof cases
    case no
    then have "can_allocate r i budget sched ec = Inr (False, ec)" using i by (simp add: can_allocate_def n_def)
    then show ?thesis using no assms(1) e0 by (intro exI [of _ 0] exI [of _ ec]) simp
  next
    case free
    then have "can_allocate r i budget sched ec = Inr (True, ec)" using i by (simp add: can_allocate_def n_def)
    then show ?thesis using free le assms(1) e0 by (intro exI [of _ 0] exI [of _ ec]) simp
  next
    case full
    then have "can_allocate r i budget sched ec = Inr (False, ec)"
      using i le by (simp add: can_allocate_def n_def Let_def)
    then show ?thesis using full assms(1) e0 by (intro exI [of _ 0] exI [of _ ec]) simp
  next
    case evict
    from ec_evict_loop_spec [OF assms(1) evict(3)] obtain k ec' where
      k: "ec_evict_loop (n + sched) ec = Inr ec'" "ec_inv F ec'" "n + sched \<le> num_free_slots ec'"
      "k \<le> length (freeable ec)" "evicted k ec ec'"
      "\<forall>j < k. num_free_slots ec + int (total (take j (freeable ec))) < n + sched" by blast
    then have "can_allocate r i budget sched ec = Inr (True, ec')"
      using i evict by (simp add: can_allocate_def n_def Let_def)
    then show ?thesis using k evict by (intro exI [of _ k] exI [of _ ec']) simp
  qed
qed

text \<open>Dropping a reference.\<close>

definition iterates :: "set_order \<Rightarrow> bool" where
  "iterates order \<longleftrightarrow> (\<forall>S. finite S \<longrightarrow> set (order S) = S \<and> distinct (order S))"

lemma any_feature_spec:
  "\<forall>i \<in> set is. i < length (mm_features r) \<Longrightarrow>
     any_feature r h is = Inr (\<exists>i \<in> set is. mm_identifier (mm_features r ! i) = h)"
  by (induction "is") auto

lemma finite_ids: "holds_ok F ec \<Longrightarrow> finite (ids_of ec rid)"
  by (auto simp: holds_ok_def ids_of_def split: option.splits)

lemma forget_sel [simp]:
  "ec_cached (forget_cached_id rid i ec) = ec_cached ec"
  "num_embeds_by_hash (forget_cached_id rid i ec) = num_embeds_by_hash ec"
  "num_free_slots (forget_cached_id rid i ec) = num_free_slots ec"
  "num_freeable_slots (forget_cached_id rid i ec) = num_freeable_slots ec"
  "freeable (forget_cached_id rid i ec) = freeable ec"
  "freed (forget_cached_id rid i ec) = freed ec"
  "ec_cache_size (forget_cached_id rid i ec) = ec_cache_size ec"
  "ids_of (forget_cached_id rid i ec) rid' = (if rid' = rid then ids_of ec rid - {i} else ids_of ec rid')"
  by (auto simp: forget_cached_id_def ids_of_def split: option.splits)

lemma forget_nonempty:
  assumes "holds_ok F ec" and "request_cached_ids (forget_cached_id rid i ec) x = Some S"
  shows "finite S \<and> S \<noteq> {}"
  using assms by (auto simp: forget_cached_id_def holds_ok_def split: option.splits if_splits)

lemma holds_drop:
  assumes "holds_ok F ec"
    and ids: "\<And>x. ids_of ec' x = (if x = rid then ids_of ec rid - {i} else ids_of ec x)"
    and ne: "\<And>x S. request_cached_ids ec' x = Some S \<Longrightarrow> finite S \<and> S \<noteq> {}"
    and h: "h = mm_identifier (F rid ! i)"
    and refs: "\<And>g. refs_of ec' g = (if g = h \<and> \<not> (\<exists>j \<in> ids_of ec rid - {i}. mm_identifier (F rid ! j) = h)
      then refs_of ec g - {rid} else refs_of ec g)"
  shows "holds_ok F ec'"
proof -
  have "x \<in> refs_of ec' g \<longleftrightarrow> (\<exists>j \<in> ids_of ec' x. mm_identifier (F x ! j) = g)" for x g
  proof -
    have "x \<in> refs_of ec g \<longleftrightarrow> (\<exists>j \<in> ids_of ec x. mm_identifier (F x ! j) = g)"
      using assms(1) by (simp add: holds_ok_def)
    then show ?thesis using h by (auto simp: ids refs)
  qed
  moreover have "j < length (F x)" if "j \<in> ids_of ec' x" for j x
    using that assms(1) by (auto simp: ids holds_ok_def split: if_splits)
  ultimately show ?thesis unfolding holds_ok_def using ne by blast
qed

lemma get_cached_ids: "get_cached_input_ids r ec = ids_of ec (request_id r)"
  by (simp add: get_cached_input_ids_def ids_of_def)

lemma slots_release:
  assumes "slots_ok ec" and "ec_cached ec h = Some R" and "R \<noteq> {}" and "num_embeds_by_hash ec h = Some n"
  shows "slots_ok (ec\<lparr>ec_cached := (ec_cached ec)(h \<mapsto> {}), freeable := AList.update h n (freeable ec),
    num_freeable_slots := num_freeable_slots ec + int n\<rparr>)" (is "slots_ok ?ec")
proof -
  note D = slots_okD [OF assms(1)]
  have nh: "h \<notin> fst ` set (freeable ec)" using D(4) assms(2,3) by force
  note up = update_new [OF nh]
  have "(g, m) \<in> set (freeable ?ec) \<longleftrightarrow> ec_cached ?ec g = Some {} \<and> num_embeds_by_hash ?ec g = Some m" for g m
    using D(4) [of g m] assms(2-4) by (auto simp: up)
  moreover have "distinct (map fst (freeable ?ec))" using D(3) nh by (simp add: up)
  moreover have "dom (num_embeds_by_hash ec) = insert h (dom (ec_cached ec))" using D(2) assms(2) by auto
  moreover have "used_slots ?ec = used_slots ec" by (rule used_same) (use assms(2) in auto)
  ultimately show ?thesis unfolding slots_ok_def using D(1,5,6,7) by (simp add: up)
qed

lemma ec_free_encoder_input_spec:
  assumes "iterates order" and "ec_inv F ec" and "of_request F r" and i: "i < length (mm_features r)"
  shows "\<exists>ec'. ec_free_encoder_input order r i ec = Inr ec' \<and> ec_inv F ec' \<and>
    (\<forall>x. ids_of ec' x = (if x = request_id r then ids_of ec x - {i} else ids_of ec x)) \<and>
    num_free_slots ec' = num_free_slots ec \<and> dom (ec_cached ec') = dom (ec_cached ec) \<and>
    num_embeds_by_hash ec' = num_embeds_by_hash ec \<and> freed ec' = freed ec \<and> ec_cache_size ec' = ec_cache_size ec"
proof -
  define rid h ec1 where "rid = request_id r" and "h = mm_identifier (mm_features r ! i)"
    and "ec1 = forget_cached_id rid i ec"
  have S: "slots_ok ec" and H: "holds_ok F ec" using assms(2) by (simp_all add: ec_inv_def)
  have hF: "h = mm_identifier (F rid ! i)" and feat: "mm_features r = F rid"
    using assms(3) by (simp_all add: of_request_def h_def rid_def)
  let ?held = "\<exists>j \<in> ids_of ec rid - {i}. mm_identifier (F rid ! j) = h"
  have S1: "slots_ok ec1" unfolding ec1_def by (rule slots_ok_cong [OF S]) simp_all
  have ids1: "ids_of ec1 x = (if x = rid then ids_of ec rid - {i} else ids_of ec x)" for x by (simp add: ec1_def)
  have ne1: "finite T \<and> T \<noteq> {}" if "request_cached_ids ec1 x = Some T" for x T
    using forget_nonempty [OF H] that by (simp add: ec1_def)
  have c1: "ec_cached ec1 = ec_cached ec" by (simp add: ec1_def)
  have fin: "finite (ids_of ec rid - {i})" using finite_ids [OF H] by simp
  have any: "any_feature r h (order (get_cached_input_ids r ec1)) = Inr ?held"
  proof -
    have "set (order (get_cached_input_ids r ec1)) = ids_of ec rid - {i}"
      using assms(1) fin by (simp add: iterates_def get_cached_ids ids1 rid_def)
    moreover have "\<forall>j \<in> ids_of ec rid - {i}. j < length (mm_features r)"
      using H by (simp add: holds_ok_def feat)
    ultimately show ?thesis using any_feature_spec [of "order (get_cached_input_ids r ec1)" r h]
      by (simp add: feat)
  qed
  have run: "ec_free_encoder_input order r i ec = (case ec_cached ec h of None \<Rightarrow> Inr ec1
      | Some R \<Rightarrow> if R = {} \<or> ?held then Inr ec1
        else if R - {rid} \<noteq> {} then Inr (ec1\<lparr>ec_cached := (ec_cached ec1)(h \<mapsto> R - {rid})\<rparr>)
        else case num_embeds_by_hash ec h of None \<Rightarrow> Inl KeyError
          | Some n \<Rightarrow> Inr (ec1\<lparr>ec_cached := (ec_cached ec1)(h \<mapsto> R - {rid}), freeable := AList.update h n (freeable ec1),
              num_freeable_slots := num_freeable_slots ec1 + int n\<rparr>))"
    using i any unfolding ec_free_encoder_input_def
    by (simp add: h_def [symmetric] rid_def [symmetric] ec1_def [symmetric] c1 Let_def split: option.split)
      (simp add: ec1_def)
  show ?thesis
  proof (cases "refs_of ec h = {} \<or> ?held")
    case True
    then have "ec_free_encoder_input order r i ec = Inr ec1"
      unfolding run by (auto simp: refs_of_def split: option.split)
    moreover have "holds_ok F ec1"
      by (rule holds_drop [OF H ids1 ne1 hF]) (use True in \<open>auto simp: refs_of_def c1\<close>)
    ultimately show ?thesis using S1 by (intro exI [of _ ec1]) (auto simp: ec_inv_def ids1 rid_def, simp_all add: ec1_def)
  next
    case False
    then obtain R where R: "ec_cached ec h = Some R" "R \<noteq> {}" by (auto simp: refs_of_def split: option.splits)
    obtain n where n: "num_embeds_by_hash ec h = Some n" using cached_embeds [OF S R(1)] .
    define ec2 where "ec2 = (if R - {rid} \<noteq> {} then ec1\<lparr>ec_cached := (ec_cached ec1)(h \<mapsto> R - {rid})\<rparr>
      else ec1\<lparr>ec_cached := (ec_cached ec1)(h \<mapsto> R - {rid}), freeable := AList.update h n (freeable ec1),
              num_freeable_slots := num_freeable_slots ec1 + int n\<rparr>)"
    have run2: "ec_free_encoder_input order r i ec = Inr ec2"
      unfolding run using R False n by (simp add: ec2_def)
    have R1: "ec_cached ec1 h = Some R" "num_embeds_by_hash ec1 h = Some n" using R n by (simp_all add: ec1_def)
    have "slots_ok ec2"
    proof (cases "R - {rid} = {}")
      case True
      show ?thesis unfolding ec2_def True using slots_release [OF S1 R1(1) R(2) R1(2)] by simp
    next
      case False
      show ?thesis unfolding ec2_def using slots_share [OF S1 R1(1) R(2) False] False by simp
    qed
    moreover have ids2: "ids_of ec2 x = ids_of ec1 x" and rc2: "request_cached_ids ec2 = request_cached_ids ec1" for x
      by (simp_all add: ec2_def ids_of_def)
    have cc: "ec_cached ec2 = (ec_cached ec)(h \<mapsto> R - {rid})" by (simp add: ec2_def c1)
    have "holds_ok F ec2"
      by (rule holds_drop [OF H _ _ hF]) (use False ids1 ne1 R in \<open>auto simp: ids2 rc2 refs_of_def cc\<close>)
    ultimately show ?thesis using run2 R cc
      by (intro exI [of _ ec2]) (auto simp: ec_inv_def ids2 ids1 rid_def, simp_all add: ec2_def ec1_def)
  qed
qed

lemma ec_free_spec:
  assumes "iterates order" and "ec_inv F ec" and "of_request F r"
  shows "\<exists>ec'. ec_free order r ec = Inr ec' \<and> ec_inv F ec' \<and> ids_of ec' (request_id r) = {} \<and>
    (\<forall>x. x \<noteq> request_id r \<longrightarrow> ids_of ec' x = ids_of ec x) \<and>
    num_free_slots ec' = num_free_slots ec \<and> dom (ec_cached ec') = dom (ec_cached ec) \<and> freed ec' = freed ec \<and> ec_cache_size ec' = ec_cache_size ec"
proof -
  let ?q = "\<lambda>is ec0 ec'. ec_inv F ec' \<and> ids_of ec' (request_id r) = ids_of ec0 (request_id r) - set is \<and>
    (\<forall>x. x \<noteq> request_id r \<longrightarrow> ids_of ec' x = ids_of ec0 x) \<and>
    num_free_slots ec' = num_free_slots ec0 \<and> dom (ec_cached ec') = dom (ec_cached ec0) \<and> freed ec' = freed ec0 \<and> ec_cache_size ec' = ec_cache_size ec0"
  have loop: "\<exists>ec'. for_res (\<lambda>i. ec_free_encoder_input order r i) is ec0 = Inr ec' \<and> ?q is ec0 ec'"
    if "ec_inv F ec0" and "\<forall>i \<in> set is. i < length (mm_features r)" for "is" ec0
    using that
  proof (induction "is" arbitrary: ec0)
    case (Cons i "is")
    from ec_free_encoder_input_spec [OF assms(1) Cons.prems(1) assms(3), of i] Cons.prems(2) obtain ec1 where
      1: "ec_free_encoder_input order r i ec0 = Inr ec1" "?q [i] ec0 ec1" by auto
    from Cons.IH [of ec1] 1(2) Cons.prems(2) obtain ec2 where
      2: "for_res (\<lambda>i. ec_free_encoder_input order r i) is ec1 = Inr ec2" "?q is ec1 ec2" by auto
    show ?case using 1 2 by (intro exI [of _ ec2]) auto
  qed simp
  have H: "holds_ok F ec" using assms(2) by (simp add: ec_inv_def)
  have o: "set (order (get_cached_input_ids r ec)) = ids_of ec (request_id r)"
    using assms(1) finite_ids [OF H] by (simp add: iterates_def get_cached_ids)
  have "\<forall>i \<in> set (order (get_cached_input_ids r ec)). i < length (mm_features r)"
    unfolding o using H assms(3) by (simp add: holds_ok_def of_request_def)
  from loop [OF assms(2) this] show ?thesis unfolding ec_free_def o by auto
qed

section \<open>The manager and the worker's cache as a transition system\<close>

text \<open>
  A state pairs the manager with the set of hashes whose outputs the worker stores. An allocation
  makes the worker store the output; the worker drops what \<^verbatim>\<open>get_freed_mm_hashes\<close> reports, and
  everything on a reset. An allocation follows a successful \<^verbatim>\<open>can_allocate\<close> for an input that is
  not cached, which is what the scheduler guarantees.
\<close>

inductive ec_step :: "(string \<Rightarrow> mm_feature list) \<Rightarrow> set_order \<Rightarrow> encoder_cache \<times> string set \<Rightarrow>
    encoder_cache \<times> string set \<Rightarrow> bool" for F order where
  step_reset: "ec_step F order (ec, W) (ec_reset ec, {})"
| step_check: "of_request F r \<Longrightarrow> check_and_update_cache r i ec = Inr (b, ec') \<Longrightarrow>
    ec_step F order (ec, W) (ec', W)"
| step_can: "of_request F r \<Longrightarrow> can_allocate r i budget sched ec = Inr (b, ec') \<Longrightarrow>
    ec_step F order (ec, W) (ec', W)"
| step_alloc: "of_request F r \<Longrightarrow> feature_hash r i = Inr h \<Longrightarrow> ec_cached ec h = None \<Longrightarrow>
    ec_allocate r i ec = Inr ec' \<Longrightarrow> ec_step F order (ec, W) (ec', insert h W)"
| step_free_input: "of_request F r \<Longrightarrow> ec_free_encoder_input order r i ec = Inr ec' \<Longrightarrow>
    ec_step F order (ec, W) (ec', W)"
| step_free: "of_request F r \<Longrightarrow> ec_free order r ec = Inr ec' \<Longrightarrow> ec_step F order (ec, W) (ec', W)"
| step_freed: "get_freed_mm_hashes ec = (hs, ec') \<Longrightarrow> ec_step F order (ec, W) (ec', W - set hs)"

abbreviation ec_reach :: "(string \<Rightarrow> mm_feature list) \<Rightarrow> set_order \<Rightarrow> int \<Rightarrow> encoder_cache \<times> string set \<Rightarrow> bool" where
  "ec_reach F order cap \<equiv> (ec_step F order)\<^sup>*\<^sup>* (EncoderCacheManager cap, {})"

definition worker_ok :: "encoder_cache \<Rightarrow> string set \<Rightarrow> bool" where
  "worker_ok ec W \<longleftrightarrow> dom (ec_cached ec) \<subseteq> W \<and> W \<subseteq> dom (ec_cached ec) \<union> set (freed ec)"

definition ec_state_ok :: "(string \<Rightarrow> mm_feature list) \<Rightarrow> int \<Rightarrow> encoder_cache \<times> string set \<Rightarrow> bool" where
  "ec_state_ok F cap s \<longleftrightarrow> ec_inv F (fst s) \<and> ec_cache_size (fst s) = cap \<and> worker_ok (fst s) (snd s)"

lemma empty_inv:
  assumes "0 \<le> cap" and "ec_cached ec = Map.empty" and "num_embeds_by_hash ec = Map.empty"
    and "request_cached_ids ec = Map.empty" and "freeable ec = []" and "num_free_slots ec = cap"
    and "num_freeable_slots ec = cap" and "ec_cache_size ec = cap"
  shows "ec_inv F ec"
  using assms by (simp add: ec_inv_def slots_ok_def holds_ok_def used_slots_def refs_of_def ids_of_def)

lemma in_range: "feature_hash r i = Inr h \<Longrightarrow> i < length (mm_features r) \<and> h = mm_identifier (mm_features r ! i)"
  by (simp add: feature_hash_def split: if_splits)

lemma ec_check_step:
  assumes "ec_state_ok F cap (ec, W)" and "of_request F r" and "check_and_update_cache r i ec = Inr (b, ec')"
  shows "ec_state_ok F cap (ec', W)"
proof -
  have I: "ec_inv F ec" using assms(1) by (simp add: ec_state_ok_def)
  obtain h where "feature_hash r i = Inr h" using assms(3) by (auto simp: check_and_update_cache_def)
  then have i: "i < length (mm_features r)" by (simp add: in_range)
  note C = check_and_update_cache_spec [OF I assms(2) i]
  show ?thesis
  proof (cases "ec_cached ec (mm_identifier (mm_features r ! i)) = None")
    case True
    then show ?thesis using C(1) assms(1,3) by simp
  next
    case False
    from C(2) [OF this] assms(3) False assms(1) show ?thesis
      by (auto simp: ec_state_ok_def worker_ok_def)
  qed
qed

lemma ec_can_step:
  assumes "ec_state_ok F cap (ec, W)" and "can_allocate r i budget sched ec = Inr (b, ec')"
  shows "ec_state_ok F cap (ec', W)"
proof -
  have I: "ec_inv F ec" using assms(1) by (simp add: ec_state_ok_def)
  have i: "i < length (mm_features r)"
    using assms(2) by (auto simp: can_allocate_def get_num_encoder_embeds_def)
  from can_allocate_spec [OF I i, of budget sched] assms(2) obtain k where
    k: "ec_inv F ec'" "evicted k ec ec'" by auto
  have sub: "fst ` set (take k (freeable ec)) \<subseteq> set (freed ec')"
    and c: "ec_cached ec' = (\<lambda>h. if h \<in> fst ` set (take k (freeable ec)) then None else ec_cached ec h)"
    and f: "set (freed ec) \<subseteq> set (freed ec')"
    using k(2) by (auto simp: evicted_def)
  have d: "dom (ec_cached ec') = dom (ec_cached ec) - fst ` set (take k (freeable ec))"
    unfolding c by (auto simp: dom_def)
  have "ec_cache_size ec' = ec_cache_size ec" using k(2) by (simp add: evicted_def)
  then show ?thesis using k(1) assms(1) sub f d unfolding ec_state_ok_def worker_ok_def by auto
qed

lemma ec_step_ok:
  assumes "iterates order" and "0 \<le> cap" and "ec_step F order s t" and "ec_state_ok F cap s"
  shows "ec_state_ok F cap t"
  using assms(3)
proof cases
  case (step_reset ec W)
  then show ?thesis using assms(2,4) empty_inv [of cap "ec_reset ec" F]
    by (simp add: ec_state_ok_def worker_ok_def ec_reset_def)
next
  case (step_check r i ec b ec' W)
  then show ?thesis using ec_check_step assms(4) by blast
next
  case (step_can r i budget sched ec b ec' W)
  then show ?thesis using ec_can_step assms(4) by blast
next
  case (step_alloc r i h ec ec' W)
  have I: "ec_inv F ec" using assms(4) step_alloc(1) by (simp add: ec_state_ok_def)
  have i: "i < length (mm_features r)" "h = mm_identifier (mm_features r ! i)" using in_range [OF step_alloc(4)] by auto
  have "int (get_num_embeds (mm_position (mm_features r ! i))) \<le> num_free_slots ec"
    using step_alloc(6) i by (auto simp: ec_allocate_def Let_def)
  from ec_allocate_spec [OF I step_alloc(3) i(1) _ this] step_alloc(5,6) i(2)
  have "ec_inv F ec'" "ec_cached ec' = (ec_cached ec)(h \<mapsto> {request_id r})" "freed ec' = freed ec"
    "ec_cache_size ec' = ec_cache_size ec" by auto
  then show ?thesis using assms(4) unfolding step_alloc(1,2) by (auto simp: ec_state_ok_def worker_ok_def)
next
  case (step_free_input r i ec ec' W)
  then have "i < length (mm_features r)" using in_range by (auto simp: ec_free_encoder_input_def)
  from ec_free_encoder_input_spec [OF assms(1) _ step_free_input(3) this, of ec] show ?thesis
    using step_free_input assms(4) by (auto simp: ec_state_ok_def worker_ok_def)
next
  case (step_free r ec ec' W)
  from ec_free_spec [OF assms(1) _ step_free(3), of ec] show ?thesis
    using step_free assms(4) by (auto simp: ec_state_ok_def worker_ok_def)
next
  case (step_freed ec hs ec' W)
  have I: "ec_inv F ec" using assms(4) step_freed(1) by (simp add: ec_state_ok_def)
  have e: "ec' = ec\<lparr>freed := []\<rparr>" "hs = filter (\<lambda>h. ec_cached ec h = None) (freed ec)"
    using step_freed(3) by (simp_all add: get_freed_mm_hashes_def)
  have "slots_ok ec'" by (rule slots_ok_cong [of ec]) (use I in \<open>simp_all add: e ec_inv_def\<close>)
  moreover have "holds_ok F ec'" using I by (simp add: e ec_inv_def holds_ok_def refs_of_def ids_of_def)
  ultimately show ?thesis using assms(4) unfolding step_freed(1,2) by (auto simp: ec_state_ok_def worker_ok_def ec_inv_def e)
qed

lemma ec_reach_ok:
  assumes "iterates order" and "0 \<le> cap" and "ec_reach F order cap s"
  shows "ec_state_ok F cap s"
  using assms(3)
proof (induction rule: rtranclp_induct)
  case base
  have "ec_inv F (EncoderCacheManager cap)" by (rule empty_inv [OF assms(2)]) (simp_all add: EncoderCacheManager_def)
  then show ?case by (simp add: ec_state_ok_def worker_ok_def EncoderCacheManager_def)
next
  case (step s t)
  then show ?case using ec_step_ok [OF assms(1,2)] by blast
qed

section \<open>Properties\<close>

lemma reach_inv:
  assumes "iterates order" and "0 \<le> cap" and "ec_reach F order cap (ec, W)"
  shows "slots_ok ec" and "holds_ok F ec" and "ec_inv F ec" and "ec_cache_size ec = cap" and "worker_ok ec W"
  using ec_reach_ok [OF assms] by (simp_all add: ec_state_ok_def ec_inv_def)

text \<open>C36: In every state the encoder cache reaches, the slots of the cached entries and the free
  slots add up to the capacity, no counter is negative or exceeds it, an entry is evictable exactly
  when no request references it, and a request references an entry exactly when one of its cached
  inputs has that hash.\<close>

theorem encoder_cache_accounting:
  assumes "iterates order" and "0 \<le> cap" and "ec_reach F order cap (ec, W)"
  shows "num_free_slots ec + int (used_slots ec) = cap \<and>
    0 \<le> num_free_slots ec \<and> num_free_slots ec \<le> num_freeable_slots ec \<and> num_freeable_slots ec \<le> cap \<and>
    num_freeable_slots ec = num_free_slots ec + int (total (freeable ec)) \<and>
    (\<forall>h. h \<in> fst ` set (freeable ec) \<longleftrightarrow> h \<in> dom (ec_cached ec) \<and> refs_of ec h = {}) \<and>
    (\<forall>rid h. rid \<in> refs_of ec h \<longleftrightarrow> (\<exists>i \<in> ids_of ec rid. mm_identifier (F rid ! i) = h))"
proof -
  note S = reach_inv(1) [OF assms] and cap = reach_inv(4) [OF assms]
  note D = slots_okD [OF S]
  have fr: "h \<in> fst ` set (freeable ec) \<longleftrightarrow> h \<in> dom (ec_cached ec) \<and> refs_of ec h = {}" for h
  proof
    assume "h \<in> fst ` set (freeable ec)"
    then obtain n where "(h, n) \<in> set (freeable ec)" by auto
    then show "h \<in> dom (ec_cached ec) \<and> refs_of ec h = {}" using D(4) [of h n] by (simp add: refs_of_def domI)
  next
    assume "h \<in> dom (ec_cached ec) \<and> refs_of ec h = {}"
    then have h: "ec_cached ec h = Some {}" by (auto simp: refs_of_def)
    obtain n where "num_embeds_by_hash ec h = Some n" using cached_embeds [OF S h] .
    then have "(h, n) \<in> set (freeable ec)" using D(4) [of h n] h by simp
    then show "h \<in> fst ` set (freeable ec)" by force
  qed
  have inj: "inj_on fst (set (freeable ec))" using D(3) by (simp add: distinct_map)
  have "total (freeable ec) = (\<Sum>x \<in> set (freeable ec). snd x)"
    using D(3) by (simp add: sum_list_distinct_conv_sum_set distinct_map)
  also have "\<dots> = (\<Sum>x \<in> set (freeable ec). embeds_of ec (fst x))"
    using D(4) by (intro sum.cong) (auto simp: embeds_of_def)
  also have "\<dots> = (\<Sum>h \<in> fst ` set (freeable ec). embeds_of ec h)" using inj by (simp add: sum.reindex)
  also have "\<dots> \<le> used_slots ec" unfolding used_slots_def using D(1) fr by (intro sum_mono2) auto
  finally have "total (freeable ec) \<le> used_slots ec" .
  then show ?thesis using D(5-7) fr cap reach_inv(2) [OF assms] unfolding holds_ok_def by auto
qed

text \<open>C37: The room check never raises and its eviction loop ends: it answers yes exactly when the
  input is within the compute budget and fits what is free or evictable; then enough slots are
  free. It evicts the oldest evictable entries, no more than needed, never an entry some request
  references, and reports them as freed; a negative answer changes nothing.\<close>

theorem can_allocate_correct:
  assumes "iterates order" and "0 \<le> cap" and "ec_reach F order cap (ec, W)" and "i < length (mm_features r)"
    and "n = int (get_num_embeds (mm_position (mm_features r ! i)))"
  shows "\<exists>k ec'. can_allocate r i budget sched ec = Inr (n \<le> budget \<and> n + sched \<le> num_freeable_slots ec, ec') \<and>
    (n \<le> budget \<and> n + sched \<le> num_freeable_slots ec \<longrightarrow> n + sched \<le> num_free_slots ec') \<and>
    (\<not> (n \<le> budget \<and> n + sched \<le> num_freeable_slots ec) \<longrightarrow> ec' = ec) \<and>
    freeable ec' = drop k (freeable ec) \<and> freed ec' = freed ec @ map fst (take k (freeable ec)) \<and>
    (\<forall>j < k. num_free_slots ec + int (total (take j (freeable ec))) < n + sched) \<and>
    (\<forall>h. refs_of ec' h = refs_of ec h) \<and> (\<forall>h. refs_of ec h \<noteq> {} \<longrightarrow> h \<in> dom (ec_cached ec'))"
proof -
  note I = reach_inv [OF assms(1-3)]
  from can_allocate_spec [OF I(3) assms(4), of budget sched, folded assms(5)] obtain k ec' where
    k: "can_allocate r i budget sched ec = Inr (n \<le> budget \<and> n + sched \<le> num_freeable_slots ec, ec')"
    "evicted k ec ec'" "n \<le> budget \<and> n + sched \<le> num_freeable_slots ec \<longrightarrow> n + sched \<le> num_free_slots ec'"
    "\<forall>j < k. num_free_slots ec + int (total (take j (freeable ec))) < n + sched"
    "\<not> (n \<le> budget \<and> n + sched \<le> num_freeable_slots ec) \<longrightarrow> ec' = ec" by blast
  have gone: "ec_cached ec h = Some {}" if "h \<in> fst ` set (take k (freeable ec))" for h
    using that slots_okD(4) [OF I(1)] by (fastforce dest: in_set_takeD)
  have c: "ec_cached ec' h = (if h \<in> fst ` set (take k (freeable ec)) then None else ec_cached ec h)" for h
    using k(2) by (simp add: evicted_def)
  have "refs_of ec' h = refs_of ec h" for h using gone [of h] by (simp add: refs_of_def c)
  moreover have "h \<in> dom (ec_cached ec')" if "refs_of ec h \<noteq> {}" for h
    using gone [of h] that by (auto simp: refs_of_def c dom_def split: option.splits)
  ultimately show ?thesis using k by (intro exI [of _ k] exI [of _ ec']) (simp add: evicted_def)
qed

text \<open>C38: The manager and the worker agree: once the worker has dropped the hashes that
  \<^verbatim>\<open>get_freed_mm_hashes\<close> reports, it stores exactly the outputs the manager lists as cached; no
  cached output is ever reported, even one evicted and allocated again in the same step.\<close>

theorem worker_cache_agrees:
  assumes "iterates order" and "0 \<le> cap" and "ec_reach F order cap (ec, W)"
    and "get_freed_mm_hashes ec = (hs, ec')"
  shows "W - set hs = dom (ec_cached ec') \<and> set hs \<inter> dom (ec_cached ec) = {} \<and> ec_cached ec' = ec_cached ec \<and> freed ec' = []"
  using reach_inv(5) [OF assms(1-3)] assms(4) by (auto simp: worker_ok_def get_freed_mm_hashes_def)

text \<open>C40: Freeing a request never raises, drops every reference it holds and no reference of another
  request, and keeps the outputs in the cache until space is needed.\<close>

theorem encoder_free_correct:
  assumes "iterates order" and "0 \<le> cap" and "ec_reach F order cap (ec, W)" and "of_request F r"
  shows "\<exists>ec'. ec_free order r ec = Inr ec' \<and> get_cached_input_ids r ec' = {} \<and>
    (\<forall>h. refs_of ec' h = refs_of ec h - {request_id r}) \<and> dom (ec_cached ec') = dom (ec_cached ec) \<and>
    num_free_slots ec' = num_free_slots ec"
proof -
  note I = reach_inv [OF assms(1-3)]
  from ec_free_spec [OF assms(1) I(3) assms(4)] obtain ec' where
    e: "ec_free order r ec = Inr ec'" "ec_inv F ec'" "ids_of ec' (request_id r) = {}"
    "\<forall>x. x \<noteq> request_id r \<longrightarrow> ids_of ec' x = ids_of ec x" "num_free_slots ec' = num_free_slots ec"
    "dom (ec_cached ec') = dom (ec_cached ec)" by blast
  have "x \<in> refs_of ec' h \<longleftrightarrow> x \<in> refs_of ec h - {request_id r}" for x h
    using e(2-4) I(2) by (cases "x = request_id r") (auto simp: ec_inv_def holds_ok_def)
  then show ?thesis using e by (intro exI [of _ ec']) (auto simp: get_cached_ids)
qed

text \<open>The budgets admit every item: unless chunked input is disabled and an item exceeds the
  batch, which is refused, a cache of the computed size can take any single item the model allows
  within the computed compute budget.\<close>

theorem encoder_budget_admits_item:
  assumes "(m, mx) \<in> set toks" and "i < length (mm_features r)"
    and "get_num_embeds (mm_position (mm_features r ! i)) \<le> mx"
  shows "(compute_mm_encoder_budget dis batch max_in size_cfg toks = Inl ValueError \<longleftrightarrow> dis \<and> (\<exists>(m', t) \<in> set toks. t > batch)) \<and>
    (\<forall>b c. compute_mm_encoder_budget dis batch max_in size_cfg toks = Inr (b, c) \<longrightarrow>
       max_in \<le> b \<and> size_cfg \<le> c \<and>
       can_allocate r i (int b) 0 (EncoderCacheManager (int c)) = Inr (True, EncoderCacheManager (int c)))"
proof -
  define M where "M = Max (set (map snd toks))"
  have le: "t \<le> M" if "(m', t) \<in> set toks" for m' t unfolding M_def using that by (force intro: Max_ge)
  have "M \<in> set (map snd toks)" unfolding M_def using assms(1) by (intro Max_in) auto
  then have big: "M > batch \<longleftrightarrow> (\<exists>(m', t) \<in> set toks. t > batch)" using le by (force simp: not_less)
  have n: "get_num_embeds (mm_position (mm_features r ! i)) \<le> M" using assms(3) le [OF assms(1)] by simp
  have "toks \<noteq> []" using assms(1) by auto
  then have eq: "compute_mm_encoder_budget dis batch max_in size_cfg toks =
      (if dis \<and> M > batch then Inl ValueError else Inr (max max_in M, max size_cfg M))"
    by (simp add: compute_mm_encoder_budget_def M_def Let_def)
  show ?thesis unfolding eq big [symmetric] using n assms(2)
    by (auto simp: can_allocate_def EncoderCacheManager_def Let_def)
qed

lemma ed_loop:
  assumes "\<And>i ed. i \<in> set is \<Longrightarrow> f i ed = Inr (ed\<lparr>ed_num_free_slots := ed_num_free_slots ed + g i,
      ed_allocated := ed_allocated ed @ a i\<rparr>)"
  shows "for_res f is ed = Inr (ed\<lparr>ed_num_free_slots := ed_num_free_slots ed + sum_list (map g is),
      ed_allocated := ed_allocated ed @ concat (map a is)\<rparr>)"
  using assms by (induction "is" arbitrary: ed) simp_all

lemma sum_list_minus: "sum_list (map (\<lambda>i. - f i) is) = - sum_list (map f is)" for f :: "nat \<Rightarrow> int"
  by (induction "is") simp_all

text \<open>The encoder-decoder manager reports every allocated hash exactly two calls of
  \<^verbatim>\<open>get_freed_mm_hashes\<close> later, after the model has run, and freeing a request returns exactly the
  slots its inputs took.\<close>

theorem encdec_allocate_free:
  "\<exists>ed1 ed2. for_res (\<lambda>i. ed_allocate r i) [0..<length (mm_features r)] ed = Inr ed1 \<and> ed_free r ed1 = Inr ed2 \<and>
     ed_num_free_slots ed2 = ed_num_free_slots ed \<and>
     fst (ed_get_freed_mm_hashes (snd (ed_get_freed_mm_hashes ed2))) = ed_allocated ed @ map mm_identifier (mm_features r) \<and>
     fst (ed_get_freed_mm_hashes ed2) = ed_to_free ed"
proof -
  let ?is = "[0..<length (mm_features r)]" and ?f = "mm_features r"
  let ?n = "\<lambda>i. int (get_num_embeds (mm_position (?f ! i)))"
  let ?ed1 = "ed\<lparr>ed_num_free_slots := ed_num_free_slots ed + sum_list (map (\<lambda>i. - ?n i) ?is),
      ed_allocated := ed_allocated ed @ concat (map (\<lambda>i. [mm_identifier (?f ! i)]) ?is)\<rparr>"
  have 1: "for_res (\<lambda>i. ed_allocate r i) ?is ed = Inr ?ed1"
    by (rule ed_loop) (simp add: ed_allocate_def)
  have 2: "ed_free r ?ed1 = Inr (?ed1\<lparr>ed_num_free_slots := ed_num_free_slots ?ed1 + sum_list (map ?n ?is),
      ed_allocated := ed_allocated ?ed1 @ concat (map (\<lambda>i. []) ?is)\<rparr>)"
    unfolding ed_free_def by (rule ed_loop) (simp add: ed_free_encoder_input_def)
  have 3: "sum_list (map (\<lambda>i. - ?n i) ?is) = - sum_list (map ?n ?is)" by (rule sum_list_minus)
  have 4: "concat (map (\<lambda>i. [mm_identifier (?f ! i)]) ?is) = map mm_identifier ?f"
    by (rule nth_equalityI) simp_all
  show ?thesis by (intro exI conjI, rule 1, rule 2) (simp_all add: 3 4 ed_get_freed_mm_hashes_def del: concat_map_singleton)
qed

text \<open>Witnesses: two requests share an image of two embeddings in a cache of five slots.\<close>

definition demo_features :: "string \<Rightarrow> mm_feature list" where
  "demo_features rid =
     [\<lparr>mm_identifier = ''img'', mm_position = \<lparr>offset = 0, placeholder_length = 2, is_embed = None\<rparr>\<rparr>,
      \<lparr>mm_identifier = ''pic'', mm_position = \<lparr>offset = 2, placeholder_length = 4, is_embed = None\<rparr>\<rparr>]"

definition demo_mm_request :: "string \<Rightarrow> request" where
  "demo_mm_request rid = initial_request 1 rid (Some [1]) None None 0 None None (demo_features rid) None None 0 None 1 WAITING 1"

definition demo_ec :: encoder_cache where
  "demo_ec = (case ec_allocate (demo_mm_request ''a'') 0 (EncoderCacheManager 5) of Inr ec \<Rightarrow> ec | Inl _ \<Rightarrow> EncoderCacheManager 5)"

lemma demo_of_request: "of_request demo_features (demo_mm_request rid)"
  by (simp add: of_request_def demo_mm_request_def initial_request_def)

lemma demo_feature_sel [simp]: "mm_features (demo_mm_request rid) = demo_features rid" "request_id (demo_mm_request rid) = rid"
  by (simp_all add: demo_mm_request_def initial_request_def)

lemma demo_iterates: "iterates sorted_list_of_set"
  by (simp add: iterates_def)

lemma demo_ec_run: "ec_allocate (demo_mm_request ''a'') 0 (EncoderCacheManager 5) = Inr demo_ec"
  by (simp add: demo_ec_def ec_allocate_def EncoderCacheManager_def demo_features_def get_num_embeds_def)

lemma demo_reach: "ec_reach demo_features sorted_list_of_set 5 (demo_ec, {''img''})"
proof -
  have "ec_step demo_features sorted_list_of_set (EncoderCacheManager 5, {}) (demo_ec, insert ''img'' {})"
    by (rule ec_step.step_alloc [OF demo_of_request _ _ demo_ec_run]) (simp_all add: demo_features_def EncoderCacheManager_def)
  then show ?thesis by (rule r_into_rtranclp)
qed

theorem encoder_cache_accounting_witness: "num_free_slots demo_ec + int (used_slots demo_ec) = 5"
  using encoder_cache_accounting [OF demo_iterates _ demo_reach] by simp

theorem can_allocate_correct_witness:
  "\<exists>ec'. can_allocate (demo_mm_request ''b'') 1 9 0 demo_ec = Inr (False, ec') \<and> ec' = demo_ec"
proof -
  have "num_freeable_slots demo_ec = 3"
    by (simp add: demo_ec_def ec_allocate_def EncoderCacheManager_def demo_features_def get_num_embeds_def)
  then show ?thesis
    using can_allocate_correct [OF demo_iterates _ demo_reach, of 1 "demo_mm_request ''b''" 4 9 0]
    by (auto simp: demo_features_def get_num_embeds_def)
qed

theorem worker_cache_agrees_witness:
  "{''img''} - set (fst (get_freed_mm_hashes demo_ec)) = dom (ec_cached (snd (get_freed_mm_hashes demo_ec)))"
  using worker_cache_agrees [OF demo_iterates _ demo_reach, of "fst (get_freed_mm_hashes demo_ec)" "snd (get_freed_mm_hashes demo_ec)"]
  by simp

theorem encoder_free_correct_witness:
  "\<exists>ec'. ec_free sorted_list_of_set (demo_mm_request ''a'') demo_ec = Inr ec' \<and> get_cached_input_ids (demo_mm_request ''a'') ec' = {}"
  using encoder_free_correct [OF demo_iterates _ demo_reach demo_of_request] by fastforce

end
