(* ===== verification/EncoderSchedule.thy ===== *)
theory EncoderSchedule
  imports BlockHashes EncoderCache
begin

text \<open>
  How the scheduler uses the encoder cache (\<^verbatim>\<open>src/vllm/v1/core/sched/scheduler.py\<close>):
  \<^verbatim>\<open>_try_schedule_encoder_inputs\<close> decides which encoder inputs of a request run in this step and
  shortens the token window in front of one that cannot, \<^verbatim>\<open>_allocate_encoder_inputs\<close> books them,
  \<^verbatim>\<open>_free_encoder_inputs\<close> drops those the decoder has passed. The main results are that a
  successful decision can always be booked and that every encoder output the shortened window needs
  is then held for the request.
\<close>

section \<open>The manager behind its interface\<close>

text \<open>The manager is one of the two classes; the encoder-decoder one never had
  \<^verbatim>\<open>num_embeds_by_hash\<close>.\<close>

datatype encoder_manager = ECM encoder_cache | EDM encdec_cache

fun em_check_and_update_cache :: "request \<Rightarrow> nat \<Rightarrow> encoder_manager \<Rightarrow> (bool \<times> encoder_manager) res" where
  "em_check_and_update_cache r i (ECM ec) =
     bind_res (check_and_update_cache r i ec) (\<lambda>(b, ec'). Inr (b, ECM ec'))"
| "em_check_and_update_cache r i (EDM ed) =
     (let (b, ed') = ed_check_and_update_cache r i ed in Inr (b, EDM ed'))"

fun em_cached_num_encoder_embeds :: "request \<Rightarrow> nat \<Rightarrow> encoder_manager \<Rightarrow> nat option res" where
  "em_cached_num_encoder_embeds r i (ECM ec) = get_cached_num_encoder_embeds r i ec"
| "em_cached_num_encoder_embeds r i (EDM ed) = bind_res (feature_hash r i) (\<lambda>_. Inl AttributeError)"

fun em_can_allocate :: "request \<Rightarrow> nat \<Rightarrow> int \<Rightarrow> int \<Rightarrow> encoder_manager \<Rightarrow> (bool \<times> encoder_manager) res" where
  "em_can_allocate r i budget sched (ECM ec) =
     bind_res (can_allocate r i budget sched ec) (\<lambda>(b, ec'). Inr (b, ECM ec'))"
| "em_can_allocate r i budget sched (EDM ed) =
     bind_res (ed_can_allocate r i budget sched ed) (\<lambda>b. Inr (b, EDM ed))"

fun em_allocate :: "request \<Rightarrow> nat \<Rightarrow> encoder_manager \<Rightarrow> encoder_manager res" where
  "em_allocate r i (ECM ec) = bind_res (ec_allocate r i ec) (\<lambda>ec'. Inr (ECM ec'))"
| "em_allocate r i (EDM ed) = bind_res (ed_allocate r i ed) (\<lambda>ed'. Inr (EDM ed'))"

fun em_get_cached_input_ids :: "request \<Rightarrow> encoder_manager \<Rightarrow> nat set" where
  "em_get_cached_input_ids r (ECM ec) = get_cached_input_ids r ec"
| "em_get_cached_input_ids r (EDM ed) = ed_get_cached_input_ids r ed"

fun em_free_encoder_input :: "set_order \<Rightarrow> request \<Rightarrow> nat \<Rightarrow> encoder_manager \<Rightarrow> encoder_manager res" where
  "em_free_encoder_input order r i (ECM ec) =
     bind_res (ec_free_encoder_input order r i ec) (\<lambda>ec'. Inr (ECM ec'))"
| "em_free_encoder_input order r i (EDM ed) =
     bind_res (ed_free_encoder_input r i ed) (\<lambda>ed'. Inr (EDM ed'))"

section \<open>Positions of embeddings\<close>

definition embeds_cumsum :: "bool list \<Rightarrow> nat list" where
  "embeds_cumsum msk = map (\<lambda>k. length (filter id (take (Suc k) msk))) [0..<length msk]"

definition cumsum_at :: "nat list \<Rightarrow> int \<Rightarrow> nat res" where
  "cumsum_at cs idx =
     (if idx > 0 then (if nat (idx - 1) < length cs then Inr (cs ! nat (idx - 1)) else Inl IndexError) else Inr 0)"

definition get_embeds_indices_in_range :: "placeholder_range \<Rightarrow> int \<Rightarrow> int \<Rightarrow> (int \<times> int) res" where
  "get_embeds_indices_in_range p start_idx end_idx =
     (case is_embed p of
        None \<Rightarrow> Inr (start_idx, end_idx)
      | Some msk \<Rightarrow>
          bind_res (cumsum_at (embeds_cumsum msk) start_idx) (\<lambda>a.
          bind_res (cumsum_at (embeds_cumsum msk) end_idx) (\<lambda>b. Inr (int a, int b))))"

section \<open>Scheduling the encoder inputs of a request\<close>

record encoder_sched =
  is_encoder_decoder :: bool
  disable_chunked_mm_input :: bool
  has_cache_item :: "(string \<Rightarrow> bool) option"

text \<open>The variables of the loop: the manager, the set \<^verbatim>\<open>encoder_cache_mismatch_reqs\<close>, and the
  accumulators of \<^verbatim>\<open>_try_schedule_encoder_inputs\<close>.\<close>

record encoder_loop =
  el_manager :: encoder_manager
  el_mismatch :: "string set"
  encoder_inputs_to_schedule :: "nat list"
  external_load_encoder_input :: "nat list"
  duplicate_encoder_inputs :: "nat list"
  mm_hashes_to_schedule :: "string \<Rightarrow> nat option"
  num_embeds_to_schedule :: nat
  el_compute_budget :: int

datatype loop_exit = Continue encoder_loop | Break encoder_loop nat | Reject encoder_loop

definition reject_on_encoder_cache_embed_mismatch :: "request \<Rightarrow> nat \<Rightarrow> nat \<Rightarrow> string set \<Rightarrow> bool \<times> string set" where
  "reject_on_encoder_cache_embed_mismatch r cached_num requested_num mismatch =
     (if cached_num = requested_num then (False, mismatch) else (True, insert (request_id r) mismatch))"

text \<open>The part of the body in front of the room check: skip, duplicate, mismatch or cache hit.\<close>

definition encoder_known :: "encoder_sched \<Rightarrow> request \<Rightarrow> nat \<Rightarrow> nat \<Rightarrow> encoder_loop \<Rightarrow> (loop_exit option \<times> encoder_loop) res" where
  "encoder_known sc r computed i el =
     (let f = mm_features r ! i; n = get_num_embeds (mm_position f); h = mm_identifier f
      in if is_encoder_decoder sc \<and> computed > 0
         then py_assert (offset (mm_position f) = 0) (Inr (Some (Continue el), el))
         else if is_encoder_decoder sc then Inr (None, el)
         else case mm_hashes_to_schedule el h of
           Some m \<Rightarrow>
             let (rej, mis) = reject_on_encoder_cache_embed_mismatch r m n (el_mismatch el)
             in if rej then Inr (Some (Reject (el\<lparr>el_mismatch := mis\<rparr>)), el)
                else Inr (Some (Continue (el\<lparr>duplicate_encoder_inputs := duplicate_encoder_inputs el @ [i]\<rparr>)), el)
         | None \<Rightarrow>
             bind_res (em_cached_num_encoder_embeds r i (el_manager el)) (\<lambda>cached_num.
               let (rej, mis) = (case cached_num of
                     None \<Rightarrow> (False, el_mismatch el)
                   | Some m \<Rightarrow> reject_on_encoder_cache_embed_mismatch r m n (el_mismatch el))
               in if rej then Inr (Some (Reject (el\<lparr>el_mismatch := mis\<rparr>)), el)
                  else bind_res (em_check_and_update_cache r i (el_manager el)) (\<lambda>(hit, em).
                    if hit then Inr (Some (Continue (el\<lparr>el_manager := em\<rparr>)), el)
                    else Inr (None, el\<lparr>el_manager := em\<rparr>))))"

text \<open>The part behind it: book the input, unless no embedding lies in the window.\<close>

definition encoder_book :: "encoder_sched \<Rightarrow> request \<Rightarrow> nat \<Rightarrow> nat \<Rightarrow> nat \<Rightarrow> encoder_loop \<Rightarrow> encoder_loop res" where
  "encoder_book sc r computed window_end i el =
     (let f = mm_features r ! i; p = mm_position f; h = mm_identifier f; n = get_num_embeds p;
          start_idx_rel = max 0 (int computed - int (offset p));
          end_idx_rel = min (int (placeholder_length p)) (int window_end - int (offset p))
      in bind_res (get_embeds_indices_in_range p start_idx_rel end_idx_rel) (\<lambda>(a, b).
           if b - a = 0 then Inr el
           else if (case has_cache_item sc of None \<Rightarrow> False | Some has \<Rightarrow> has h)
           then Inr (el\<lparr>mm_hashes_to_schedule := (mm_hashes_to_schedule el)(h \<mapsto> n),
                        external_load_encoder_input := external_load_encoder_input el @ [i],
                        num_embeds_to_schedule := num_embeds_to_schedule el + n\<rparr>)
           else Inr (el\<lparr>num_embeds_to_schedule := num_embeds_to_schedule el + n,
                        el_compute_budget := el_compute_budget el - int n,
                        mm_hashes_to_schedule := (mm_hashes_to_schedule el)(h \<mapsto> n),
                        encoder_inputs_to_schedule := encoder_inputs_to_schedule el @ [i]\<rparr>)))"

definition encoder_body :: "encoder_sched \<Rightarrow> request \<Rightarrow> nat \<Rightarrow> nat \<Rightarrow> nat \<Rightarrow> nat \<Rightarrow> encoder_loop \<Rightarrow> loop_exit res" where
  "encoder_body sc r computed new_tokens shift i el =
     bind_res (encoder_known sc r computed i el) (\<lambda>(exit, el1).
       case exit of
         Some x \<Rightarrow> Inr x
       | None \<Rightarrow>
           let p = mm_position (mm_features r ! i); start_pos = offset p
           in if disable_chunked_mm_input sc \<and> computed < start_pos \<and>
                 computed + new_tokens < start_pos + placeholder_length p
              then Inr (Break el1 (start_pos - (computed + shift)))
              else bind_res (em_can_allocate r i (el_compute_budget el1) (int (num_embeds_to_schedule el1)) (el_manager el1))
                (\<lambda>(room, em).
                  let el2 = el1\<lparr>el_manager := em\<rparr>
                  in if \<not> room
                     then Inr (Break el2 (if computed + shift < start_pos then start_pos - (computed + shift) else 0))
                     else bind_res (encoder_book sc r computed (computed + new_tokens + shift) i el2)
                            (\<lambda>el3. Inr (Continue el3))))"

fun encoder_loop_from :: "encoder_sched \<Rightarrow> request \<Rightarrow> nat \<Rightarrow> nat \<Rightarrow> nat \<Rightarrow> nat list \<Rightarrow> encoder_loop \<Rightarrow> loop_exit res" where
  "encoder_loop_from sc r computed new_tokens shift [] el = Inr (Continue el)"
| "encoder_loop_from sc r computed new_tokens shift (i # is) el =
     bind_res (encoder_body sc r computed new_tokens shift i el) (\<lambda>x.
       case x of Continue el' \<Rightarrow> encoder_loop_from sc r computed new_tokens shift is el' | _ \<Rightarrow> Inr x)"

text \<open>The result: inputs to run, the number of tokens, the compute budget, inputs to load, duplicates;
  and the state: the manager and the mismatched requests.\<close>

record encoder_plan =
  pl_inputs :: "nat list"
  pl_new_tokens :: nat
  pl_budget :: int
  pl_external :: "nat list"
  pl_duplicates :: "nat list"
  pl_manager :: encoder_manager
  pl_mismatch :: "string set"

definition plan_of :: "encoder_loop \<Rightarrow> nat \<Rightarrow> encoder_plan" where
  "plan_of el n = \<lparr>pl_inputs = encoder_inputs_to_schedule el, pl_new_tokens = n, pl_budget = el_compute_budget el,
     pl_external = external_load_encoder_input el, pl_duplicates = duplicate_encoder_inputs el,
     pl_manager = el_manager el, pl_mismatch = el_mismatch el\<rparr>"

definition empty_plan :: "nat \<Rightarrow> int \<Rightarrow> encoder_manager \<Rightarrow> string set \<Rightarrow> encoder_plan" where
  "empty_plan n budget em mis = \<lparr>pl_inputs = [], pl_new_tokens = n, pl_budget = budget, pl_external = [],
     pl_duplicates = [], pl_manager = em, pl_mismatch = mis\<rparr>"

definition try_schedule_encoder_inputs :: "encoder_sched \<Rightarrow> request \<Rightarrow> nat \<Rightarrow> nat \<Rightarrow> int \<Rightarrow> nat \<Rightarrow>
    encoder_manager \<Rightarrow> string set \<Rightarrow> encoder_plan res" where
  "try_schedule_encoder_inputs sc r computed new_tokens budget shift em mis =
     (if new_tokens = 0 \<or> length (mm_features r) = 0 then Inr (empty_plan new_tokens budget em mis)
      else let window_end = computed + new_tokens + shift;
               (lo, hi) = get_mm_features_in_window (mm_features r) computed window_end;
               lo = (if is_encoder_decoder sc then 0 else lo);
               el = \<lparr>el_manager = em, el_mismatch = mis, encoder_inputs_to_schedule = [],
                     external_load_encoder_input = [], duplicate_encoder_inputs = [],
                     mm_hashes_to_schedule = Map.empty, num_embeds_to_schedule = 0, el_compute_budget = budget\<rparr>
           in bind_res (encoder_loop_from sc r computed new_tokens shift [lo..<hi] el) (\<lambda>x.
                Inr (case x of
                       Continue el' \<Rightarrow> plan_of el' new_tokens
                     | Break el' n \<Rightarrow> plan_of el' n
                     | Reject el' \<Rightarrow> empty_plan 0 (el_compute_budget el') (el_manager el') (el_mismatch el'))))"

text \<open>Booking; the second component lists the inputs the connector is told about.\<close>

definition allocate_encoder_inputs :: "encoder_sched \<Rightarrow> request \<Rightarrow> nat list \<Rightarrow> nat list \<Rightarrow> encoder_manager \<Rightarrow>
    (encoder_manager \<times> nat list) res" where
  "allocate_encoder_inputs sc r input_ids duplicates em =
     bind_res (for_res (\<lambda>i (em, told).
         bind_res (em_allocate r i em) (\<lambda>em'. Inr (em', if has_cache_item sc = None then told else told @ [i])))
       input_ids (em, []))
       (\<lambda>(em1, told).
         bind_res (for_res (\<lambda>i em. bind_res (em_check_and_update_cache r i em) (\<lambda>(_, em'). Inr em')) duplicates em1)
           (\<lambda>em2. Inr (em2, told)))"

text \<open>Dropping what the decoder has passed: \<open>passed\<close> is
  \<^verbatim>\<open>num_computed_tokens - num_output_placeholders\<close>.\<close>

definition free_encoder_input :: "encoder_sched \<Rightarrow> set_order \<Rightarrow> request \<Rightarrow> nat \<Rightarrow> encoder_manager \<times> nat list \<Rightarrow>
    (encoder_manager \<times> nat list) res" where
  "free_encoder_input sc order r i s =
     bind_res (em_free_encoder_input order r i (fst s)) (\<lambda>em.
       Inr (em, if has_cache_item sc = None then snd s else snd s @ [i]))"

definition free_encoder_inputs :: "encoder_sched \<Rightarrow> set_order \<Rightarrow> nat \<Rightarrow> request \<Rightarrow> int \<Rightarrow> encoder_manager \<Rightarrow>
    (encoder_manager \<times> nat list) res" where
  "free_encoder_inputs sc order spec_lookahead r passed em =
     (if em_get_cached_input_ids r em = {} then Inr (em, [])
      else for_res (\<lambda>i s.
          if i \<ge> length (mm_features r) then Inl IndexError
          else let p = mm_position (mm_features r ! i)
               in if is_encoder_decoder sc \<and> num_computed_tokens r > 0 then free_encoder_input sc order r i s
                  else if int (offset p + placeholder_length p + spec_lookahead) \<le> passed
                  then free_encoder_input sc order r i s
                  else Inr s)
        (order (em_get_cached_input_ids r em)) (em, []))"

section \<open>Embeddings in a window\<close>

abbreviation hash_at :: "request \<Rightarrow> nat \<Rightarrow> string" where
  "hash_at r i \<equiv> mm_identifier (mm_features r ! i)"

abbreviation embeds_at :: "request \<Rightarrow> nat \<Rightarrow> nat" where
  "embeds_at r i \<equiv> get_num_embeds (mm_position (mm_features r ! i))"

definition masks_ok :: "request \<Rightarrow> bool" where
  "masks_ok r \<longleftrightarrow> (\<forall>f \<in> set (mm_features r). case is_embed (mm_position f) of None \<Rightarrow> True
     | Some msk \<Rightarrow> length msk = placeholder_length (mm_position f))"

text \<open>Some position of the window carries an embedding of input \<open>i\<close>.\<close>

definition needs :: "request \<Rightarrow> nat \<Rightarrow> nat \<Rightarrow> nat \<Rightarrow> bool" where
  "needs r i a b \<longleftrightarrow> (\<exists>k. a \<le> k \<and> k < b \<and> mm_start (mm_features r ! i) \<le> k \<and> k < mm_end (mm_features r ! i) \<and>
     (case is_embed (mm_position (mm_features r ! i)) of None \<Rightarrow> True
      | Some msk \<Rightarrow> msk ! (k - mm_start (mm_features r ! i))))"

lemma needs_mono: "needs r i a b \<Longrightarrow> b \<le> c \<Longrightarrow> needs r i a c"
  unfolding needs_def by (meson less_le_trans)

lemma cumsum_at_spec:
  "0 \<le> idx \<Longrightarrow> idx \<le> int (length msk) \<Longrightarrow>
     cumsum_at (embeds_cumsum msk) idx = Inr (length (filter id (take (nat idx) msk)))"
proof -
  assume idx: "0 \<le> idx" "idx \<le> int (length msk)"
  show ?thesis
  proof (cases "idx = 0")
    case False
    with idx have "Suc (nat (idx - 1)) = nat idx" "nat (idx - 1) < length msk" by auto
    then show ?thesis using idx False by (simp add: cumsum_at_def embeds_cumsum_def)
  qed (simp add: cumsum_at_def)
qed

lemma count_between:
  assumes "a \<le> k" and "k < b" and "k < length msk" and "msk ! k"
  shows "length (filter id (take a msk)) < length (filter id (take b msk))"
proof -
  have "take b msk = take a msk @ drop a (take b msk)"
    using assms(1,2) by (metis append_take_drop_id min.absorb1 order.strict_implies_order order.trans take_take)
  moreover have "msk ! k \<in> set (drop a (take b msk))"
    using assms by (auto simp: in_set_conv_nth intro!: exI [of _ "k - a"])
  then have "filter id (drop a (take b msk)) \<noteq> []" using assms(4) by (auto simp: filter_empty_conv)
  ultimately show ?thesis by (metis filter_append length_append length_greater_0_conv less_add_same_cancel1)
qed

lemma embeds_range_spec:
  assumes "masks_ok r" and i: "i < length (mm_features r)"
    and ov: "mm_start (mm_features r ! i) < e" "s < mm_end (mm_features r ! i)"
  defines "p \<equiv> mm_position (mm_features r ! i)"
  shows "\<exists>a b. get_embeds_indices_in_range p (max 0 (int s - int (offset p)))
      (min (int (placeholder_length p)) (int e - int (offset p))) = Inr (a, b) \<and> (needs r i s e \<longrightarrow> b - a \<noteq> 0)"
proof -
  define x y where "x = max 0 (int s - int (offset p))" and "y = min (int (placeholder_length p)) (int e - int (offset p))"
  have b: "0 \<le> x" "x \<le> int (placeholder_length p)" "0 \<le> y" "y \<le> int (placeholder_length p)"
    using ov by (auto simp: x_def y_def p_def)
  show ?thesis
  proof (cases "is_embed p")
    case None
    have "y - x \<noteq> 0" if nd: "needs r i s e"
    proof -
      from nd obtain k where "s \<le> k" "k < e" "offset p \<le> k" "k < offset p + placeholder_length p"
        by (auto simp: needs_def p_def)
      then show ?thesis by (simp add: x_def y_def)
    qed
    then show ?thesis using None by (simp add: get_embeds_indices_in_range_def x_def y_def)
  next
    case (Some msk)
    have len: "length msk = placeholder_length p"
      using assms(1) nth_mem [OF i] Some by (auto simp: masks_ok_def p_def split: option.splits)
    have run: "get_embeds_indices_in_range p x y =
        Inr (int (length (filter id (take (nat x) msk))), int (length (filter id (take (nat y) msk))))"
      using b by (simp add: get_embeds_indices_in_range_def Some cumsum_at_spec len)
    have "length (filter id (take (nat x) msk)) < length (filter id (take (nat y) msk))" if nd: "needs r i s e"
    proof -
      from nd obtain k where k: "s \<le> k" "k < e" "offset p \<le> k" "k < offset p + placeholder_length p" "msk ! (k - offset p)"
        using Some by (auto simp: needs_def p_def)
      show ?thesis by (rule count_between [where k = "k - offset p"]) (use k len in \<open>auto simp: x_def y_def\<close>)
    qed
    then show ?thesis using run unfolding x_def y_def by fastforce
  qed
qed

section \<open>The loop invariant\<close>

abbreviation booked :: "encoder_loop \<Rightarrow> nat list" where
  "booked el \<equiv> encoder_inputs_to_schedule el @ external_load_encoder_input el"

definition booked_ok :: "request \<Rightarrow> int \<Rightarrow> encoder_loop \<Rightarrow> bool" where
  "booked_ok r budget el \<longleftrightarrow>
     (\<forall>i \<in> set (booked el @ duplicate_encoder_inputs el). i < length (mm_features r)) \<and>
     distinct (map (hash_at r) (booked el)) \<and>
     dom (mm_hashes_to_schedule el) = hash_at r ` set (booked el) \<and>
     num_embeds_to_schedule el = sum_list (map (embeds_at r) (booked el)) \<and>
     hash_at r ` set (duplicate_encoder_inputs el) \<subseteq> hash_at r ` set (booked el) \<and>
     el_compute_budget el = budget - int (sum_list (map (embeds_at r) (encoder_inputs_to_schedule el))) \<and>
     (0 \<le> budget \<longrightarrow> int (sum_list (map (embeds_at r) (encoder_inputs_to_schedule el))) \<le> budget)"

definition room_ok :: "(string \<Rightarrow> mm_feature list) \<Rightarrow> request \<Rightarrow> encoder_cache \<Rightarrow> encoder_loop \<Rightarrow> bool" where
  "room_ok F r ec el \<longleftrightarrow> ec_inv F ec \<and> el_manager el = ECM ec \<and>
     dom (mm_hashes_to_schedule el) \<inter> dom (ec_cached ec) = {} \<and> int (num_embeds_to_schedule el) \<le> num_free_slots ec"

definition covered :: "request \<Rightarrow> nat \<Rightarrow> nat \<Rightarrow> encoder_cache \<Rightarrow> encoder_loop \<Rightarrow> nat \<Rightarrow> bool" where
  "covered r s e ec el i \<longleftrightarrow> request_id r \<in> refs_of ec (hash_at r i) \<or>
     i \<in> set (booked el @ duplicate_encoder_inputs el) \<or> \<not> needs r i s e"

definition plan_ok :: "(string \<Rightarrow> mm_feature list) \<Rightarrow> request \<Rightarrow> nat \<Rightarrow> nat \<Rightarrow> int \<Rightarrow> nat set \<Rightarrow> encoder_loop \<Rightarrow> bool" where
  "plan_ok F r s e budget seen el \<longleftrightarrow>
     booked_ok r budget el \<and> (\<exists>ec. room_ok F r ec el \<and> (\<forall>i \<in> seen. covered r s e ec el i))"

lemma plan_ok_insert:
  assumes "booked_ok r budget el" and "room_ok F r ec el" and "\<forall>j \<in> insert i seen. covered r s e ec el j"
  shows "plan_ok F r s e budget (insert i seen) el"
  using assms unfolding plan_ok_def by blast

section \<open>The parts of the body\<close>

lemma encoder_known_spec:
  assumes B: "booked_ok r budget el" and R: "room_ok F r ec el" and C: "\<forall>j \<in> seen. covered r s e ec el j"
    and Fr: "of_request F r" and i: "i < length (mm_features r)" and dec: "\<not> is_encoder_decoder sc"
  shows "(\<exists>el'. encoder_known sc r s i el = Inr (Some (Continue el'), el) \<and> plan_ok F r s e budget (insert i seen) el') \<or>
    (\<exists>el' ec'. encoder_known sc r s i el = Inr (Some (Reject el'), el) \<and> request_id r \<in> el_mismatch el' \<and>
       el_manager el' = ECM ec' \<and> ec_inv F ec') \<or>
    (encoder_known sc r s i el = Inr (None, el) \<and> hash_at r i \<notin> dom (ec_cached ec) \<and>
       hash_at r i \<notin> dom (mm_hashes_to_schedule el))"
proof (cases "mm_hashes_to_schedule el (hash_at r i)")
  case (Some m)
  let ?el = "el\<lparr>duplicate_encoder_inputs := duplicate_encoder_inputs el @ [i]\<rparr>"
  show ?thesis
  proof (cases "m = embeds_at r i")
    case True
    have "hash_at r i \<in> dom (mm_hashes_to_schedule el)" using Some by blast
    with B i have "booked_ok r budget ?el" unfolding booked_ok_def by simp
    moreover have "room_ok F r ec ?el" using R by (simp add: room_ok_def)
    moreover have "\<forall>j \<in> insert i seen. covered r s e ec ?el j" using C by (auto simp: covered_def)
    ultimately have "plan_ok F r s e budget (insert i seen) ?el" by (rule plan_ok_insert)
    moreover have "encoder_known sc r s i el = Inr (Some (Continue ?el), el)"
      using Some True dec by (simp add: encoder_known_def Let_def reject_on_encoder_cache_embed_mismatch_def)
    ultimately show ?thesis by blast
  next
    case False
    then have "encoder_known sc r s i el =
        Inr (Some (Reject (el\<lparr>el_mismatch := insert (request_id r) (el_mismatch el)\<rparr>)), el)"
      using Some dec by (simp add: encoder_known_def Let_def reject_on_encoder_cache_embed_mismatch_def)
    then show ?thesis using R by (force simp: room_ok_def)
  qed
next
  case None
  have I: "ec_inv F ec" and em: "el_manager el = ECM ec" using R by (simp_all add: room_ok_def)
  note K = check_and_update_cache_spec [OF I Fr i]
  have dom: "num_embeds_by_hash ec (hash_at r i) = None \<longleftrightarrow> ec_cached ec (hash_at r i) = None"
    using slots_okD(2) [of ec] I by (metis domIff ec_inv_def)
  have run: "encoder_known sc r s i el =
      (case num_embeds_by_hash ec (hash_at r i) of
         Some m \<Rightarrow> if m \<noteq> embeds_at r i then Inr (Some (Reject (el\<lparr>el_mismatch := insert (request_id r) (el_mismatch el)\<rparr>)), el)
           else bind_res (check_and_update_cache r i ec) (\<lambda>(hit, ec').
             if hit then Inr (Some (Continue (el\<lparr>el_manager := ECM ec'\<rparr>)), el) else Inr (None, el\<lparr>el_manager := ECM ec'\<rparr>))
       | None \<Rightarrow> bind_res (check_and_update_cache r i ec) (\<lambda>(hit, ec').
             if hit then Inr (Some (Continue (el\<lparr>el_manager := ECM ec'\<rparr>)), el) else Inr (None, el\<lparr>el_manager := ECM ec'\<rparr>)))"
    using None dec i em
    by (simp add: encoder_known_def Let_def reject_on_encoder_cache_embed_mismatch_def get_cached_num_encoder_embeds_def
        bind_res_assoc case_prod_unfold split: option.split cong: if_cong)
  show ?thesis
  proof (cases "ec_cached ec (hash_at r i)")
    case None
    with dom K(1) have "encoder_known sc r s i el = Inr (None, el)" unfolding run by (simp add: em [symmetric])
    then show ?thesis using None \<open>mm_hashes_to_schedule el (hash_at r i) = None\<close> by (simp add: domIff)
  next
    case (Some T)
    then obtain m where m: "num_embeds_by_hash ec (hash_at r i) = Some m" using dom by auto
    show ?thesis
    proof (cases "m = embeds_at r i")
      case False
      then show ?thesis using I em m unfolding run by force
    next
      case True
      from K(2) Some obtain ec' where
        k: "check_and_update_cache r i ec = Inr (True, ec')" "ec_inv F ec'"
        "ec_cached ec' = (ec_cached ec)(hash_at r i \<mapsto> insert (request_id r) (refs_of ec (hash_at r i)))"
        "num_free_slots ec' = num_free_slots ec" by auto
      let ?el = "el\<lparr>el_manager := ECM ec'\<rparr>"
      have refs: "refs_of ec' g = (if g = hash_at r i then insert (request_id r) (refs_of ec g) else refs_of ec g)" for g
        by (simp add: refs_of_def k(3))
      have "dom (ec_cached ec') = dom (ec_cached ec)" using Some by (auto simp: k(3))
      then have "room_ok F r ec' ?el" using R k(2,4) by (simp add: room_ok_def)
      moreover have "booked_ok r budget ?el" using B by (simp add: booked_ok_def)
      moreover have "\<forall>j \<in> insert i seen. covered r s e ec' ?el j" using C by (auto simp: covered_def refs)
      ultimately have "plan_ok F r s e budget (insert i seen) ?el" by (intro plan_ok_insert)
      moreover have "encoder_known sc r s i el = Inr (Some (Continue ?el), el)" unfolding run using True m k(1) by simp
      ultimately show ?thesis by blast
    qed
  qed
qed

lemma booked_add:
  assumes "booked_ok r budget el" and "i < length (mm_features r)" and "hash_at r i \<notin> dom (mm_hashes_to_schedule el)"
    and "int (embeds_at r i) \<le> el_compute_budget el"
  shows "booked_ok r budget (el\<lparr>mm_hashes_to_schedule := (mm_hashes_to_schedule el)(hash_at r i \<mapsto> embeds_at r i),
      external_load_encoder_input := external_load_encoder_input el @ [i],
      num_embeds_to_schedule := num_embeds_to_schedule el + embeds_at r i\<rparr>)"
    and "booked_ok r budget (el\<lparr>num_embeds_to_schedule := num_embeds_to_schedule el + embeds_at r i,
      el_compute_budget := el_compute_budget el - int (embeds_at r i),
      mm_hashes_to_schedule := (mm_hashes_to_schedule el)(hash_at r i \<mapsto> embeds_at r i),
      encoder_inputs_to_schedule := encoder_inputs_to_schedule el @ [i]\<rparr>)"
proof -
  have n: "hash_at r i \<notin> hash_at r ` set (booked el)" using assms(1,3) by (simp add: booked_ok_def)
  show "booked_ok r budget (el\<lparr>mm_hashes_to_schedule := (mm_hashes_to_schedule el)(hash_at r i \<mapsto> embeds_at r i),
      external_load_encoder_input := external_load_encoder_input el @ [i],
      num_embeds_to_schedule := num_embeds_to_schedule el + embeds_at r i\<rparr>)"
    using assms(1,2) n unfolding booked_ok_def by (simp add: image_Un) blast
  show "booked_ok r budget (el\<lparr>num_embeds_to_schedule := num_embeds_to_schedule el + embeds_at r i,
      el_compute_budget := el_compute_budget el - int (embeds_at r i),
      mm_hashes_to_schedule := (mm_hashes_to_schedule el)(hash_at r i \<mapsto> embeds_at r i),
      encoder_inputs_to_schedule := encoder_inputs_to_schedule el @ [i]\<rparr>)"
    using assms(1,2,4) n unfolding booked_ok_def by (simp add: image_Un) blast
qed

lemma encoder_book_spec:
  assumes B: "booked_ok r budget el" and R: "room_ok F r ec el" and C: "\<forall>j \<in> seen. covered r s e ec el j"
    and i: "i < length (mm_features r)" and M: "masks_ok r"
    and ov: "mm_start (mm_features r ! i) < e" "s < mm_end (mm_features r ! i)"
    and nh: "hash_at r i \<notin> dom (ec_cached ec)" "hash_at r i \<notin> dom (mm_hashes_to_schedule el)"
    and room: "int (embeds_at r i) + int (num_embeds_to_schedule el) \<le> num_free_slots ec"
    and bud: "int (embeds_at r i) \<le> el_compute_budget el"
  shows "\<exists>el'. encoder_book sc r s e i el = Inr el' \<and> plan_ok F r s e budget (insert i seen) el'"
proof -
  let ?p = "mm_position (mm_features r ! i)"
  from embeds_range_spec [OF M i ov] obtain a b where
    ab: "get_embeds_indices_in_range ?p (max 0 (int s - int (offset ?p)))
      (min (int (placeholder_length ?p)) (int e - int (offset ?p))) = Inr (a, b)" "needs r i s e \<longrightarrow> b - a \<noteq> 0" by blast
  note add = booked_add [OF B i nh(2) bud]
  show ?thesis
  proof (cases "b - a = 0")
    case True
    then have "encoder_book sc r s e i el = Inr el" using ab(1) by (simp add: encoder_book_def Let_def)
    moreover have "\<forall>j \<in> insert i seen. covered r s e ec el j" using C ab(2) True by (auto simp: covered_def)
    ultimately show ?thesis using plan_ok_insert [OF B R] by blast
  next
    case False
    have "\<exists>el'. encoder_book sc r s e i el = Inr el' \<and> booked_ok r budget el' \<and> el_manager el' = el_manager el \<and>
        dom (mm_hashes_to_schedule el') = insert (hash_at r i) (dom (mm_hashes_to_schedule el)) \<and>
        num_embeds_to_schedule el' = num_embeds_to_schedule el + embeds_at r i \<and>
        set (booked el') = insert i (set (booked el)) \<and> duplicate_encoder_inputs el' = duplicate_encoder_inputs el"
    proof (cases "case has_cache_item sc of None \<Rightarrow> False | Some has \<Rightarrow> has (hash_at r i)")
      case True
      then show ?thesis using False ab(1) add(1) by (simp add: encoder_book_def Let_def)
    next
      case other: False
      let ?el = "el\<lparr>num_embeds_to_schedule := num_embeds_to_schedule el + embeds_at r i,
        el_compute_budget := el_compute_budget el - int (embeds_at r i),
        mm_hashes_to_schedule := (mm_hashes_to_schedule el)(hash_at r i \<mapsto> embeds_at r i),
        encoder_inputs_to_schedule := encoder_inputs_to_schedule el @ [i]\<rparr>"
      have "encoder_book sc r s e i el = Inr ?el"
        unfolding encoder_book_def Let_def using False ab(1) other by (simp split: option.splits)
      then show ?thesis using add(2) by (intro exI [of _ ?el]) simp
    qed
    then obtain el' where el': "encoder_book sc r s e i el = Inr el'" "booked_ok r budget el'"
      "el_manager el' = el_manager el"
      "dom (mm_hashes_to_schedule el') = insert (hash_at r i) (dom (mm_hashes_to_schedule el))"
      "num_embeds_to_schedule el' = num_embeds_to_schedule el + embeds_at r i"
      "set (booked el') = insert i (set (booked el))" "duplicate_encoder_inputs el' = duplicate_encoder_inputs el"
      by blast
    have "room_ok F r ec el'" using R nh(1) room el'(3-5) by (auto simp: room_ok_def)
    moreover have "\<forall>j \<in> insert i seen. covered r s e ec el' j"
    proof -
      have sub: "set (booked el' @ duplicate_encoder_inputs el') = insert i (set (booked el @ duplicate_encoder_inputs el))"
        unfolding set_append [of "booked el'"] set_append [of "booked el"] el'(6,7) by simp
      show ?thesis using C unfolding covered_def sub by auto
    qed
    ultimately have "plan_ok F r s e budget (insert i seen) el'" by (rule plan_ok_insert [OF el'(2)])
    then show ?thesis using el'(1) by simp
  qed
qed

lemma room_after_eviction:
  assumes "room_ok F r ec el" and "ec_inv F ec'" and "evicted k ec ec'" and "k \<le> length (freeable ec)"
  shows "room_ok F r ec' (el\<lparr>el_manager := ECM ec'\<rparr>)" and "refs_of ec' = refs_of ec"
    and "dom (ec_cached ec') \<subseteq> dom (ec_cached ec)"
proof -
  have S: "slots_ok ec" using assms(1) by (simp add: room_ok_def ec_inv_def)
  have c: "ec_cached ec' h = (if h \<in> fst ` set (take k (freeable ec)) then None else ec_cached ec h)" for h
    using assms(3) by (simp add: evicted_def)
  have gone: "ec_cached ec h = Some {}" if "h \<in> fst ` set (take k (freeable ec))" for h
    using that slots_okD(4) [OF S] by (fastforce dest: in_set_takeD)
  show "refs_of ec' = refs_of ec" using gone by (auto simp: fun_eq_iff refs_of_def c)
  show sub: "dom (ec_cached ec') \<subseteq> dom (ec_cached ec)"
    by (rule subsetI) (simp add: domIff c split: if_splits)
  have "num_free_slots ec \<le> num_free_slots ec'" using assms(3) by (simp add: evicted_def)
  then show "room_ok F r ec' (el\<lparr>el_manager := ECM ec'\<rparr>)" using assms(1,2) sub by (auto simp: room_ok_def)
qed

definition exit_ok :: "(string \<Rightarrow> mm_feature list) \<Rightarrow> request \<Rightarrow> nat \<Rightarrow> nat \<Rightarrow> int \<Rightarrow> nat set \<Rightarrow> nat \<Rightarrow> nat \<Rightarrow> loop_exit \<Rightarrow> bool" where
  "exit_ok F r s e budget seen i shift x \<longleftrightarrow> (case x of
     Continue el \<Rightarrow> plan_ok F r s e budget (insert i seen) el
   | Break el n \<Rightarrow> plan_ok F r s e budget seen el \<and> n = mm_start (mm_features r ! i) - (s + shift)
   | Reject el \<Rightarrow> request_id r \<in> el_mismatch el \<and> (\<exists>ec. el_manager el = ECM ec \<and> ec_inv F ec))"

lemma encoder_body_spec:
  assumes P: "plan_ok F r s (s + new_tokens + shift) budget seen el"
    and Fr: "of_request F r" and i: "i < length (mm_features r)" and M: "masks_ok r" and dec: "\<not> is_encoder_decoder sc"
    and ov: "mm_start (mm_features r ! i) < s + new_tokens + shift" "s < mm_end (mm_features r ! i)"
  shows "\<exists>x. encoder_body sc r s new_tokens shift i el = Inr x \<and> exit_ok F r s (s + new_tokens + shift) budget seen i shift x"
proof -
  let ?e = "s + new_tokens + shift" and ?p = "mm_position (mm_features r ! i)"
  from P obtain ec where B: "booked_ok r budget el" and R: "room_ok F r ec el"
    and C: "\<forall>j \<in> seen. covered r s ?e ec el j" by (auto simp: plan_ok_def)
  from encoder_known_spec [OF B R C Fr i dec]
  consider (go) el' where "encoder_known sc r s i el = Inr (Some (Continue el'), el)" "plan_ok F r s ?e budget (insert i seen) el'"
    | (rej) el' ec' where "encoder_known sc r s i el = Inr (Some (Reject el'), el)" "request_id r \<in> el_mismatch el'"
        "el_manager el' = ECM ec'" "ec_inv F ec'"
    | (new) "encoder_known sc r s i el = Inr (None, el)" "hash_at r i \<notin> dom (ec_cached ec)"
        "hash_at r i \<notin> dom (mm_hashes_to_schedule el)"
    by blast
  then show ?thesis
  proof cases
    case go
    then show ?thesis by (simp add: encoder_body_def exit_ok_def)
  next
    case rej
    then show ?thesis by (simp add: encoder_body_def exit_ok_def)
  next
    case new
    show ?thesis
    proof (cases "disable_chunked_mm_input sc \<and> s < offset ?p \<and> s + new_tokens < offset ?p + placeholder_length ?p")
      case True
      then have "encoder_body sc r s new_tokens shift i el = Inr (Break el (offset ?p - (s + shift)))"
        using new(1) by (simp add: encoder_body_def Let_def)
      then show ?thesis using P by (simp add: exit_ok_def)
    next
      case chunk: False
      have I: "ec_inv F ec" and em: "el_manager el = ECM ec" using R by (simp_all add: room_ok_def)
      from can_allocate_spec [OF I i, of "el_compute_budget el" "int (num_embeds_to_schedule el)"] obtain k ec' b where
        k: "can_allocate r i (el_compute_budget el) (int (num_embeds_to_schedule el)) ec = Inr (b, ec')"
        "ec_inv F ec'" "k \<le> length (freeable ec)" "evicted k ec ec'"
        "b \<longrightarrow> int (embeds_at r i) \<le> el_compute_budget el \<and>
           int (embeds_at r i) + int (num_embeds_to_schedule el) \<le> num_free_slots ec'" by blast
      note V = room_after_eviction [OF R k(2) k(4) k(3)]
      let ?el = "el\<lparr>el_manager := ECM ec'\<rparr>"
      have B': "booked_ok r budget ?el" using B by (simp add: booked_ok_def)
      have C': "\<forall>j \<in> seen. covered r s ?e ec' ?el j" using C by (simp add: covered_def V(2))
      show ?thesis
      proof (cases b)
        case False
        then have "encoder_body sc r s new_tokens shift i el = Inr (Break ?el (offset ?p - (s + shift)))"
          using new(1) chunk k(1) em by (auto simp: encoder_body_def Let_def)
        then show ?thesis using B' C' V(1) by (auto simp: exit_ok_def plan_ok_def)
      next
        case True
        from encoder_book_spec [OF B' V(1) C' i M ov, of sc] new(2,3) V(3) k(5) True obtain el3 where
          el3: "encoder_book sc r s ?e i ?el = Inr el3" "plan_ok F r s ?e budget (insert i seen) el3" by auto
        have "encoder_body sc r s new_tokens shift i el = Inr (Continue el3)"
          using new(1) chunk k(1) em True el3(1) by (auto simp: encoder_body_def Let_def)
        then show ?thesis using el3(2) by (simp add: exit_ok_def)
      qed
    qed
  qed
qed

section \<open>The loop and the booking\<close>

definition loop_ok :: "(string \<Rightarrow> mm_feature list) \<Rightarrow> request \<Rightarrow> nat \<Rightarrow> nat \<Rightarrow> int \<Rightarrow> nat set \<Rightarrow> nat list \<Rightarrow> nat \<Rightarrow> loop_exit \<Rightarrow> bool" where
  "loop_ok F r s e budget seen is shift x \<longleftrightarrow> (case x of
     Continue el \<Rightarrow> plan_ok F r s e budget (seen \<union> set is) el
   | Break el n \<Rightarrow> \<exists>pre i post. is = pre @ i # post \<and> plan_ok F r s e budget (seen \<union> set pre) el \<and>
       n = mm_start (mm_features r ! i) - (s + shift)
   | Reject el \<Rightarrow> request_id r \<in> el_mismatch el \<and> (\<exists>ec. el_manager el = ECM ec \<and> ec_inv F ec))"

lemma encoder_loop_spec:
  assumes "plan_ok F r s (s + new_tokens + shift) budget seen el"
    and "of_request F r" and "masks_ok r" and "\<not> is_encoder_decoder sc"
    and "\<And>i. i \<in> set is \<Longrightarrow> i < length (mm_features r) \<and> mm_start (mm_features r ! i) < s + new_tokens + shift \<and>
      s < mm_end (mm_features r ! i)"
  shows "\<exists>x. encoder_loop_from sc r s new_tokens shift is el = Inr x \<and>
    loop_ok F r s (s + new_tokens + shift) budget seen is shift x"
  using assms(1,5)
proof (induction "is" arbitrary: seen el)
  case Nil
  then show ?case by (simp add: loop_ok_def)
next
  case (Cons i "is")
  let ?e = "s + new_tokens + shift"
  have g: "i < length (mm_features r)" "mm_start (mm_features r ! i) < ?e" "s < mm_end (mm_features r ! i)"
    using Cons.prems(2) [of i] by simp_all
  from encoder_body_spec [OF Cons.prems(1) assms(2) g(1) assms(3,4) g(2,3)] obtain x where
    x: "encoder_body sc r s new_tokens shift i el = Inr x" "exit_ok F r s ?e budget seen i shift x" by blast
  show ?case
  proof (cases x)
    case (Continue el')
    with x(2) have "plan_ok F r s ?e budget (insert i seen) el'" by (simp add: exit_ok_def)
    from Cons.IH [OF this] Cons.prems(2) obtain y where
      y: "encoder_loop_from sc r s new_tokens shift is el' = Inr y" "loop_ok F r s ?e budget (insert i seen) is shift y"
      by auto
    have "loop_ok F r s ?e budget seen (i # is) shift y"
    proof (cases y)
      case (Break el2 n)
      with y(2) obtain pre j post where "is = pre @ j # post" "plan_ok F r s ?e budget (insert i seen \<union> set pre) el2"
        "n = mm_start (mm_features r ! j) - (s + shift)" by (auto simp: loop_ok_def)
      then show ?thesis using Break by (force simp: loop_ok_def intro!: exI [of _ "i # pre"])
    qed (use y(2) in \<open>simp_all add: loop_ok_def\<close>)
    then show ?thesis using x(1) y(1) Continue by simp
  next
    case (Break el' n)
    have "encoder_loop_from sc r s new_tokens shift (i # is) el = Inr x" using x(1) Break by simp
    moreover have "loop_ok F r s ?e budget seen (i # is) shift x"
      using x(2) Break unfolding loop_ok_def exit_ok_def by (auto intro!: exI [of _ "[]"])
    ultimately show ?thesis by blast
  next
    case (Reject el')
    then show ?thesis using x by (simp add: loop_ok_def exit_ok_def)
  qed
qed

lemma allocate_loop:
  assumes "of_request F r" and "ec_inv F ec" and "\<forall>i \<in> set is. i < length (mm_features r)"
    and "distinct (map (hash_at r) is)" and "hash_at r ` set is \<inter> dom (ec_cached ec) = {}"
    and "int (sum_list (map (embeds_at r) is)) \<le> num_free_slots ec"
  shows "\<exists>ec' told'. for_res (\<lambda>i (em, told).
      bind_res (em_allocate r i em) (\<lambda>em'. Inr (em', if has_cache_item sc = None then told else told @ [i])))
      is (ECM ec, told) = Inr (ECM ec', told') \<and> ec_inv F ec' \<and>
    (\<forall>i \<in> set is. request_id r \<in> refs_of ec' (hash_at r i)) \<and> (\<forall>h. refs_of ec h \<subseteq> refs_of ec' h) \<and>
    dom (ec_cached ec') = dom (ec_cached ec) \<union> hash_at r ` set is \<and>
    told' = told @ (if has_cache_item sc = None then [] else is)"
  using assms(2-6)
proof (induction "is" arbitrary: ec told)
  case (Cons i "is")
  have i: "i < length (mm_features r)" using Cons.prems(2) by simp
  have new: "ec_cached ec (hash_at r i) = None" using Cons.prems(4) by auto
  have room: "int (embeds_at r i) \<le> num_free_slots ec" using Cons.prems(5) by simp
  from ec_allocate_spec [OF Cons.prems(1) assms(1) i new room] obtain ec1 where
    1: "ec_allocate r i ec = Inr ec1" "ec_inv F ec1" "ec_cached ec1 = (ec_cached ec)(hash_at r i \<mapsto> {request_id r})"
    "num_free_slots ec1 = num_free_slots ec - int (embeds_at r i)" by blast
  have r1: "refs_of ec1 h = (if h = hash_at r i then {request_id r} else refs_of ec h)" for h
    by (simp add: refs_of_def 1(3))
  have r0: "refs_of ec (hash_at r i) = {}" by (simp add: refs_of_def new)
  have "\<forall>i \<in> set is. i < length (mm_features r)" "distinct (map (hash_at r) is)"
    "hash_at r ` set is \<inter> dom (ec_cached ec1) = {}" "int (sum_list (map (embeds_at r) is)) \<le> num_free_slots ec1"
    using Cons.prems by (auto simp: 1(3,4))
  from Cons.IH [OF 1(2) this, of "if has_cache_item sc = None then told else told @ [i]"] obtain ec' told' where
    2: "for_res (\<lambda>i (em, told).
      bind_res (em_allocate r i em) (\<lambda>em'. Inr (em', if has_cache_item sc = None then told else told @ [i])))
      is (ECM ec1, if has_cache_item sc = None then told else told @ [i]) = Inr (ECM ec', told')" "ec_inv F ec'"
    "\<forall>i \<in> set is. request_id r \<in> refs_of ec' (hash_at r i)" "\<forall>h. refs_of ec1 h \<subseteq> refs_of ec' h"
    "dom (ec_cached ec') = dom (ec_cached ec1) \<union> hash_at r ` set is"
    "told' = (if has_cache_item sc = None then told else told @ [i]) @ (if has_cache_item sc = None then [] else is)"
    by blast
  have "request_id r \<in> refs_of ec' (hash_at r i)" using 2(4) r1 [of "hash_at r i"] by auto
  moreover have "refs_of ec h \<subseteq> refs_of ec' h" for h using 2(4) r1 [of h] r0 by (cases "h = hash_at r i") auto
  moreover have "dom (ec_cached ec') = dom (ec_cached ec) \<union> hash_at r ` set (i # is)" using 2(5) by (auto simp: 1(3))
  moreover have "told' = told @ (if has_cache_item sc = None then [] else i # is)" using 2(6) by simp
  ultimately show ?case using 1(1) 2(1-3) by (intro exI [of _ ec'] exI [of _ told']) simp
qed simp

lemma duplicate_loop:
  assumes "of_request F r" and "ec_inv F ec" and "\<forall>i \<in> set is. i < length (mm_features r)"
    and "hash_at r ` set is \<subseteq> dom (ec_cached ec)"
  shows "\<exists>ec'. for_res (\<lambda>i em. bind_res (em_check_and_update_cache r i em) (\<lambda>(_, em'). Inr em')) is (ECM ec) =
      Inr (ECM ec') \<and> ec_inv F ec' \<and>
    (\<forall>i \<in> set is. request_id r \<in> refs_of ec' (hash_at r i)) \<and> (\<forall>h. refs_of ec h \<subseteq> refs_of ec' h)"
  using assms(2-4)
proof (induction "is" arbitrary: ec)
  case (Cons i "is")
  have i: "i < length (mm_features r)" and hit: "ec_cached ec (hash_at r i) \<noteq> None" using Cons.prems by auto
  from check_and_update_cache_spec(2) [OF Cons.prems(1) assms(1) i hit] obtain ec1 where
    1: "check_and_update_cache r i ec = Inr (True, ec1)" "ec_inv F ec1"
    "ec_cached ec1 = (ec_cached ec)(hash_at r i \<mapsto> insert (request_id r) (refs_of ec (hash_at r i)))" by blast
  have r1: "refs_of ec1 h = (if h = hash_at r i then insert (request_id r) (refs_of ec h) else refs_of ec h)" for h
    by (simp add: refs_of_def 1(3))
  have "hash_at r ` set is \<subseteq> dom (ec_cached ec1)" using Cons.prems(3) by (auto simp: 1(3))
  from Cons.IH [OF 1(2) _ this] Cons.prems(2) obtain ec' where
    2: "for_res (\<lambda>i em. bind_res (em_check_and_update_cache r i em) (\<lambda>(_, em'). Inr em')) is (ECM ec1) = Inr (ECM ec')"
    "ec_inv F ec'" "\<forall>i \<in> set is. request_id r \<in> refs_of ec' (hash_at r i)" "\<forall>h. refs_of ec1 h \<subseteq> refs_of ec' h" by auto
  have "request_id r \<in> refs_of ec' (hash_at r i)" using 2(4) r1 [of "hash_at r i"] by auto
  moreover have "refs_of ec h \<subseteq> refs_of ec' h" for h using 2(4) r1 [of h] by (cases "h = hash_at r i") auto
  ultimately show ?case using 1(1) 2(1-3) by (intro exI [of _ ec']) simp
qed simp

lemma allocate_spec:
  assumes "of_request F r" and B: "booked_ok r budget el" and R: "room_ok F r ec el"
  shows "\<exists>ec' told. allocate_encoder_inputs sc r (booked el) (duplicate_encoder_inputs el) (ECM ec) = Inr (ECM ec', told) \<and>
    ec_inv F ec' \<and> (\<forall>i \<in> set (booked el @ duplicate_encoder_inputs el). request_id r \<in> refs_of ec' (hash_at r i)) \<and>
    (\<forall>h. refs_of ec h \<subseteq> refs_of ec' h) \<and> told = (if has_cache_item sc = None then [] else booked el)"
proof -
  have b: "\<forall>i \<in> set (booked el). i < length (mm_features r)" "\<forall>i \<in> set (duplicate_encoder_inputs el). i < length (mm_features r)"
    "distinct (map (hash_at r) (booked el))" "hash_at r ` set (duplicate_encoder_inputs el) \<subseteq> hash_at r ` set (booked el)"
    using B unfolding booked_ok_def by auto
  have c: "hash_at r ` set (booked el) \<inter> dom (ec_cached ec) = {}" "int (sum_list (map (embeds_at r) (booked el))) \<le> num_free_slots ec"
    using B R unfolding booked_ok_def room_ok_def by auto
  have I: "ec_inv F ec" using R by (simp add: room_ok_def)
  from allocate_loop [OF assms(1) I b(1,3) c, of sc "[]"] obtain ec1 told where
    1: "for_res (\<lambda>i (em, told).
      bind_res (em_allocate r i em) (\<lambda>em'. Inr (em', if has_cache_item sc = None then told else told @ [i])))
      (booked el) (ECM ec, []) = Inr (ECM ec1, told)" "ec_inv F ec1"
    "\<forall>i \<in> set (booked el). request_id r \<in> refs_of ec1 (hash_at r i)" "\<forall>h. refs_of ec h \<subseteq> refs_of ec1 h"
    "dom (ec_cached ec1) = dom (ec_cached ec) \<union> hash_at r ` set (booked el)"
    "told = [] @ (if has_cache_item sc = None then [] else booked el)" by blast
  have "hash_at r ` set (duplicate_encoder_inputs el) \<subseteq> dom (ec_cached ec1)" using b(4) 1(5) by blast
  from duplicate_loop [OF assms(1) 1(2) b(2) this] obtain ec2 where
    2: "for_res (\<lambda>i em. bind_res (em_check_and_update_cache r i em) (\<lambda>(_, em'). Inr em')) (duplicate_encoder_inputs el) (ECM ec1) = Inr (ECM ec2)"
    "ec_inv F ec2" "\<forall>i \<in> set (duplicate_encoder_inputs el). request_id r \<in> refs_of ec2 (hash_at r i)"
    "\<forall>h. refs_of ec1 h \<subseteq> refs_of ec2 h" by blast
  have run: "allocate_encoder_inputs sc r (booked el) (duplicate_encoder_inputs el) (ECM ec) = Inr (ECM ec2, told)"
    unfolding allocate_encoder_inputs_def 1(1) using 2(1) by simp
  have "\<forall>i \<in> set (booked el @ duplicate_encoder_inputs el). request_id r \<in> refs_of ec2 (hash_at r i)"
    using 1(3) 2(3,4) by (simp only: set_append) blast
  moreover have "\<forall>h. refs_of ec h \<subseteq> refs_of ec2 h" using 1(4) 2(4) by blast
  ultimately show ?thesis using run 2(2) 1(6) by blast
qed

section \<open>Properties\<close>

lemma window_spec:
  assumes "mm_sorted (mm_features r)" and "get_mm_features_in_window (mm_features r) s e = (lo, hi)"
  shows "i \<in> set [lo..<hi] \<Longrightarrow> i < length (mm_features r) \<and> mm_start (mm_features r ! i) < e \<and> s < mm_end (mm_features r ! i)"
    and "i < length (mm_features r) \<Longrightarrow> needs r i s e \<Longrightarrow> i \<in> set [lo..<hi]"
proof -
  note K = mm_sorted_keys [OF assms(1)]
  note L = bisect_left_spec [OF K(1), where x = "s + 1"] and H = bisect_left_spec [OF K(2), where x = e]
  have lo: "lo = bisect_left mm_end (mm_features r) (s + 1)" and hi: "hi = bisect_left mm_start (mm_features r) e"
    using assms(2) by (simp_all add: get_mm_features_in_window_def)
  show "i < length (mm_features r) \<and> mm_start (mm_features r ! i) < e \<and> s < mm_end (mm_features r ! i)"
    if "i \<in> set [lo..<hi]"
  proof -
    have "i < length (mm_features r)" using that H(1) hi by simp
    then show ?thesis using that H(2) [where i = i] L(3) [where i = i] by (simp add: lo hi)
  qed
  show "i \<in> set [lo..<hi]" if "i < length (mm_features r)" "needs r i s e"
  proof -
    from that(2) obtain k where "s \<le> k" "k < e" "mm_start (mm_features r ! i) \<le> k" "k < mm_end (mm_features r ! i)"
      by (auto simp: needs_def)
    then have "\<not> i < lo" "\<not> hi \<le> i" using L(2) [where i = i] H(3) [where i = i] that(1) by (auto simp: lo hi)
    then show ?thesis by simp
  qed
qed

text \<open>What a plan promises: booking it cannot fail, and afterwards the request holds every encoder
  output its token window needs.\<close>

definition plan_ready :: "(string \<Rightarrow> mm_feature list) \<Rightarrow> encoder_sched \<Rightarrow> request \<Rightarrow> nat \<Rightarrow> nat \<Rightarrow> encoder_plan \<Rightarrow> bool" where
  "plan_ready F sc r computed shift pl \<longleftrightarrow>
     (\<exists>ec told. allocate_encoder_inputs sc r (pl_inputs pl @ pl_external pl) (pl_duplicates pl) (pl_manager pl) =
        Inr (ECM ec, told) \<and> ec_inv F ec \<and>
        (0 < pl_new_tokens pl \<longrightarrow> (\<forall>i < length (mm_features r).
           needs r i computed (computed + pl_new_tokens pl + shift) \<longrightarrow> request_id r \<in> refs_of ec (hash_at r i))))"

lemma plan_of_ready:
  assumes "of_request F r" and "plan_ok F r s e budget seen el" and "s + n + shift \<le> e"
    and "\<And>i. 0 < n \<Longrightarrow> i < length (mm_features r) \<Longrightarrow> needs r i s (s + n + shift) \<Longrightarrow> i \<in> seen"
  shows "plan_ready F sc r s shift (plan_of el n)"
    and "pl_budget (plan_of el n) = budget - int (sum_list (map (embeds_at r) (pl_inputs (plan_of el n))))"
    and "0 \<le> budget \<Longrightarrow> 0 \<le> pl_budget (plan_of el n)"
proof -
  from assms(2) obtain ec where B: "booked_ok r budget el" and R: "room_ok F r ec el"
    and C: "\<forall>i \<in> seen. covered r s e ec el i" by (auto simp: plan_ok_def)
  from allocate_spec [OF assms(1) B R, of sc] obtain ec' told where
    a: "allocate_encoder_inputs sc r (booked el) (duplicate_encoder_inputs el) (ECM ec) = Inr (ECM ec', told)" "ec_inv F ec'"
    "\<forall>i \<in> set (booked el @ duplicate_encoder_inputs el). request_id r \<in> refs_of ec' (hash_at r i)"
    "\<forall>h. refs_of ec h \<subseteq> refs_of ec' h" by blast
  have em: "el_manager el = ECM ec" using R by (simp add: room_ok_def)
  have "request_id r \<in> refs_of ec' (hash_at r i)"
    if "0 < n" "i < length (mm_features r)" "needs r i s (s + n + shift)" for i
  proof -
    have "covered r s e ec el i" using C assms(4) [OF that] by blast
    moreover have "needs r i s e" using needs_mono [OF that(3) assms(3)] .
    ultimately show ?thesis using a(3,4) unfolding covered_def by blast
  qed
  then show "plan_ready F sc r s shift (plan_of el n)"
    using a(1,2) em by (auto simp: plan_ready_def plan_of_def)
  show "pl_budget (plan_of el n) = budget - int (sum_list (map (embeds_at r) (pl_inputs (plan_of el n))))"
    "0 \<le> budget \<Longrightarrow> 0 \<le> pl_budget (plan_of el n)"
    using B by (simp_all add: booked_ok_def plan_of_def)
qed

lemma empty_plan_ready:
  "ec_inv F ec \<Longrightarrow> n = 0 \<or> mm_features r = [] \<Longrightarrow> plan_ready F sc r s shift (empty_plan n b (ECM ec) mis)"
  by (auto simp: plan_ready_def empty_plan_def allocate_encoder_inputs_def)

lemma try_schedule_spec:
  assumes "of_request F r" and "ec_inv F ec" and "mm_sorted (mm_features r)" and "masks_ok r"
    and "\<not> is_encoder_decoder sc"
  shows "\<exists>pl. try_schedule_encoder_inputs sc r computed new_tokens budget shift (ECM ec) mis = Inr pl \<and>
    pl_new_tokens pl \<le> new_tokens \<and> plan_ready F sc r computed shift pl \<and>
    (pl_budget pl = budget - int (sum_list (map (embeds_at r) (pl_inputs pl))) \<and> (0 \<le> budget \<longrightarrow> 0 \<le> pl_budget pl) \<or>
     pl_new_tokens pl = 0 \<and> pl_inputs pl = [] \<and> pl_external pl = [] \<and> request_id r \<in> pl_mismatch pl)"
proof (cases "new_tokens = 0 \<or> length (mm_features r) = 0")
  case True
  then show ?thesis using empty_plan_ready [OF assms(2), of new_tokens r sc computed shift budget mis]
    by (auto simp: try_schedule_encoder_inputs_def empty_plan_def)
next
  case False
  let ?e = "computed + new_tokens + shift" and ?fs = "mm_features r"
  obtain lo hi where w: "get_mm_features_in_window ?fs computed ?e = (lo, hi)" by (metis surj_pair)
  note W = window_spec [OF assms(3) w]
  let ?el = "\<lparr>el_manager = ECM ec, el_mismatch = mis, encoder_inputs_to_schedule = [],
    external_load_encoder_input = [], duplicate_encoder_inputs = [],
    mm_hashes_to_schedule = Map.empty, num_embeds_to_schedule = 0, el_compute_budget = budget\<rparr>"
  have "0 \<le> num_free_slots ec" using assms(2) slots_okD(7) by (auto simp: ec_inv_def)
  then have "plan_ok F r computed ?e budget {} ?el"
    using assms(2) by (auto simp: plan_ok_def booked_ok_def room_ok_def)
  from encoder_loop_spec [OF this assms(1,4,5) W(1)] obtain x where
    x: "encoder_loop_from sc r computed new_tokens shift [lo..<hi] ?el = Inr x"
    "loop_ok F r computed ?e budget {} [lo..<hi] shift x" by blast
  have run: "try_schedule_encoder_inputs sc r computed new_tokens budget shift (ECM ec) mis =
      Inr (case x of Continue el' \<Rightarrow> plan_of el' new_tokens | Break el' n \<Rightarrow> plan_of el' n
         | Reject el' \<Rightarrow> empty_plan 0 (el_compute_budget el') (el_manager el') (el_mismatch el'))"
    using False x(1) w assms(5) by (simp add: try_schedule_encoder_inputs_def Let_def)
  show ?thesis
  proof (cases x)
    case (Continue el)
    with x(2) have P: "plan_ok F r computed ?e budget (set [lo..<hi]) el" by (simp add: loop_ok_def)
    note Q = plan_of_ready [OF assms(1) P, of new_tokens shift, OF _ W(2)]
    show ?thesis using run Continue Q by (simp add: plan_of_def)
  next
    case (Break el n)
    with x(2) obtain pre i post where b: "[lo..<hi] = pre @ i # post" "plan_ok F r computed ?e budget (set pre) el"
      "n = mm_start (?fs ! i) - (computed + shift)" by (auto simp: loop_ok_def)
    have i: "i \<in> set [lo..<hi]" using b(1) by simp
    have le: "n \<le> new_tokens" using W(1) [OF i] b(3) by linarith
    have in_pre: "j \<in> set pre" if "0 < n" "j < length ?fs" "needs r j computed (computed + n + shift)" for j
    proof (rule ccontr)
      assume "j \<notin> set pre"
      have "j \<in> set [lo..<hi]" using W(2) that needs_mono [OF that(3)] le by simp
      moreover have "sorted_wrt (<) [lo..<hi]" by simp
      ultimately have "i \<le> j" using \<open>j \<notin> set pre\<close> unfolding b(1) by (auto simp: sorted_wrt_append)
      then have "mm_start (?fs ! i) \<le> mm_start (?fs ! j)"
        using sorted_nth_mono [OF mm_sorted_keys(2) [OF assms(3)]] that(2) by simp
      moreover have "mm_start (?fs ! i) = computed + n + shift" using b(3) that(1) by simp
      ultimately show False using that(3) by (auto simp: needs_def)
    qed
    have "computed + n + shift \<le> ?e" using le by simp
    note Q = plan_of_ready [OF assms(1) b(2) this in_pre]
    show ?thesis using run Break Q le by (simp add: plan_of_def)
  next
    case (Reject el)
    then obtain ec' where "request_id r \<in> el_mismatch el" "el_manager el = ECM ec'" "ec_inv F ec'"
      using x(2) by (auto simp: loop_ok_def)
    then show ?thesis using run Reject empty_plan_ready [of F ec' 0 r sc computed shift "el_compute_budget el" "el_mismatch el"]
      by (simp add: empty_plan_def)
  qed
qed

abbreviation past :: "nat \<Rightarrow> request \<Rightarrow> int \<Rightarrow> nat \<Rightarrow> bool" where
  "past look r passed i \<equiv> int (mm_end (mm_features r ! i) + look) \<le> passed"

lemma free_inputs_loop:
  assumes "iterates order" and "of_request F r" and "\<not> is_encoder_decoder sc"
    and "ec_inv F ec" and "\<forall>i \<in> set is. i < length (mm_features r)"
  shows "\<exists>ec' told'. for_res (\<lambda>i s.
        if i \<ge> length (mm_features r) then Inl IndexError
        else let p = mm_position (mm_features r ! i)
             in if is_encoder_decoder sc \<and> num_computed_tokens r > 0 then free_encoder_input sc order r i s
                else if int (offset p + placeholder_length p + look) \<le> passed
                then free_encoder_input sc order r i s
                else Inr s) is (ECM ec, told) = Inr (ECM ec', told') \<and> ec_inv F ec' \<and>
    ids_of ec' (request_id r) = ids_of ec (request_id r) - {i \<in> set is. past look r passed i} \<and>
    (\<forall>x. x \<noteq> request_id r \<longrightarrow> ids_of ec' x = ids_of ec x)"
  using assms(4,5)
proof (induction "is" arbitrary: ec told)
  case (Cons i "is")
  have i: "i < length (mm_features r)" using Cons.prems(2) by simp
  show ?case
  proof (cases "past look r passed i")
    case True
    from ec_free_encoder_input_spec [OF assms(1) Cons.prems(1) assms(2) i] obtain ec1 where
      1: "ec_free_encoder_input order r i ec = Inr ec1" "ec_inv F ec1"
      "\<forall>x. ids_of ec1 x = (if x = request_id r then ids_of ec x - {i} else ids_of ec x)" by blast
    define told1 where "told1 = (if has_cache_item sc = None then told else told @ [i])"
    have step: "free_encoder_input sc order r i (ECM ec, told) = Inr (ECM ec1, told1)"
      using 1(1) by (simp add: free_encoder_input_def told1_def)
    from Cons.IH [OF 1(2), of told1] Cons.prems(2) show ?thesis
      using True i step assms(3) 1(3) by (auto simp: Let_def)
  next
    case False
    from Cons.IH [OF Cons.prems(1), of told] Cons.prems(2) show ?thesis
      using False i assms(3) by (auto simp: Let_def)
  qed
qed simp

text \<open>C35: For a request whose inputs are ordered and do not overlap, in any reachable state of the
  encoder cache, deciding which encoder inputs run in a step never raises and never lengthens the
  token window; booking the decision never trips an assertion of \<^verbatim>\<open>allocate\<close>; and afterwards the
  request holds the output of every encoder input that has an embedding in the window that was
  scheduled, look-ahead included. The compute budget drops by exactly the embeddings to run and
  stays non-negative, unless the request is rejected because an identifier was reused for content of
  another size.\<close>

theorem encoder_schedule_ready:
  assumes "iterates order" and "0 \<le> cap" and "ec_reach F order cap (ec, W)"
    and "of_request F r" and "mm_sorted (mm_features r)" and "masks_ok r" and "\<not> is_encoder_decoder sc"
  shows "\<exists>pl. try_schedule_encoder_inputs sc r computed new_tokens budget shift (ECM ec) mis = Inr pl \<and>
    pl_new_tokens pl \<le> new_tokens \<and>
    (\<exists>ec' told. allocate_encoder_inputs sc r (pl_inputs pl @ pl_external pl) (pl_duplicates pl) (pl_manager pl) =
       Inr (ECM ec', told) \<and> ec_inv F ec' \<and>
       (0 < pl_new_tokens pl \<longrightarrow> (\<forall>i < length (mm_features r).
          needs r i computed (computed + pl_new_tokens pl + shift) \<longrightarrow> request_id r \<in> refs_of ec' (hash_at r i)))) \<and>
    (pl_budget pl = budget - int (sum_list (map (embeds_at r) (pl_inputs pl))) \<and> (0 \<le> budget \<longrightarrow> 0 \<le> pl_budget pl) \<or>
     pl_new_tokens pl = 0 \<and> pl_inputs pl = [] \<and> pl_external pl = [] \<and> request_id r \<in> pl_mismatch pl)"
  using try_schedule_spec [OF assms(4) reach_inv(3) [OF assms(1-3)] assms(5-7), unfolded plan_ready_def] by blast

text \<open>C39: When the decoder has advanced, exactly the cached inputs it has passed by the look-ahead are
  released; the request keeps holding the output of every other cached input, also when a passed
  input showed the same item.\<close>

theorem free_encoder_inputs_keeps_needed:
  assumes "iterates order" and "0 \<le> cap" and "ec_reach F order cap (ec, W)"
    and "of_request F r" and "\<not> is_encoder_decoder sc"
  shows "\<exists>ec' told. free_encoder_inputs sc order look r passed (ECM ec) = Inr (ECM ec', told) \<and> ec_inv F ec' \<and>
    get_cached_input_ids r ec' = {i \<in> get_cached_input_ids r ec. \<not> past look r passed i} \<and>
    (\<forall>i \<in> get_cached_input_ids r ec. \<not> past look r passed i \<longrightarrow> request_id r \<in> refs_of ec' (hash_at r i))"
proof -
  note I = reach_inv [OF assms(1-3)]
  have o: "set (order (ids_of ec (request_id r))) = ids_of ec (request_id r)"
    using assms(1) finite_ids [OF I(2)] by (simp add: iterates_def)
  have lt: "\<forall>i \<in> set (order (ids_of ec (request_id r))). i < length (mm_features r)"
    unfolding o using I(2) assms(4) by (simp add: holds_ok_def of_request_def)
  obtain ec' told where
    e: "free_encoder_inputs sc order look r passed (ECM ec) = Inr (ECM ec', told)" "ec_inv F ec'"
    "ids_of ec' (request_id r) = ids_of ec (request_id r) - {i \<in> ids_of ec (request_id r). past look r passed i}"
  proof (cases "ids_of ec (request_id r) = {}")
    case True
    then show ?thesis using that [of ec "[]"] I(3) by (simp add: free_encoder_inputs_def get_cached_ids)
  next
    case False
    then show ?thesis
      using that free_inputs_loop [OF assms(1,4,5) I(3) lt, of look passed "[]"]
      by (auto simp: free_encoder_inputs_def get_cached_ids o)
  qed
  have "ids_of ec' (request_id r) = {i \<in> ids_of ec (request_id r). \<not> past look r passed i}" using e(3) by blast
  moreover have "request_id r \<in> refs_of ec' (hash_at r i)" if "i \<in> ids_of ec' (request_id r)" for i
    using e(2) that assms(4) by (auto simp: ec_inv_def holds_ok_def of_request_def)
  ultimately show ?thesis using e(1,2) by (intro exI [of _ ec'] exI [of _ told]) (simp add: get_cached_ids)
qed

text \<open>Witnesses: the request that shares an image with the one already cached.\<close>

definition demo_sched :: encoder_sched where
  "demo_sched = \<lparr>is_encoder_decoder = False, disable_chunked_mm_input = False, has_cache_item = None\<rparr>"

lemma demo_sorted: "mm_sorted (mm_features (demo_mm_request rid))" "masks_ok (demo_mm_request rid)"
  by (simp_all add: mm_sorted_def masks_ok_def demo_features_def)

theorem encoder_schedule_ready_witness:
  "\<exists>pl. try_schedule_encoder_inputs demo_sched (demo_mm_request ''b'') 0 6 9 0 (ECM demo_ec) {} = Inr pl \<and> pl_new_tokens pl \<le> 6"
proof -
  have "\<not> is_encoder_decoder demo_sched" "(0::int) \<le> 5" by (simp_all add: demo_sched_def)
  from encoder_schedule_ready [OF demo_iterates this(2) demo_reach demo_of_request [of "''b''"] demo_sorted this(1),
      where computed = 0 and new_tokens = 6 and budget = 9 and shift = 0 and mis = "{}"]
  show ?thesis by blast
qed

theorem free_encoder_inputs_keeps_needed_witness:
  "\<exists>ec' told. free_encoder_inputs demo_sched sorted_list_of_set 0 (demo_mm_request ''a'') 1 (ECM demo_ec) = Inr (ECM ec', told) \<and>
     get_cached_input_ids (demo_mm_request ''a'') ec' = {i \<in> get_cached_input_ids (demo_mm_request ''a'') demo_ec. \<not> past 0 (demo_mm_request ''a'') 1 i}"
proof -
  have "\<not> is_encoder_decoder demo_sched" "(0::int) \<le> 5" by (simp_all add: demo_sched_def)
  from free_encoder_inputs_keeps_needed [OF demo_iterates this(2) demo_reach demo_of_request [of "''a''"] this(1),
      where look = 0 and passed = 1]
  show ?thesis by blast
qed

end
