(* ===== verification/FreeBlockQueue.thy ===== *)
theory FreeBlockQueue
  imports VllmPrelude
begin

text \<open>
  The free list of KV cache blocks (\<^verbatim>\<open>KVCacheBlock\<close> and \<^verbatim>\<open>FreeKVCacheBlockQueue\<close> of
  \<^verbatim>\<open>src/vllm/v1/core/kv_cache_utils.py\<close>): a doubly linked list threaded through the
  block objects themselves, between a fake head and a fake tail. The model keeps the pointers;
  the relation \<open>fq_repr\<close> abstracts a heap to the list of free block indices, and every queue
  operation is shown to implement the list operation it stands for. The contract of the queue
  is the locale \<open>free_queue\<close>.
\<close>

section \<open>Blocks and the heap they live in\<close>

text \<open>
  A reference to a \<^verbatim>\<open>KVCacheBlock\<close> object: one of the two fake blocks, or the block at an
  index of the pool's block list.
\<close>

datatype bptr = Head | Tail | Blk nat

record kv_cache_block =
  block_id :: int
  ref_cnt :: int
  pool :: "nat option"
  block_hash :: "bytes option"
  block_hash_num_tokens :: "nat option"
  prev_free_block :: "bptr option"
  next_free_block :: "bptr option"
  is_null :: bool

text \<open>The constructor with its defaults.\<close>

definition KVCacheBlock :: "int \<Rightarrow> nat option \<Rightarrow> kv_cache_block" where
  "KVCacheBlock i pl =
     \<lparr>block_id = i, ref_cnt = 0, pool = pl, block_hash = None, block_hash_num_tokens = None,
      prev_free_block = None, next_free_block = None, is_null = False\<rparr>"

definition set_block_hash :: "kv_cache_block \<Rightarrow> bytes \<Rightarrow> nat option \<Rightarrow> kv_cache_block res" where
  "set_block_hash b h num_tokens =
     py_assert (block_hash b = None \<and> block_hash_num_tokens b = None)
       (Inr (b\<lparr>block_hash := Some h, block_hash_num_tokens := num_tokens\<rparr>))"

definition reset_hash :: "kv_cache_block \<Rightarrow> kv_cache_block" where
  "reset_hash b = b\<lparr>block_hash := None, block_hash_num_tokens := None\<rparr>"

text \<open>
  The queue object together with the blocks its links run through. The block pool extends this
  record, since it shares the block objects with its queue.
\<close>

record queue_heap =
  blocks :: "kv_cache_block list"
  fake_free_list_head :: kv_cache_block
  fake_free_list_tail :: kv_cache_block
  num_free_blocks :: int

fun deref :: "'a queue_heap_scheme \<Rightarrow> bptr \<Rightarrow> kv_cache_block" where
  "deref q Head = fake_free_list_head q"
| "deref q Tail = fake_free_list_tail q"
| "deref q (Blk i) = blocks q ! i"

fun upd_block :: "bptr \<Rightarrow> (kv_cache_block \<Rightarrow> kv_cache_block) \<Rightarrow>
    'a queue_heap_scheme \<Rightarrow> 'a queue_heap_scheme" where
  "upd_block Head f q = q\<lparr>fake_free_list_head := f (fake_free_list_head q)\<rparr>"
| "upd_block Tail f q = q\<lparr>fake_free_list_tail := f (fake_free_list_tail q)\<rparr>"
| "upd_block (Blk i) f q = q\<lparr>blocks := (blocks q)[i := f (blocks q ! i)]\<rparr>"

abbreviation nextp :: "'a queue_heap_scheme \<Rightarrow> bptr \<Rightarrow> bptr option" where
  "nextp q p \<equiv> next_free_block (deref q p)"

abbreviation prevp :: "'a queue_heap_scheme \<Rightarrow> bptr \<Rightarrow> bptr option" where
  "prevp q p \<equiv> prev_free_block (deref q p)"

definition set_next :: "bptr \<Rightarrow> bptr option \<Rightarrow> 'a queue_heap_scheme \<Rightarrow> 'a queue_heap_scheme" where
  "set_next p v = upd_block p (\<lambda>b. b\<lparr>next_free_block := v\<rparr>)"

definition set_prev :: "bptr \<Rightarrow> bptr option \<Rightarrow> 'a queue_heap_scheme \<Rightarrow> 'a queue_heap_scheme" where
  "set_prev p v = upd_block p (\<lambda>b. b\<lparr>prev_free_block := v\<rparr>)"

section \<open>The queue operations\<close>

text \<open>\<^verbatim>\<open>__init__\<close>: the constructor is given references to the blocks to be queued.\<close>

definition fq_init_link :: "bptr list \<Rightarrow> nat \<Rightarrow> 'a queue_heap_scheme \<Rightarrow> 'a queue_heap_scheme" where
  "fq_init_link bs i q =
     (let q1 = (if i > 0 then set_prev (bs ! i) (Some (bs ! (i - 1))) q else q)
      in if i + 1 < length bs then set_next (bs ! i) (Some (bs ! (i + 1))) q1 else q1)"

definition fq_init :: "bptr list \<Rightarrow> 'a queue_heap_scheme \<Rightarrow> 'a queue_heap_scheme" where
  "fq_init bs q =
     (let q1 = fold (fq_init_link bs) [0..<length bs] (q\<lparr>num_free_blocks := int (length bs)\<rparr>);
          q2 = q1\<lparr>fake_free_list_head := KVCacheBlock (- 1) None,
                 fake_free_list_tail := KVCacheBlock (- 1) None\<rparr>
      in if length bs > 0
         then set_next (last bs) (Some Tail) (set_prev Tail (Some (last bs))
                (set_prev (hd bs) (Some Head) (set_next Head (Some (hd bs)) q2)))
         else set_prev Tail (Some Head) (set_next Head (Some Tail) q2))"

definition popleft :: "'a queue_heap_scheme \<Rightarrow> (bptr \<times> 'a queue_heap_scheme) res" where
  "popleft q =
     (case nextp q Head of
        None \<Rightarrow> py_assert (num_free_blocks q = 0) (Inl ValueError)
      | Some first_block \<Rightarrow>
          if first_block = Tail then py_assert (num_free_blocks q = 0) (Inl ValueError)
          else (case nextp q first_block of
                  None \<Rightarrow> Inl RuntimeError
                | Some next_block \<Rightarrow>
                    let q1 = set_prev next_block (Some Head) (set_next Head (Some next_block) q);
                        q2 = set_prev first_block None (set_next first_block None q1)
                    in Inr (first_block, q2\<lparr>num_free_blocks := num_free_blocks q2 - 1\<rparr>)))"

fun popleft_n_loop :: "nat \<Rightarrow> bptr option \<Rightarrow> bptr list \<Rightarrow> 'a queue_heap_scheme \<Rightarrow>
    (bptr list \<times> bptr option \<times> 'a queue_heap_scheme) res" where
  "popleft_n_loop 0 cur ret q = Inr (ret, cur, q)"
| "popleft_n_loop (Suc k) None ret q = Inl AssertionError"
| "popleft_n_loop (Suc k) (Some b) ret q =
     popleft_n_loop k (nextp q b) (ret @ [b]) (set_next b None (set_prev b None q))"

definition connect_head :: "bptr option \<Rightarrow> 'a queue_heap_scheme \<Rightarrow> 'a queue_heap_scheme" where
  "connect_head c q =
     (case c of None \<Rightarrow> q | Some b \<Rightarrow> set_prev b (Some Head) (set_next Head (Some b) q))"

definition popleft_n :: "nat \<Rightarrow> 'a queue_heap_scheme \<Rightarrow> (bptr list \<times> 'a queue_heap_scheme) res" where
  "popleft_n n q =
     (if n = 0 then Inr ([], q)
      else py_assert (num_free_blocks q \<ge> int n)
        (let q1 = q\<lparr>num_free_blocks := num_free_blocks q - int n\<rparr>;
             curr_block = nextp q1 Head
         in if n = 1
            then (case curr_block of
                    None \<Rightarrow> Inl AssertionError
                  | Some b \<Rightarrow>
                      let next_block = nextp q1 b;
                          q2 = set_next b None (set_prev b None q1)
                      in Inr ([b], connect_head next_block q2))
            else bind_res (popleft_n_loop n curr_block [] q1)
                   (\<lambda>(ret, cur, q2). Inr (ret, connect_head cur q2))))"

definition remove_fq :: "bptr \<Rightarrow> 'a queue_heap_scheme \<Rightarrow> 'a queue_heap_scheme res" where
  "remove_fq b q =
     (case (prevp q b, nextp q b) of
        (Some prev_block, Some next_block) \<Rightarrow>
          let q1 = set_prev next_block (Some prev_block) (set_next prev_block (Some next_block) q);
              q2 = set_prev b None (set_next b None q1)
          in Inr (q2\<lparr>num_free_blocks := num_free_blocks q2 - 1\<rparr>)
      | _ \<Rightarrow> Inl RuntimeError)"

definition append_fq :: "bptr \<Rightarrow> 'a queue_heap_scheme \<Rightarrow> 'a queue_heap_scheme res" where
  "append_fq b q =
     (case prevp q Tail of
        None \<Rightarrow> Inl RuntimeError
      | Some last_block \<Rightarrow>
          let q1 = set_prev b (Some last_block) (set_next last_block (Some b) q);
              q2 = set_prev Tail (Some b) (set_next b (Some Tail) q1)
          in Inr (q2\<lparr>num_free_blocks := num_free_blocks q2 + 1\<rparr>))"

text \<open>The loop body both bulk insertions share: hook a block behind the previous one.\<close>

fun chain_after :: "bptr \<Rightarrow> bptr list \<Rightarrow> 'a queue_heap_scheme \<Rightarrow> bptr \<times> 'a queue_heap_scheme" where
  "chain_after prev [] q = (prev, q)"
| "chain_after prev (b # bs) q =
     chain_after b bs (set_next prev (Some b) (set_prev b (Some prev) q))"

definition prepend_n :: "bptr list \<Rightarrow> 'a queue_heap_scheme \<Rightarrow> 'a queue_heap_scheme res" where
  "prepend_n bs q =
     (if bs = [] then Inr q
      else (case nextp q Head of
              None \<Rightarrow> Inl AssertionError
            | Some first_block \<Rightarrow>
                let (prev_block, q1) = chain_after Head bs q;
                    q2 = set_prev first_block (Some prev_block)
                           (set_next prev_block (Some first_block) q1)
                in Inr (q2\<lparr>num_free_blocks := num_free_blocks q2 + int (length bs)\<rparr>)))"

definition append_n :: "bptr list \<Rightarrow> 'a queue_heap_scheme \<Rightarrow> 'a queue_heap_scheme res" where
  "append_n bs q =
     (if bs = [] then Inr q
      else (case prevp q Tail of
              None \<Rightarrow> Inl AssertionError
            | Some last_block \<Rightarrow>
                let (last_block', q1) = chain_after last_block bs q;
                    q2 = set_prev Tail (Some last_block') (set_next last_block' (Some Tail) q1)
                in Inr (q2\<lparr>num_free_blocks := num_free_blocks q2 + int (length bs)\<rparr>)))"

text \<open>
  The two traversals follow the links until a null link or the fake tail, which a damaged list
  need not have: they return \<^const>\<open>None\<close> where the source loops forever.
\<close>

partial_function (option) collect_free ::
    "'a queue_heap_scheme \<Rightarrow> bptr \<Rightarrow> bptr list \<Rightarrow> bptr list option" where
  "collect_free q cur ret =
     (case nextp q cur of None \<Rightarrow> Some ret | Some n \<Rightarrow> collect_free q n (ret @ [cur]))"

definition get_all_free_blocks :: "'a queue_heap_scheme \<Rightarrow> bptr list res option" where
  "get_all_free_blocks q =
     (case nextp q Head of
        None \<Rightarrow> Some (Inl RuntimeError)
      | Some b \<Rightarrow> map_option Inr (collect_free q b []))"

partial_function (option) iter_from ::
    "'a queue_heap_scheme \<Rightarrow> bptr option \<Rightarrow> bptr list option" where
  "iter_from q cur =
     (case cur of
        None \<Rightarrow> Some []
      | Some b \<Rightarrow>
          if b = Tail then Some []
          else Option.bind (iter_from q (nextp q b)) (\<lambda>r. Some (b # r)))"

definition iter_blocks_after :: "bptr option \<Rightarrow> 'a queue_heap_scheme \<Rightarrow> bptr list option" where
  "iter_blocks_after cursor q =
     (case cursor of None \<Rightarrow> iter_from q (nextp q Head) | Some c \<Rightarrow> iter_from q (nextp q c))"

section \<open>Pointer lemmas\<close>

fun valid_ptr :: "'a queue_heap_scheme \<Rightarrow> bptr \<Rightarrow> bool" where
  "valid_ptr q (Blk i) \<longleftrightarrow> i < length (blocks q)"
| "valid_ptr q _ \<longleftrightarrow> True"

lemma deref_upd_block:
  "valid_ptr q p \<Longrightarrow> deref (upd_block p f q) r = (if r = p then f (deref q p) else deref q r)"
  by (cases p; cases r) auto

lemma upd_block_frame [simp, frame]:
  "length (blocks (upd_block p f q)) = length (blocks q)"
  "num_free_blocks (upd_block p f q) = num_free_blocks q"
  "queue_heap.more (upd_block p f q) = queue_heap.more q"
  "valid_ptr (upd_block p f q) r = valid_ptr q r"
  by (cases p; cases r; simp)+

lemma deref_num_free [simp]: "deref (q\<lparr>num_free_blocks := n\<rparr>) p = deref q p"
  by (cases p) simp_all

lemma valid_ptr_num_free [simp]: "valid_ptr (q\<lparr>num_free_blocks := n\<rparr>) p = valid_ptr q p"
  by (cases p) simp_all

lemma next_set_next [simp]:
  "valid_ptr q p \<Longrightarrow> nextp (set_next p v q) r = (if r = p then v else nextp q r)"
  by (simp add: set_next_def deref_upd_block)

lemma prev_set_prev [simp]:
  "valid_ptr q p \<Longrightarrow> prevp (set_prev p v q) r = (if r = p then v else prevp q r)"
  by (simp add: set_prev_def deref_upd_block)

lemma upd_block_invalid: "\<not> valid_ptr q p \<Longrightarrow> upd_block p f q = q"
  by (cases p) (simp_all add: list_update_beyond)

lemma prev_set_next [simp]: "prevp (set_next p v q) r = prevp q r"
  by (cases "valid_ptr q p") (simp_all add: set_next_def deref_upd_block upd_block_invalid)

lemma next_set_prev [simp]: "nextp (set_prev p v q) r = nextp q r"
  by (cases "valid_ptr q p") (simp_all add: set_prev_def deref_upd_block upd_block_invalid)

lemma set_link_frame [simp, frame]:
  "length (blocks (set_next p v q)) = length (blocks q)"
  "length (blocks (set_prev p v q)) = length (blocks q)"
  "num_free_blocks (set_next p v q) = num_free_blocks q"
  "num_free_blocks (set_prev p v q) = num_free_blocks q"
  "valid_ptr (set_next p v q) r = valid_ptr q r"
  "valid_ptr (set_prev p v q) r = valid_ptr q r"
  by (simp_all add: set_next_def set_prev_def)

text \<open>
  Queue operations only rewrite links: the rest of every block, and whatever record the heap is
  extended with, stays as it was.
\<close>

definition unlink :: "kv_cache_block \<Rightarrow> kv_cache_block" where
  "unlink b = b\<lparr>prev_free_block := None, next_free_block := None\<rparr>"

definition links_only :: "'a queue_heap_scheme \<Rightarrow> 'a queue_heap_scheme \<Rightarrow> bool" where
  "links_only q q' \<longleftrightarrow>
     map unlink (blocks q') = map unlink (blocks q) \<and> queue_heap.more q' = queue_heap.more q"

lemma links_only_refl [simp, intro]: "links_only q q"
  by (simp add: links_only_def)

lemma links_only_trans [trans]: "links_only q q' \<Longrightarrow> links_only q' q'' \<Longrightarrow> links_only q q''"
  by (simp add: links_only_def)

lemma map_update_same: "(\<And>b. f (g b) = f b) \<Longrightarrow> map f (xs[i := g (xs ! i)]) = map f xs"
  by (cases "i < length xs")
    (auto intro!: nth_equalityI simp: nth_list_update list_update_beyond)

lemma unlink_links [simp]:
  "unlink (b\<lparr>next_free_block := v\<rparr>) = unlink b"
  "unlink (b\<lparr>prev_free_block := v\<rparr>) = unlink b"
  by (simp_all add: unlink_def)

lemma links_only_set_next [simp]: "links_only q (set_next p v q') = links_only q q'"
  by (cases p) (simp_all add: links_only_def set_next_def map_update_same)

lemma links_only_set_prev [simp]: "links_only q (set_prev p v q') = links_only q q'"
  by (cases p) (simp_all add: links_only_def set_prev_def map_update_same)

lemma links_only_num_free [simp]: "links_only q (q'\<lparr>num_free_blocks := n\<rparr>) = links_only q q'"
  by (simp add: links_only_def)

lemma links_only_left [simp]:
  "links_only (set_next p v q) q' = links_only q q'"
  "links_only (set_prev p v q) q' = links_only q q'"
  "links_only (q\<lparr>num_free_blocks := n\<rparr>) q' = links_only q q'"
  by (cases p; simp add: links_only_def set_next_def set_prev_def map_update_same)+

lemma links_only_nth:
  assumes "links_only q q'" and "i < length (blocks q)"
  shows "unlink (blocks q' ! i) = unlink (blocks q ! i)"
proof -
  from assms have "map unlink (blocks q') ! i = map unlink (blocks q) ! i"
    by (simp add: links_only_def)
  moreover have "length (blocks q') = length (blocks q)"
    using assms(1) by (metis links_only_def length_map)
  ultimately show ?thesis using assms(2) by simp
qed

lemma links_only_length: "links_only q q' \<Longrightarrow> length (blocks q') = length (blocks q)"
  by (metis links_only_def length_map)

lemma unlink_eqD:
  assumes "unlink b = unlink b'"
  shows "block_id b = block_id b'" "ref_cnt b = ref_cnt b'" "pool b = pool b'"
    "block_hash b = block_hash b'" "block_hash_num_tokens b = block_hash_num_tokens b'"
    "is_null b = is_null b'"
  using assms by (cases b; cases b'; simp add: unlink_def)+

declare deref.simps [simp del]

section \<open>Linked segments\<close>

fun linked :: "'a queue_heap_scheme \<Rightarrow> bptr list \<Rightarrow> bool" where
  "linked q (p # r # ps) \<longleftrightarrow> nextp q p = Some r \<and> prevp q r = Some p \<and> linked q (r # ps)"
| "linked q _ \<longleftrightarrow> True"

lemma linked_append:
  "A \<noteq> [] \<Longrightarrow> B \<noteq> [] \<Longrightarrow> linked q (A @ B) \<longleftrightarrow>
     linked q A \<and> nextp q (last A) = Some (hd B) \<and> prevp q (hd B) = Some (last A) \<and> linked q B"
proof (induction q A rule: linked.induct)
  case (1 q p r ps)
  then show ?case by simp
qed (auto simp: neq_Nil_conv)

lemma linked_cong:
  assumes "\<And>p. p \<in> set (butlast ps) \<Longrightarrow> nextp q' p = nextp q p"
    and "\<And>p. p \<in> set (tl ps) \<Longrightarrow> prevp q' p = prevp q p"
  shows "linked q' ps = linked q ps"
  using assms by (induction q ps rule: linked.induct) auto

lemma linked_num_free [simp]: "linked (q\<lparr>num_free_blocks := n\<rparr>) ps = linked q ps"
  by (rule linked_cong) simp_all

text \<open>The abstraction: the heap represents the free list \<open>xs\<close>.\<close>

definition fq_repr :: "'a queue_heap_scheme \<Rightarrow> nat list \<Rightarrow> bool" where
  "fq_repr q xs \<longleftrightarrow>
     linked q (Head # map Blk xs @ [Tail]) \<and> distinct xs \<and>
     (\<forall>i \<in> set xs. i < length (blocks q)) \<and>
     num_free_blocks q = int (length xs) \<and>
     prevp q Head = None \<and> nextp q Tail = None \<and>
     (\<forall>i < length (blocks q). i \<notin> set xs \<longrightarrow> nextp q (Blk i) = None \<and> prevp q (Blk i) = None)"

lemma chain_after_spec:
  assumes "distinct (prev # bs)" and "\<forall>p \<in> set (prev # bs). valid_ptr q p"
    and "chain_after prev bs q = (r, q')"
  shows "r = last (prev # bs) \<and> linked q' (prev # bs) \<and> links_only q q' \<and>
    num_free_blocks q' = num_free_blocks q \<and> (\<forall>p. valid_ptr q' p = valid_ptr q p) \<and>
    (\<forall>p. p \<notin> set (butlast (prev # bs)) \<longrightarrow> nextp q' p = nextp q p) \<and>
    (\<forall>p. p \<notin> set bs \<longrightarrow> prevp q' p = prevp q p)"
  using assms
proof (induction bs arbitrary: prev q)
  case Nil
  then show ?case by simp
next
  case (Cons b bs)
  let ?q1 = "set_next prev (Some b) (set_prev b (Some prev) q)"
  have eq: "chain_after b bs ?q1 = (r, q')" using Cons.prems(3) by simp
  have IH: "r = last (b # bs) \<and> linked q' (b # bs) \<and> links_only ?q1 q' \<and>
    num_free_blocks q' = num_free_blocks ?q1 \<and> (\<forall>p. valid_ptr q' p = valid_ptr ?q1 p) \<and>
    (\<forall>p. p \<notin> set (butlast (b # bs)) \<longrightarrow> nextp q' p = nextp ?q1 p) \<and>
    (\<forall>p. p \<notin> set bs \<longrightarrow> prevp q' p = prevp ?q1 p)"
    by (rule Cons.IH [OF _ _ eq]) (use Cons.prems in auto)
  have prev: "prev \<notin> set (butlast (b # bs))"
    using Cons.prems(1) by (auto dest: in_set_butlastD)
  have v: "valid_ptr q prev" "valid_ptr q b" using Cons.prems(2) by auto
  have "links_only q ?q1" by simp
  with IH have "links_only q q'" by (blast intro: links_only_trans)
  moreover have "linked q' (prev # b # bs)"
    using IH prev v Cons.prems(1) by (auto split: if_splits)
  ultimately show ?case using IH v by (auto split: if_splits)
qed

lemma linked_overlap:
  "A \<noteq> [] \<Longrightarrow> B \<noteq> [] \<Longrightarrow>
   linked q (A @ M @ B) \<longleftrightarrow> linked q A \<and> linked q (last A # M @ [hd B]) \<and> linked q B"
proof -
  assume ne: "A \<noteq> []" "B \<noteq> []"
  show ?thesis
  proof (cases "M = []")
    case True
    with ne show ?thesis by (simp add: linked_append)
  next
    case False
    with ne have "linked q (A @ M @ B) \<longleftrightarrow> linked q A \<and> nextp q (last A) = Some (hd M) \<and>
        prevp q (hd M) = Some (last A) \<and> linked q M \<and> nextp q (last M) = Some (hd B) \<and>
        prevp q (hd B) = Some (last M) \<and> linked q B"
      by (auto simp: linked_append)
    moreover have "linked q ([last A] @ M @ [hd B]) \<longleftrightarrow> nextp q (last A) = Some (hd M) \<and>
        prevp q (hd M) = Some (last A) \<and> linked q M \<and> nextp q (last M) = Some (hd B) \<and>
        prevp q (hd B) = Some (last M)"
      using False linked_append [of "[last A]" "M @ [hd B]" q] linked_append [of M "[hd B]" q]
      by auto
    ultimately show ?thesis by auto
  qed
qed

text \<open>
  Every operation replaces one run \<open>ms\<close> of the list by another run \<open>ns\<close>; what the pointer
  updates have to establish for that is collected here once.
\<close>

lemma fq_repr_splice:
  assumes repr: "fq_repr q (as @ ms @ bs)"
    and dist: "distinct (as @ ns @ bs)" and ns: "\<forall>i \<in> set ns. i < length (blocks q)"
    and len: "length (blocks q') = length (blocks q)"
    and num: "num_free_blocks q' = int (length (as @ ns @ bs))"
    and mid: "linked q' (last (Head # map Blk as) # map Blk ns @ [hd (map Blk bs @ [Tail])])"
    and nx: "\<And>p. p \<notin> Blk ` set ns \<union> Blk ` set ms \<union> {last (Head # map Blk as)} \<Longrightarrow>
      nextp q' p = nextp q p"
    and pv: "\<And>p. p \<notin> Blk ` set ns \<union> Blk ` set ms \<union> {hd (map Blk bs @ [Tail])} \<Longrightarrow>
      prevp q' p = prevp q p"
    and gone: "\<And>i. i \<in> set ms \<Longrightarrow> i \<notin> set ns \<Longrightarrow>
      nextp q' (Blk i) = None \<and> prevp q' (Blk i) = None"
  shows "fq_repr q' (as @ ns @ bs)"
proof -
  let ?A = "Head # map Blk as" and ?B = "map Blk bs @ [Tail]"
  have old: "linked q (?A @ map Blk ms @ ?B)" and distms: "distinct (as @ ms @ bs)"
    using repr by (simp_all add: fq_repr_def)
  have lastA: "last ?A \<notin> set (butlast ?A)" "last ?A \<noteq> Tail"
    "\<And>i. last ?A = Blk i \<Longrightarrow> i \<in> set as"
    using dist by (cases as rule: rev_cases; auto)+
  have hdB: "hd ?B \<notin> set (tl ?B)" "hd ?B \<noteq> Head" "\<And>i. hd ?B = Blk i \<Longrightarrow> i \<in> set bs"
    using dist by (cases bs; auto)+
  have A: "linked q' ?A = linked q ?A"
  proof (rule linked_cong)
    fix p assume p: "p \<in> set (butlast ?A)"
    then have "p \<in> set ?A" by (rule in_set_butlastD)
    with p lastA dist distms show "nextp q' p = nextp q p" by (intro nx) auto
  next
    fix p assume "p \<in> set (tl ?A)"
    with hdB dist distms show "prevp q' p = prevp q p" by (intro pv) auto
  qed
  have B: "linked q' ?B = linked q ?B"
  proof (rule linked_cong)
    fix p assume "p \<in> set (butlast ?B)"
    then obtain j where p: "p = Blk j" "j \<in> set bs" by auto
    with lastA(3) [of j] dist distms show "nextp q' p = nextp q p"
      by (intro nx) (auto simp: image_iff simp del: last.simps)
  next
    fix p assume p: "p \<in> set (tl ?B)"
    then have "p \<in> set ?B" by (rule list.set_sel(2) [rotated]) simp
    with p hdB dist distms show "prevp q' p = prevp q p" by (intro pv) auto
  qed
  from old have "linked q ?A" "linked q ?B"
    using linked_overlap [of ?A ?B q "map Blk ms"] by simp_all
  with A B mid have "linked q' (?A @ map Blk ns @ ?B)"
    by (subst linked_overlap) simp_all
  moreover have "nextp q' Tail = None" "prevp q' Head = None"
    using nx [of Tail] pv [of Head] lastA hdB repr by (auto simp: fq_repr_def image_iff)
  moreover have "nextp q' (Blk i) = None \<and> prevp q' (Blk i) = None"
    if i: "i < length (blocks q)" "i \<notin> set (as @ ns @ bs)" for i
  proof (cases "i \<in> set ms")
    case True
    with i gone show ?thesis by auto
  next
    case False
    with i repr have "nextp q (Blk i) = None \<and> prevp q (Blk i) = None"
      by (auto simp: fq_repr_def)
    moreover have "last ?A \<noteq> Blk i" "hd ?B \<noteq> Blk i" using i lastA(3) hdB(3) by auto
    then have "Blk i \<notin> Blk ` set ns \<union> Blk ` set ms \<union> {last ?A}"
      "Blk i \<notin> Blk ` set ns \<union> Blk ` set ms \<union> {hd ?B}" using False i by auto
    then have "nextp q' (Blk i) = nextp q (Blk i)" "prevp q' (Blk i) = prevp q (Blk i)"
      using nx pv by blast+
    ultimately show ?thesis by simp
  qed
  moreover have "\<forall>i \<in> set (as @ ns @ bs). i < length (blocks q)"
    using repr ns by (auto simp: fq_repr_def)
  ultimately show ?thesis using dist len num by (simp add: fq_repr_def)
qed

section \<open>Each operation implements its list operation\<close>

lemma fq_reprD:
  assumes "fq_repr q xs"
  shows "distinct xs" "num_free_blocks q = int (length xs)"
    "nextp q Head = Some (hd (map Blk xs @ [Tail]))"
    "prevp q Tail = Some (last (Head # map Blk xs))"
    "i \<in> set xs \<Longrightarrow> i < length (blocks q)"
    "i < length (blocks q) \<Longrightarrow> i \<notin> set xs \<Longrightarrow> nextp q (Blk i) = None"
    "i < length (blocks q) \<Longrightarrow> i \<notin> set xs \<Longrightarrow> prevp q (Blk i) = None"
    "nextp q Tail = None" "prevp q Head = None"
proof -
  have l: "linked q ([Head] @ (map Blk xs @ [Tail]))" using assms by (simp add: fq_repr_def)
  then show "nextp q Head = Some (hd (map Blk xs @ [Tail]))" by (subst (asm) linked_append) simp_all
  have "linked q ((Head # map Blk xs) @ [Tail])" using l by simp
  then show "prevp q Tail = Some (last (Head # map Blk xs))"
    by (subst (asm) linked_append) simp_all
qed (use assms in \<open>auto simp: fq_repr_def\<close>)

lemma fq_repr_links:
  assumes "fq_repr q (as @ x # bs)"
  shows "prevp q (Blk x) = Some (last (Head # map Blk as))"
    "nextp q (Blk x) = Some (hd (map Blk bs @ [Tail]))"
proof -
  have "linked q ((Head # map Blk as) @ [Blk x] @ (map Blk bs @ [Tail]))"
    using assms by (simp add: fq_repr_def)
  then have "linked q (last (Head # map Blk as) # [Blk x] @ [hd (map Blk bs @ [Tail])])"
    by (subst (asm) linked_overlap) simp_all
  then show "prevp q (Blk x) = Some (last (Head # map Blk as))"
    "nextp q (Blk x) = Some (hd (map Blk bs @ [Tail]))" by simp_all
qed

lemma hd_valid: "\<forall>i \<in> set bs. i < length (blocks q) \<Longrightarrow> valid_ptr q (hd (map Blk bs @ [Tail]))"
  by (cases bs) auto

lemma last_valid: "\<forall>i \<in> set as. i < length (blocks q) \<Longrightarrow> valid_ptr q (last (Head # map Blk as))"
  by (cases as rule: rev_cases) auto

lemma hd_seg_neq: "hd (map Blk bs @ [Tail]) \<noteq> Head"
  "i \<notin> set bs \<Longrightarrow> hd (map Blk bs @ [Tail]) \<noteq> Blk i"
  by (cases bs; auto)+

lemma last_seg_neq: "last (Head # map Blk as) \<noteq> Tail"
  "i \<notin> set as \<Longrightarrow> last (Head # map Blk as) \<noteq> Blk i"
  by (cases as rule: rev_cases; auto)+

lemmas seg_neq = hd_seg_neq hd_seg_neq [symmetric] last_seg_neq last_seg_neq [symmetric]

lemma remove_fq_repr:
  assumes repr: "fq_repr q (as @ x # bs)"
  shows "\<exists>q'. remove_fq (Blk x) q = Inr q' \<and> fq_repr q' (as @ bs) \<and> links_only q q'"
proof -
  define p r where "p = last (Head # map Blk as)" and "r = hd (map Blk bs @ [Tail])"
  have links: "prevp q (Blk x) = Some p" "nextp q (Blk x) = Some r"
    using fq_repr_links [OF repr] by (simp_all add: p_def r_def)
  have valid: "valid_ptr q p" "valid_ptr q r" "valid_ptr q (Blk x)"
    using repr hd_valid [of bs q] last_valid [of as q] by (auto simp: fq_repr_def p_def r_def)
  have dist: "distinct (as @ x # bs)" using repr by (simp add: fq_repr_def)
  have neq: "p \<noteq> Blk x" "r \<noteq> Blk x" using dist by (auto simp: p_def r_def seg_neq simp del: last.simps)
  define q1 where "q1 = set_prev (Blk x) None (set_next (Blk x) None
    (set_prev r (Some p) (set_next p (Some r) q)))"
  define q' where "q' = q1\<lparr>num_free_blocks := num_free_blocks q1 - 1\<rparr>"
  have "fq_repr q' (as @ [] @ bs)"
  proof (rule fq_repr_splice [where ms = "[x]"])
    show "fq_repr q (as @ [x] @ bs)" using repr by simp
  qed (use dist valid neq repr in \<open>auto simp: q'_def q1_def fq_repr_def p_def [symmetric]
      r_def [symmetric] simp del: last.simps\<close>)
  moreover have "remove_fq (Blk x) q = Inr q'"
    by (simp add: remove_fq_def links q'_def q1_def)
  moreover have "links_only q q'" by (simp add: q'_def q1_def)
  ultimately show ?thesis by simp
qed

lemma remove_fq_absent:
  assumes "fq_repr q xs" and "x < length (blocks q)" and "x \<notin> set xs"
  shows "remove_fq (Blk x) q = Inl RuntimeError"
  using fq_reprD(6,7) [OF assms(1) assms(2,3)] by (simp add: remove_fq_def)

lemma popleft_repr:
  assumes repr: "fq_repr q (x # xs)"
  shows "\<exists>q'. popleft q = Inr (Blk x, q') \<and> fq_repr q' xs \<and> links_only q q'"
proof -
  define r where "r = hd (map Blk xs @ [Tail])"
  have links: "nextp q Head = Some (Blk x)" "nextp q (Blk x) = Some r"
    using fq_reprD(3) [OF repr] fq_repr_links [of q "[]" x xs] repr by (simp_all add: r_def)
  have valid: "valid_ptr q r" "valid_ptr q (Blk x)"
    using repr hd_valid [of xs q] by (auto simp: fq_repr_def r_def)
  have dist: "distinct (x # xs)" using repr by (simp add: fq_repr_def)
  have neq: "r \<noteq> Blk x" "r \<noteq> Head" using dist by (auto simp: r_def seg_neq)
  define q1 where "q1 = set_prev (Blk x) None (set_next (Blk x) None
    (set_prev r (Some Head) (set_next Head (Some r) q)))"
  define q' where "q' = q1\<lparr>num_free_blocks := num_free_blocks q1 - 1\<rparr>"
  have "fq_repr q' ([] @ [] @ xs)"
  proof (rule fq_repr_splice [where ms = "[x]"])
    show "fq_repr q ([] @ [x] @ xs)" using repr by simp
  qed (use dist valid neq repr in \<open>auto simp: q'_def q1_def fq_repr_def r_def [symmetric]\<close>)
  moreover have "popleft q = Inr (Blk x, q')"
    using links by (simp add: popleft_def q'_def q1_def Let_def)
  moreover have "links_only q q'" by (simp add: q'_def q1_def)
  ultimately show ?thesis by simp
qed

lemma popleft_empty: "fq_repr q [] \<Longrightarrow> popleft q = Inl ValueError"
  using fq_reprD(2,3) [of q "[]"] by (simp add: popleft_def)

lemma popleft_n_loop_spec:
  assumes "distinct ms" and "\<forall>i \<in> set ms. i < length (blocks q)"
    and "linked q (map Blk ms @ [r])" and "r \<notin> Blk ` set ms"
  shows "\<exists>q'. popleft_n_loop (length ms) (Some (hd (map Blk ms @ [r]))) ret q =
      Inr (ret @ map Blk ms, Some r, q') \<and> links_only q q' \<and>
    num_free_blocks q' = num_free_blocks q \<and>
    (\<forall>p. nextp q' p = (if p \<in> Blk ` set ms then None else nextp q p)) \<and>
    (\<forall>p. prevp q' p = (if p \<in> Blk ` set ms then None else prevp q p))"
  using assms
proof (induction ms arbitrary: ret q)
  case Nil
  then show ?case by simp
next
  case (Cons m ms)
  let ?q1 = "set_next (Blk m) None (set_prev (Blk m) None q)"
  have v: "valid_ptr q (Blk m)" using Cons.prems by simp
  have l: "nextp q (Blk m) = Some (hd (map Blk ms @ [r]))" "linked q (map Blk ms @ [r])"
    using Cons.prems(3) by (cases ms; simp)+
  have "linked ?q1 (map Blk ms @ [r]) = linked q (map Blk ms @ [r])"
  proof (rule linked_cong)
    fix p assume "p \<in> set (butlast (map Blk ms @ [r]))"
    then show "nextp ?q1 p = nextp q p" using v Cons.prems(1) by auto
  next
    fix p assume "p \<in> set (tl (map Blk ms @ [r]))"
    then have "p \<in> set (map Blk ms @ [r])" by (rule list.set_sel(2) [rotated]) simp
    then show "prevp ?q1 p = prevp q p" using v Cons.prems(1,4) by auto
  qed
  then have "\<exists>q'. popleft_n_loop (length ms) (Some (hd (map Blk ms @ [r]))) (ret @ [Blk m]) ?q1 =
      Inr ((ret @ [Blk m]) @ map Blk ms, Some r, q') \<and> links_only ?q1 q' \<and>
    num_free_blocks q' = num_free_blocks ?q1 \<and>
    (\<forall>p. nextp q' p = (if p \<in> Blk ` set ms then None else nextp ?q1 p)) \<and>
    (\<forall>p. prevp q' p = (if p \<in> Blk ` set ms then None else prevp ?q1 p))"
    using Cons.prems l by (intro Cons.IH) auto
  then show ?case using v l by auto
qed

lemma popleft_n_repr:
  assumes repr: "fq_repr q (ms @ bs)"
  shows "\<exists>q'. popleft_n (length ms) q = Inr (map Blk ms, q') \<and> fq_repr q' bs \<and> links_only q q'"
proof (cases "ms = []")
  case True
  with repr show ?thesis by (auto simp: popleft_n_def)
next
  case ne: False
  define r q1 where "r = hd (map Blk bs @ [Tail])"
    and "q1 = q\<lparr>num_free_blocks := num_free_blocks q - int (length ms)\<rparr>"
  have "linked q ([Head] @ map Blk ms @ (map Blk bs @ [Tail]))"
    using repr by (simp add: fq_repr_def)
  then have "linked q ([Head] @ map Blk ms @ [r])"
    by (subst (asm) linked_overlap) (simp_all add: r_def)
  with ne have l: "linked q (map Blk ms @ [r])" and h: "nextp q Head = Some (hd (map Blk ms))"
    by (subst (asm) linked_append; simp)+
  have dist: "distinct (ms @ bs)" and len: "num_free_blocks q = int (length (ms @ bs))"
    and bound: "\<forall>i \<in> set (ms @ bs). i < length (blocks q)"
    using repr by (simp_all add: fq_repr_def)
  have r: "r \<notin> Blk ` set ms" "r \<noteq> Head" "valid_ptr q r"
    using dist bound by (cases bs; auto simp: r_def)+
  obtain q2 where loop: "popleft_n_loop (length ms) (Some (hd (map Blk ms @ [r]))) [] q1 =
      Inr ([] @ map Blk ms, Some r, q2)"
    and q2: "links_only q1 q2" "num_free_blocks q2 = num_free_blocks q1"
    "\<And>p. nextp q2 p = (if p \<in> Blk ` set ms then None else nextp q1 p)"
    "\<And>p. prevp q2 p = (if p \<in> Blk ` set ms then None else prevp q1 p)"
    using popleft_n_loop_spec [of ms q1 r "[]"] dist bound l r by (auto simp: q1_def)
  have v2: "valid_ptr q2 r"
    using q2(1) r(3) by (cases r) (simp_all add: q1_def links_only_length)
  have "popleft_n (length ms) q = Inr (map Blk ms, connect_head (Some r) q2)"
  proof (cases "length ms = 1")
    case True
    then obtain m where m: "ms = [m]" by (cases ms) auto
    then have "nextp q1 (Blk m) = Some r" using l by (simp add: q1_def)
    moreover have "q2 = set_next (Blk m) None (set_prev (Blk m) None q1)"
      using loop m by simp
    ultimately show ?thesis using len h by (simp add: popleft_n_def m flip: q1_def)
        (simp add: q1_def m)
  next
    case False
    have "q1 = q\<lparr>num_free_blocks := int (length bs)\<rparr>" using len by (simp add: q1_def)
    with len ne False loop h show ?thesis by (simp add: popleft_n_def)
  qed
  moreover have "fq_repr (connect_head (Some r) q2) ([] @ [] @ bs)"
  proof (rule fq_repr_splice [where ms = ms])
    show "fq_repr q ([] @ ms @ bs)" using repr by simp
  qed (use dist len r v2 q2 links_only_length [OF q2(1)] in
      \<open>auto simp: connect_head_def r_def [symmetric] q1_def\<close>)
  moreover have "links_only q (connect_head (Some r) q2)"
    using q2(1) links_only_trans [of q q1 q2] by (simp add: connect_head_def q1_def)
  ultimately show ?thesis by auto
qed

lemma popleft_n_short:
  assumes "fq_repr q xs" and "length xs < n"
  shows "popleft_n n q = Inl AssertionError"
  using assms by (simp add: popleft_n_def fq_repr_def)

lemma chain_repr:
  assumes repr: "fq_repr q (as @ bs)" and dist: "distinct (as @ ns @ bs)"
    and ns: "\<forall>i \<in> set ns. i < length (blocks q)"
  defines "p \<equiv> last (Head # map Blk as)" and "r \<equiv> hd (map Blk bs @ [Tail])"
  assumes chain: "chain_after p (map Blk ns) q = (l, q1)"
  defines "q2 \<equiv> set_prev r (Some l) (set_next l (Some r) q1)"
  defines "q' \<equiv> q2\<lparr>num_free_blocks := num_free_blocks q2 + int (length ns)\<rparr>"
  shows "fq_repr q' (as @ ns @ bs) \<and> links_only q q'"
proof -
  have valid: "valid_ptr q p" "valid_ptr q r"
    using repr hd_valid [of bs q] last_valid [of as q] by (auto simp: fq_repr_def p_def r_def)
  have pn: "p \<notin> Blk ` set ns" "r \<notin> Blk ` set ns" "p \<noteq> r"
    using dist by (cases as rule: rev_cases; cases bs; auto simp: p_def r_def)+
  have dp: "distinct (p # map Blk ns)" using pn dist by (simp add: distinct_map inj_on_def)
  have vp: "\<forall>x \<in> set (p # map Blk ns). valid_ptr q x" using valid ns by auto
  note spec = chain_after_spec [OF dp vp chain]
  note rest = spec [THEN conjunct2, THEN conjunct2, THEN conjunct2]
  have c: "l = last (p # map Blk ns)" "linked q1 (p # map Blk ns)" "links_only q q1"
    using spec by iprover+
  have c4: "num_free_blocks q1 = num_free_blocks q" and c5: "valid_ptr q1 x = valid_ptr q x" for x
    using rest by iprover+
  have c6: "x \<notin> set (butlast (p # map Blk ns)) \<Longrightarrow> nextp q1 x = nextp q x" for x
    using rest by iprover
  have c7: "x \<notin> set (map Blk ns) \<Longrightarrow> prevp q1 x = prevp q x" for x
    using rest by iprover
  have lin: "l \<in> set (p # map Blk ns)" using c(1) last_in_set [of "p # map Blk ns"] by simp
  then have l: "l \<in> insert p (Blk ` set ns)" "valid_ptr q1 l" using vp by (auto simp: c5)
  have notl: "l \<notin> set (butlast (p # map Blk ns))"
    using c(1) pn dist by (cases ns rule: rev_cases) (auto simp: image_iff)
  have "linked q2 (p # map Blk ns) = linked q1 (p # map Blk ns)"
    by (rule linked_cong) (use notl pn l valid c5 in \<open>auto simp: q2_def\<close>)
  then have "linked q2 ((p # map Blk ns) @ [r])"
    using c(1,2) l valid c5 by (subst linked_append) (auto simp: q2_def)
  then have mid: "linked q' (p # map Blk ns @ [r])" by (simp add: q'_def)
  have "fq_repr q' (as @ ns @ bs)"
  proof (rule fq_repr_splice [where ms = "[]"])
    show "linked q' (last (Head # map Blk as) # map Blk ns @ [hd (map Blk bs @ [Tail])])"
      using mid by (simp only: p_def r_def)
    show "fq_repr q (as @ [] @ bs)" using repr by simp
    show "distinct (as @ ns @ bs)" by (rule dist)
    show "\<forall>i\<in>set ns. i < length (blocks q)" by (rule ns)
    show "length (blocks q') = length (blocks q)"
      using links_only_length [OF c(3)] by (simp add: q'_def q2_def)
    show "num_free_blocks q' = int (length (as @ ns @ bs))"
      using repr c4 by (simp add: q'_def q2_def fq_repr_def)
  next
    fix x assume x: "x \<notin> Blk ` set ns \<union> Blk ` set [] \<union> {last (Head # map Blk as)}"
    then have "x \<notin> set (butlast (p # map Blk ns))" "x \<noteq> l"
      using l by (auto simp: p_def dest: in_set_butlastD split: if_splits)
    then show "nextp q' x = nextp q x" using c6 l by (simp add: q'_def q2_def)
  next
    fix x assume "x \<notin> Blk ` set ns \<union> Blk ` set [] \<union> {hd (map Blk bs @ [Tail])}"
    then show "prevp q' x = prevp q x" using c5 c7 valid by (simp add: q'_def q2_def r_def)
  qed simp
  moreover have "links_only q q'" using c(3) by (simp add: q'_def q2_def)
  ultimately show ?thesis by simp
qed

lemma append_n_repr:
  assumes repr: "fq_repr q xs" and dist: "distinct (xs @ ns)"
    and ns: "\<forall>i \<in> set ns. i < length (blocks q)"
  shows "\<exists>q'. append_n (map Blk ns) q = Inr q' \<and> fq_repr q' (xs @ ns) \<and> links_only q q'"
proof (cases "ns = []")
  case True
  with repr show ?thesis by (auto simp: append_n_def)
next
  case False
  obtain l q1 where chain: "chain_after (last (Head # map Blk xs)) (map Blk ns) q = (l, q1)"
    by fastforce
  have "fq_repr q (xs @ [])" and "distinct (xs @ ns @ [])" using repr dist by simp_all
  note chain_repr [OF this ns chain]
  with False fq_reprD(4) [OF repr] chain show ?thesis
    by (simp add: append_n_def del: last.simps)
qed

lemma prepend_n_repr:
  assumes repr: "fq_repr q xs" and dist: "distinct (ns @ xs)"
    and ns: "\<forall>i \<in> set ns. i < length (blocks q)"
  shows "\<exists>q'. prepend_n (map Blk ns) q = Inr q' \<and> fq_repr q' (ns @ xs) \<and> links_only q q'"
proof (cases "ns = []")
  case True
  with repr show ?thesis by (auto simp: prepend_n_def)
next
  case False
  obtain l q1 where chain: "chain_after (last (Head # map Blk [])) (map Blk ns) q = (l, q1)"
    by fastforce
  have "fq_repr q ([] @ xs)" and "distinct ([] @ ns @ xs)" using repr dist by simp_all
  note chain_repr [OF this ns chain]
  with False fq_reprD(3) [OF repr] chain show ?thesis by (simp add: prepend_n_def)
qed

text \<open>Appending one block is the bulk operation on a singleton.\<close>

lemma link_commute:
  "b\<lparr>prev_free_block := w, next_free_block := v\<rparr> = b\<lparr>next_free_block := v, prev_free_block := w\<rparr>"
  by (cases b) simp

lemma set_next_set_prev: "set_next p v (set_prev r w q) = set_prev r w (set_next p v q)"
proof (cases p; cases r)
  fix i j assume "p = Blk i" "r = Blk j"
  then show ?thesis
    by (cases "i = j"; cases "i < length (blocks q)")
      (simp_all add: set_next_def set_prev_def list_update_swap list_update_beyond link_commute)
qed (simp_all add: set_next_def set_prev_def)

lemma append_fq_append_n:
  assumes repr: "fq_repr q xs"
  shows "append_fq b q = append_n [b] q"
  using fq_reprD(4) [OF repr]
  by (simp add: append_fq_def append_n_def set_next_set_prev del: last.simps)

lemma append_fq_repr:
  assumes "fq_repr q xs" and "x \<notin> set xs" and "x < length (blocks q)"
  shows "\<exists>q'. append_fq (Blk x) q = Inr q' \<and> fq_repr q' (xs @ [x]) \<and> links_only q q'"
  using append_n_repr [of q xs "[x]"] assms fq_reprD(1) [OF assms(1)]
  by (simp add: append_fq_append_n [OF assms(1)])

text \<open>The constructor queues the given blocks in order.\<close>

lemma linked_nth:
  "linked q ps \<longleftrightarrow> (\<forall>i < length ps - 1.
     nextp q (ps ! i) = Some (ps ! Suc i) \<and> prevp q (ps ! Suc i) = Some (ps ! i))"
  by (induction q ps rule: linked.induct) (simp_all add: All_less_Suc2)

lemma fq_init_fold:
  assumes "distinct bs" and "\<forall>p \<in> set bs. valid_ptr q p \<and> nextp q p = None \<and> prevp q p = None"
    and "k \<le> length bs"
  defines "q' \<equiv> fold (fq_init_link bs) [0..<k] q"
  shows "links_only q q' \<and> num_free_blocks q' = num_free_blocks q \<and>
    (\<forall>p. valid_ptr q' p = valid_ptr q p) \<and>
    (\<forall>p. p \<notin> set bs \<longrightarrow> nextp q' p = nextp q p \<and> prevp q' p = prevp q p) \<and>
    (\<forall>i < length bs. nextp q' (bs ! i) = (if i < k \<and> i + 1 < length bs then Some (bs ! (i + 1)) else None)
       \<and> prevp q' (bs ! i) = (if i < k \<and> 0 < i then Some (bs ! (i - 1)) else None))"
  using assms(3) unfolding q'_def
proof (induction k)
  case 0
  then show ?case using assms(2) by auto
next
  case (Suc k)
  define Q where "Q = fold (fq_init_link bs) [0..<k] q"
  note IH = Suc.IH [OF Suc_leD [OF Suc.prems], folded Q_def]
  have k: "k < length bs" using Suc.prems by simp
  then have v: "valid_ptr Q (bs ! k)" using IH assms(2) by simp
  have inj: "bs ! i = bs ! k \<longleftrightarrow> i = k" if "i < length bs" for i
    using that k assms(1) by (simp add: nth_eq_iff_index_eq)
  have notin: "p \<noteq> bs ! k" if "p \<notin> set bs" for p using that k by auto
  have len: "links_only q (fq_init_link bs k Q)" "num_free_blocks (fq_init_link bs k Q) = num_free_blocks q"
    "valid_ptr (fq_init_link bs k Q) p = valid_ptr q p" for p
    using IH by (simp_all add: fq_init_link_def Let_def)
  have nx: "nextp (fq_init_link bs k Q) p =
      (if p = bs ! k \<and> k + 1 < length bs then Some (bs ! (k + 1)) else nextp Q p)" for p
    using v by (cases "k = 0") (simp_all add: fq_init_link_def Let_def)
  have pv: "prevp (fq_init_link bs k Q) p =
      (if p = bs ! k \<and> 0 < k then Some (bs ! (k - 1)) else prevp Q p)" for p
    using v by (simp add: fq_init_link_def Let_def)
  have step: "fold (fq_init_link bs) [0..<Suc k] q = fq_init_link bs k Q" by (simp add: Q_def)
  show ?case unfolding step nx pv using IH len notin inj
    by (auto simp: less_Suc_eq)
qed

lemma deref_fakes [simp]:
  "deref (q\<lparr>fake_free_list_head := h, fake_free_list_tail := t\<rparr>) p =
     (case p of Head \<Rightarrow> h | Tail \<Rightarrow> t | Blk i \<Rightarrow> deref q (Blk i))"
  by (cases p) (simp_all add: deref.simps)

lemma valid_ptr_fakes [simp]:
  "valid_ptr (q\<lparr>fake_free_list_head := h, fake_free_list_tail := t\<rparr>) p = valid_ptr q p"
  by (cases p) simp_all

lemma links_only_fakes [simp]:
  "links_only q (q'\<lparr>fake_free_list_head := h, fake_free_list_tail := t\<rparr>) = links_only q q'"
  by (simp add: links_only_def)

lemma fq_init_repr:
  assumes dist: "distinct is" and bound: "\<forall>i \<in> set is. i < length (blocks q)"
    and fresh: "\<forall>i < length (blocks q). nextp q (Blk i) = None \<and> prevp q (Blk i) = None"
  shows "fq_repr (fq_init (map Blk is) q) is \<and> links_only q (fq_init (map Blk is) q)"
proof -
  let ?bs = "map Blk is"
  define q0 where "q0 = q\<lparr>num_free_blocks := int (length ?bs)\<rparr>"
  define q1 where "q1 = fold (fq_init_link ?bs) [0..<length ?bs] q0"
  define q2 where "q2 = q1\<lparr>fake_free_list_head := KVCacheBlock (- 1) None,
                 fake_free_list_tail := KVCacheBlock (- 1) None\<rparr>"
  have dbs: "distinct ?bs" using dist by (simp add: distinct_map inj_on_def)
  have f: "links_only q0 q1 \<and> num_free_blocks q1 = num_free_blocks q0 \<and>
    (\<forall>p. valid_ptr q1 p = valid_ptr q0 p) \<and>
    (\<forall>p. p \<notin> set ?bs \<longrightarrow> nextp q1 p = nextp q0 p \<and> prevp q1 p = prevp q0 p) \<and>
    (\<forall>i < length ?bs. nextp q1 (?bs ! i) = (if i < length ?bs \<and> i + 1 < length ?bs then Some (?bs ! (i + 1)) else None)
       \<and> prevp q1 (?bs ! i) = (if i < length ?bs \<and> 0 < i then Some (?bs ! (i - 1)) else None))"
    unfolding q1_def by (rule fq_init_fold [OF dbs]) (use bound fresh in \<open>auto simp: q0_def\<close>)
  have nx2: "nextp q2 (Blk i) = nextp q1 (Blk i)" "prevp q2 (Blk i) = prevp q1 (Blk i)" for i
    by (simp_all add: q2_def)
  have fk2: "nextp q2 Head = None" "prevp q2 Head = None" "nextp q2 Tail = None" "prevp q2 Tail = None"
    by (simp_all add: q2_def KVCacheBlock_def)
  have v2: "valid_ptr q2 (Blk i) \<longleftrightarrow> i < length (blocks q)" for i
    using f links_only_length [of q0 q1] by (simp add: q2_def q0_def)
  have len2: "length (blocks q2) = length (blocks q)" "num_free_blocks q2 = int (length is)" "links_only q q2"
    using f links_only_length [of q0 q1] by (simp_all add: q2_def q0_def)
  have off: "nextp q2 (Blk i) = None \<and> prevp q2 (Blk i) = None" if "i < length (blocks q)" "i \<notin> set is" for i
    using that f fresh by (auto simp: nx2 q0_def image_iff)
  have mid: "linked q2 ?bs"
    unfolding linked_nth using f by (auto simp: nx2)
  show ?thesis
  proof (cases "is = []")
    case True
    then have "fq_init ?bs q = set_prev Tail (Some Head) (set_next Head (Some Tail) q2)"
      by (simp add: fq_init_def q2_def q1_def q0_def)
    with True off len2 fk2 show ?thesis by (simp add: fq_repr_def)
  next
    case False
    define q' where "q' = set_next (last ?bs) (Some Tail) (set_prev Tail (Some (last ?bs))
                (set_prev (hd ?bs) (Some Head) (set_next Head (Some (hd ?bs)) q2)))"
    have eq: "fq_init ?bs q = q'"
      using False by (simp add: fq_init_def q'_def q2_def q1_def q0_def Let_def)
    have ends: "hd ?bs = Blk (hd is)" "last ?bs = Blk (last is)" "hd is \<in> set is" "last is \<in> set is"
      using False by (simp_all add: hd_map last_map)
    have v: "valid_ptr q2 (Blk (hd is))" "valid_ptr q2 (Blk (last is))" using bound ends v2 by auto
    have q': "nextp q' p = (if p = Blk (last is) then Some Tail else if p = Head then Some (Blk (hd is)) else nextp q2 p)"
      "prevp q' p = (if p = Tail then Some (Blk (last is)) else if p = Blk (hd is) then Some Head else prevp q2 p)" for p
      using v by (auto simp: q'_def ends)
    have "linked q' ?bs = linked q2 ?bs"
    proof (rule linked_cong)
      fix p assume "p \<in> set (butlast ?bs)"
      moreover have "last ?bs \<notin> set (butlast ?bs)"
        using False dbs by (cases ?bs rule: rev_cases) auto
      ultimately have "p \<noteq> Blk (last is)" "p \<noteq> Head" using ends by (auto dest: in_set_butlastD)
      then show "nextp q' p = nextp q2 p" by (simp add: q')
    next
      fix p assume p: "p \<in> set (tl ?bs)"
      moreover have "hd ?bs \<notin> set (tl ?bs)" using False dbs by (cases ?bs) auto
      ultimately have "p \<noteq> Blk (hd is)" "p \<noteq> Tail" using ends by (auto simp flip: map_tl)
      then show "prevp q' p = prevp q2 p" by (simp add: q')
    qed
    with mid False ends have "linked q' ([Head] @ ?bs @ [Tail])"
      using linked_append [of "[Head]" "?bs @ [Tail]" q'] linked_append [of ?bs "[Tail]" q']
      by (simp add: q')
    then have "fq_repr q' is"
      using bound dist off len2 ends fk2 by (auto simp: fq_repr_def q') (simp_all add: q'_def)
    moreover have "links_only q q'" using len2 by (simp add: q'_def)
    ultimately show ?thesis by (simp add: eq)
  qed
qed

text \<open>On a well-formed heap both traversals end and list the queue.\<close>

lemma collect_free_linked:
  assumes "linked q (map Blk xs @ [Tail])" and "nextp q Tail = None"
  shows "collect_free q (hd (map Blk xs @ [Tail])) ret = Some (ret @ map Blk xs)"
  using assms
proof (induction xs arbitrary: ret)
  case Nil
  then show ?case by (simp add: collect_free.simps [of q Tail])
next
  case (Cons x xs)
  then have "nextp q (Blk x) = Some (hd (map Blk xs @ [Tail]))" "linked q (map Blk xs @ [Tail])"
    by (cases xs; simp)+
  with Cons show ?case by (simp add: collect_free.simps [of q "Blk x"])
qed

lemma iter_from_linked:
  assumes "linked q (map Blk xs @ [Tail])"
  shows "iter_from q (Some (hd (map Blk xs @ [Tail]))) = Some (map Blk xs)"
  using assms
proof (induction xs)
  case Nil
  then show ?case by (simp add: iter_from.simps [of q "Some Tail"])
next
  case (Cons x xs)
  then have "nextp q (Blk x) = Some (hd (map Blk xs @ [Tail]))" "linked q (map Blk xs @ [Tail])"
    by (cases xs; simp)+
  with Cons show ?case by (simp add: iter_from.simps [of q "Some (Blk x)"])
qed

lemma fq_repr_suffix:
  assumes "fq_repr q (as @ bs)"
  shows "linked q (map Blk bs @ [Tail])"
proof -
  have "linked q ((Head # map Blk as) @ (map Blk bs @ [Tail]))"
    using assms by (simp add: fq_repr_def)
  then show ?thesis by (subst (asm) linked_append) simp_all
qed

lemma get_all_free_blocks_repr:
  "fq_repr q xs \<Longrightarrow> get_all_free_blocks q = Some (Inr (map Blk xs))"
  using collect_free_linked [OF fq_repr_suffix [of q "[]" xs]] fq_reprD(3,8) [of q xs]
  by (simp add: get_all_free_blocks_def)

lemma iter_blocks_after_repr:
  "fq_repr q xs \<Longrightarrow> iter_blocks_after None q = Some (map Blk xs)"
  "fq_repr q (as @ x # bs) \<Longrightarrow> iter_blocks_after (Some (Blk x)) q = Some (map Blk bs)"
  using iter_from_linked [OF fq_repr_suffix [of q "[]" xs]] fq_reprD(3) [of q xs]
    iter_from_linked [OF fq_repr_suffix [of q "as @ [x]" bs]] fq_repr_links(2) [of q as x bs]
  by (simp_all add: iter_blocks_after_def)

text \<open>The represented list is unique: the traversal computes it.\<close>

lemma fq_repr_unique: "fq_repr q xs \<Longrightarrow> fq_repr q ys \<Longrightarrow> xs = ys"
  using get_all_free_blocks_repr [of q xs] get_all_free_blocks_repr [of q ys]
  by (auto simp: inj_map_eq_map inj_def)

section \<open>The contract of the free queue\<close>

text \<open>
  What a client of the queue may rely on: every operation, described by its effect on the list
  the queue represents. \<open>fits q i\<close> says that block \<open>i\<close> exists, \<open>payload q q'\<close> that the
  operation touched links only.
\<close>

locale free_queue =
  fixes repr :: "'q \<Rightarrow> nat list \<Rightarrow> bool"
    and fits :: "'q \<Rightarrow> nat \<Rightarrow> bool"
    and payload :: "'q \<Rightarrow> 'q \<Rightarrow> bool"
    and pop :: "'q \<Rightarrow> (bptr \<times> 'q) res"
    and pop_n :: "nat \<Rightarrow> 'q \<Rightarrow> (bptr list \<times> 'q) res"
    and unhook :: "bptr \<Rightarrow> 'q \<Rightarrow> 'q res"
    and push_back :: "bptr list \<Rightarrow> 'q \<Rightarrow> 'q res"
    and push_front :: "bptr list \<Rightarrow> 'q \<Rightarrow> 'q res"
  assumes repr_distinct: "repr q xs \<Longrightarrow> distinct xs"
    and repr_fits: "repr q xs \<Longrightarrow> i \<in> set xs \<Longrightarrow> fits q i"
    and payload_fits: "payload q q' \<Longrightarrow> fits q' i = fits q i"
    and payload_trans: "payload q q' \<Longrightarrow> payload q' q'' \<Longrightarrow> payload q q''"
    and pop_ok: "repr q (x # xs) \<Longrightarrow> \<exists>q'. pop q = Inr (Blk x, q') \<and> repr q' xs \<and> payload q q'"
    and pop_empty: "repr q [] \<Longrightarrow> pop q = Inl ValueError"
    and pop_n_ok: "repr q (ms @ bs) \<Longrightarrow>
      \<exists>q'. pop_n (length ms) q = Inr (map Blk ms, q') \<and> repr q' bs \<and> payload q q'"
    and pop_n_short: "repr q xs \<Longrightarrow> length xs < n \<Longrightarrow> pop_n n q = Inl AssertionError"
    and unhook_ok: "repr q (as @ x # bs) \<Longrightarrow>
      \<exists>q'. unhook (Blk x) q = Inr q' \<and> repr q' (as @ bs) \<and> payload q q'"
    and unhook_absent: "repr q xs \<Longrightarrow> fits q x \<Longrightarrow> x \<notin> set xs \<Longrightarrow>
      unhook (Blk x) q = Inl RuntimeError"
    and push_back_ok: "repr q xs \<Longrightarrow> distinct (xs @ ns) \<Longrightarrow> \<forall>i \<in> set ns. fits q i \<Longrightarrow>
      \<exists>q'. push_back (map Blk ns) q = Inr q' \<and> repr q' (xs @ ns) \<and> payload q q'"
    and push_front_ok: "repr q xs \<Longrightarrow> distinct (ns @ xs) \<Longrightarrow> \<forall>i \<in> set ns. fits q i \<Longrightarrow>
      \<exists>q'. push_front (map Blk ns) q = Inr q' \<and> repr q' (ns @ xs) \<and> payload q q'"
begin

text \<open>Popping at most what is there succeeds and takes the front of the queue.\<close>

lemma pop_n_take:
  assumes "repr q xs" and "n \<le> length xs"
  shows "\<exists>q'. pop_n n q = Inr (map Blk (take n xs), q') \<and> repr q' (drop n xs) \<and> payload q q'"
  using pop_n_ok [of q "take n xs" "drop n xs"] assms by (simp add: min_absorb2)

text \<open>\<open>n\<close> single pops take the same blocks as one bulk pop.\<close>

primrec pops :: "nat \<Rightarrow> 'q \<Rightarrow> (bptr list \<times> 'q) res" where
  "pops 0 q = Inr ([], q)"
| "pops (Suc n) q = bind_res (pop q) (\<lambda>(b, q1). bind_res (pops n q1) (\<lambda>(bs, q2). Inr (b # bs, q2)))"

lemma pops_take:
  assumes "repr q xs" and "n \<le> length xs"
  shows "\<exists>q'. pops n q = Inr (map Blk (take n xs), q') \<and> repr q' (drop n xs)"
  using assms
proof (induction n arbitrary: q xs)
  case 0
  then show ?case by simp
next
  case (Suc n)
  then obtain x ys where xs: "xs = x # ys" by (cases xs) auto
  with Suc.prems pop_ok obtain q1 where q1: "pop q = Inr (Blk x, q1)" "repr q1 ys" by blast
  from Suc.IH [OF q1(2)] Suc.prems xs obtain q2 where
    "pops n q1 = Inr (map Blk (take n ys), q2)" "repr q2 (drop n ys)" by auto
  with q1 xs show ?case by simp
qed

text \<open>
  Released blocks that go to the back are handed out after everything that was free before;
  those that go to the front are handed out first.
\<close>

lemma push_back_then_pop:
  assumes "repr q xs" and "distinct (xs @ ns)" and "\<forall>i \<in> set ns. fits q i"
    and "n \<le> length xs + length ns"
  shows "\<exists>q1 q2. push_back (map Blk ns) q = Inr q1 \<and>
    pop_n n q1 = Inr (map Blk (take n xs @ take (n - length xs) ns), q2) \<and>
    repr q2 (drop n xs @ drop (n - length xs) ns) \<and> payload q q2"
proof -
  from push_back_ok [OF assms(1-3)] obtain q1 where
    q1: "push_back (map Blk ns) q = Inr q1" "repr q1 (xs @ ns)" "payload q q1" by blast
  from pop_n_take [OF q1(2), of n] assms(4) obtain q2 where
    "pop_n n q1 = Inr (map Blk (take n (xs @ ns)), q2)" "repr q2 (drop n (xs @ ns))" "payload q1 q2"
    by auto
  with q1 payload_trans show ?thesis by auto
qed

lemma push_front_then_pop:
  assumes "repr q xs" and "distinct (ns @ xs)" and "\<forall>i \<in> set ns. fits q i"
  shows "\<exists>q1 q2. push_front (map Blk ns) q = Inr q1 \<and>
    pop_n (length ns) q1 = Inr (map Blk ns, q2) \<and> repr q2 xs \<and> payload q q2"
proof -
  from push_front_ok [OF assms] obtain q1 where
    q1: "push_front (map Blk ns) q = Inr q1" "repr q1 (ns @ xs)" "payload q q1" by blast
  from pop_n_ok [OF q1(2)] q1 payload_trans show ?thesis by blast
qed

text \<open>A block taken out of the middle is never handed out by a later pop.\<close>

lemma unhook_then_pop:
  assumes "repr q xs" and "x \<in> set xs" and "n < length xs"
  shows "\<exists>q1 ps q2. unhook (Blk x) q = Inr q1 \<and> pop_n n q1 = Inr (ps, q2) \<and>
    ps = map Blk (take n (remove1 x xs)) \<and> Blk x \<notin> set ps"
proof -
  from assms(2) obtain as bs where xs: "xs = as @ x # bs" "x \<notin> set as"
    by (meson split_list_first)
  with assms(1) unhook_ok obtain q1 where q1: "unhook (Blk x) q = Inr q1" "repr q1 (as @ bs)" by blast
  from assms(3) xs have "n \<le> length (as @ bs)" by simp
  from pop_n_take [OF q1(2) this] obtain q2 where q2: "pop_n n q1 = Inr (map Blk (take n (as @ bs)), q2)"
    by blast
  have rm: "remove1 x xs = as @ bs" using xs by (simp add: remove1_append)
  have "x \<notin> set (as @ bs)" using repr_distinct [OF assms(1)] xs by simp
  then have "Blk x \<notin> set (map Blk (take n (as @ bs)))" by (auto dest: in_set_takeD)
  with q1 q2 rm show ?thesis by auto
qed

end

interpretation fq: free_queue fq_repr "\<lambda>q i. i < length (blocks q)" links_only
  popleft popleft_n remove_fq append_n prepend_n
proof unfold_locales
  fix q :: "'a queue_heap_scheme" and xs ns
  show "fq_repr q xs \<Longrightarrow> distinct (xs @ ns) \<Longrightarrow> \<forall>i \<in> set ns. i < length (blocks q) \<Longrightarrow>
      \<exists>q'. append_n (map Blk ns) q = Inr q' \<and> fq_repr q' (xs @ ns) \<and> links_only q q'"
    by (rule append_n_repr)
  show "fq_repr q xs \<Longrightarrow> distinct (ns @ xs) \<Longrightarrow> \<forall>i \<in> set ns. i < length (blocks q) \<Longrightarrow>
      \<exists>q'. prepend_n (map Blk ns) q = Inr q' \<and> fq_repr q' (ns @ xs) \<and> links_only q q'"
    by (rule prepend_n_repr)
qed (auto dest: fq_reprD links_only_trans links_only_length popleft_repr popleft_empty
    popleft_n_repr popleft_n_short remove_fq_repr remove_fq_absent)

section \<open>Properties\<close>

text \<open>A heap of \<open>n\<close> fresh blocks with the first \<open>k\<close> of them queued, for the witnesses.\<close>

definition demo_heap :: "nat \<Rightarrow> nat \<Rightarrow> queue_heap" where
  "demo_heap n k = fq_init (map Blk [0..<k])
     \<lparr>blocks = map (\<lambda>i. KVCacheBlock (int i) None) [0..<n],
      fake_free_list_head = KVCacheBlock (- 1) None, fake_free_list_tail = KVCacheBlock (- 1) None,
      num_free_blocks = 0\<rparr>"

lemma demo_heap_repr:
  assumes "k \<le> n"
  shows "fq_repr (demo_heap n k) [0..<k]" and "length (blocks (demo_heap n k)) = n"
proof -
  have "fq_repr (demo_heap n k) [0..<k] \<and> links_only
      \<lparr>blocks = map (\<lambda>i. KVCacheBlock (int i) None) [0..<n],
       fake_free_list_head = KVCacheBlock (- 1) None, fake_free_list_tail = KVCacheBlock (- 1) None,
       num_free_blocks = 0\<rparr> (demo_heap n k)"
    unfolding demo_heap_def using assms
    by (intro fq_init_repr) (simp_all add: deref.simps KVCacheBlock_def)
  then show "fq_repr (demo_heap n k) [0..<k]" "length (blocks (demo_heap n k)) = n"
    using links_only_length by fastforce+
qed

text \<open>C27: the constructor links the given fresh blocks into a well-formed queue in the given order,
  both traversals terminate and enumerate exactly that order, and no block is changed but its links.\<close>

theorem free_queue_init_traversal:
  assumes "distinct is" and "\<forall>i \<in> set is. i < length (blocks q)"
    and "\<forall>i < length (blocks q). nextp q (Blk i) = None \<and> prevp q (Blk i) = None"
  shows "fq_repr (fq_init (map Blk is) q) is \<and> links_only q (fq_init (map Blk is) q) \<and>
    get_all_free_blocks (fq_init (map Blk is) q) = Some (Inr (map Blk is)) \<and>
    iter_blocks_after None (fq_init (map Blk is) q) = Some (map Blk is)"
  using fq_init_repr [OF assms] get_all_free_blocks_repr iter_blocks_after_repr(1) by blast

theorem free_queue_init_traversal_witness:
  "iter_blocks_after None (demo_heap 3 2) = Some [Blk 0, Blk 1]"
proof -
  have "iter_blocks_after None (demo_heap 3 2) = Some (map Blk [0..<2])"
    unfolding demo_heap_def
    by (rule free_queue_init_traversal [THEN conjunct2, THEN conjunct2, THEN conjunct2])
      (simp_all add: deref.simps KVCacheBlock_def)
  then show ?thesis by (simp add: upt_rec)
qed

text \<open>C24: blocks appended to the free queue are handed out after everything that was free before, in
  the order they were appended (least recently freed first), and the queue keeps the rest in order.\<close>

theorem append_n_evicted_last:
  assumes "fq_repr q xs" and "distinct (xs @ ns)" and "\<forall>i \<in> set ns. i < length (blocks q)"
    and "n \<le> length xs + length ns"
  shows "\<exists>q1 q2. append_n (map Blk ns) q = Inr q1 \<and>
    popleft_n n q1 = Inr (map Blk (take n xs @ take (n - length xs) ns), q2) \<and>
    fq_repr q2 (drop n xs @ drop (n - length xs) ns) \<and> links_only q q2"
  using fq.push_back_then_pop [OF assms] .

theorem append_n_evicted_last_witness:
  "\<exists>q1 q2. append_n [Blk 3, Blk 2] (demo_heap 4 2) = Inr q1 \<and>
    popleft_n 3 q1 = Inr ([Blk 0, Blk 1, Blk 3], q2) \<and> fq_repr q2 [2]"
  using append_n_evicted_last [OF demo_heap_repr(1), of 2 4 "[3, 2]" 3] demo_heap_repr(2) [of 2 4]
  by (auto simp: upt_rec)

text \<open>C25: blocks put at the front of the free queue are the very next to be handed out, and taking
  them restores the queue that was there.\<close>

theorem prepend_n_evicted_first:
  assumes "fq_repr q xs" and "distinct (ns @ xs)" and "\<forall>i \<in> set ns. i < length (blocks q)"
  shows "\<exists>q1 q2. prepend_n (map Blk ns) q = Inr q1 \<and>
    popleft_n (length ns) q1 = Inr (map Blk ns, q2) \<and> fq_repr q2 xs \<and> links_only q q2"
  using fq.push_front_then_pop [OF assms] .

theorem prepend_n_evicted_first_witness:
  "\<exists>q1 q2. prepend_n [Blk 3, Blk 2] (demo_heap 4 2) = Inr q1 \<and>
    popleft_n 2 q1 = Inr ([Blk 3, Blk 2], q2) \<and> fq_repr q2 [0, 1]"
  using prepend_n_evicted_first [OF demo_heap_repr(1), of 2 4 "[3, 2]"] demo_heap_repr(2) [of 2 4]
  by (auto simp: upt_rec numeral_2_eq_2)

text \<open>C26: a block in the middle of the queue can be taken out, later pops then return the other blocks
  in their old order and never that one; taking out a block that is not queued raises an error.\<close>

theorem remove_fq_skips_block:
  assumes "fq_repr q xs" and "x < length (blocks q)" and "n < length xs"
  shows "if x \<in> set xs
    then \<exists>q1 ps q2. remove_fq (Blk x) q = Inr q1 \<and> popleft_n n q1 = Inr (ps, q2) \<and>
      ps = map Blk (take n (remove1 x xs)) \<and> Blk x \<notin> set ps
    else remove_fq (Blk x) q = Inl RuntimeError"
  using fq.unhook_then_pop [OF assms(1) _ assms(3)] fq.unhook_absent [OF assms(1,2)] by auto

theorem remove_fq_skips_block_witness:
  "\<exists>q1 ps q2. remove_fq (Blk 1) (demo_heap 4 3) = Inr q1 \<and> popleft_n 2 q1 = Inr (ps, q2) \<and>
    ps = [Blk 0, Blk 2]"
  using remove_fq_skips_block [OF demo_heap_repr(1), of 3 4 1 2] demo_heap_repr(2) [of 3 4]
  by (auto simp: upt_rec)

end
