(* ===== verification/BlockHashMap.thy ===== *)
theory BlockHashMap
  imports VllmPrelude
begin

text \<open>
  The index from block hash keys to cached blocks (\<^verbatim>\<open>BlockHashToBlockMap\<close> of
  \<^verbatim>\<open>src/vllm/v1/core/block_pool.py\<close>): a key maps to one block or to a dict of blocks that
  hold the same contents. A block stands for itself by its \<^verbatim>\<open>block_id\<close>, the index the pool gave
  it. The abstraction is a relation between keys and blocks; the contract the pool relies on is the
  locale \<open>hash_index\<close>.
\<close>

section \<open>The map\<close>

text \<open>\<open>Many\<close> lists the keys of the inner dict in insertion order.\<close>

datatype cached_blocks = One nat | Many "nat list"

type_synonym block_hash_map = "bytes \<Rightarrow> cached_blocks option"

definition hm_empty :: block_hash_map where
  "hm_empty = Map.empty"

definition get_one_block :: "block_hash_map \<Rightarrow> bytes \<Rightarrow> nat option res" where
  "get_one_block m key =
     (case m key of
        None \<Rightarrow> Inr None
      | Some (One b) \<Rightarrow> Inr (Some b)
      | Some (Many []) \<Rightarrow> Inl StopIteration
      | Some (Many (b # bs)) \<Rightarrow> Inr (Some b))"

definition contain :: "block_hash_map \<Rightarrow> bytes \<Rightarrow> nat \<Rightarrow> bool" where
  "contain m key b =
     (case m key of None \<Rightarrow> False | Some (One b') \<Rightarrow> b' = b | Some (Many bs) \<Rightarrow> b \<in> set bs)"

text \<open>Storing under a key of a dict keeps the position of a key that is already there.\<close>

definition dict_add :: "nat list \<Rightarrow> nat \<Rightarrow> nat list" where
  "dict_add bs b = (if b \<in> set bs then bs else bs @ [b])"

definition hm_insert :: "block_hash_map \<Rightarrow> bytes \<Rightarrow> nat \<Rightarrow> block_hash_map" where
  "hm_insert m key b =
     (case m key of
        None \<Rightarrow> m(key \<mapsto> One b)
      | Some (One b') \<Rightarrow> m(key \<mapsto> Many (dict_add [b'] b))
      | Some (Many bs) \<Rightarrow> m(key \<mapsto> Many (dict_add bs b)))"

definition hm_pop :: "block_hash_map \<Rightarrow> bytes \<Rightarrow> nat \<Rightarrow> nat option \<times> block_hash_map" where
  "hm_pop m key b =
     (let m' = m(key := None)
      in case m key of
           None \<Rightarrow> (None, m')
         | Some (One b') \<Rightarrow> if b' = b then (Some b', m') else (None, m'(key \<mapsto> One b'))
         | Some (Many bs) \<Rightarrow>
             let rest = remove1 b bs
             in (if b \<in> set bs then Some b else None, if rest \<noteq> [] then m'(key \<mapsto> Many rest) else m'))"

definition hm_len :: "block_hash_map \<Rightarrow> nat" where
  "hm_len m = card (dom m)"

section \<open>The relation it stands for\<close>

definition entries :: "block_hash_map \<Rightarrow> (bytes \<times> nat) set" where
  "entries m = {(k, b). case m k of None \<Rightarrow> False | Some (One b') \<Rightarrow> b = b' | Some (Many bs) \<Rightarrow> b \<in> set bs}"

text \<open>The inner dicts are never empty and have distinct keys.\<close>

definition hm_wf :: "block_hash_map \<Rightarrow> bool" where
  "hm_wf m \<longleftrightarrow> (\<forall>k bs. m k = Some (Many bs) \<longrightarrow> bs \<noteq> [] \<and> distinct bs)"

text \<open>What the pool relies on, whatever the representation.\<close>

locale hash_index =
  fixes wf :: "'m \<Rightarrow> bool"
    and rel :: "'m \<Rightarrow> ('k \<times> nat) set"
    and emp :: 'm
    and one :: "'m \<Rightarrow> 'k \<Rightarrow> nat option res"
    and has :: "'m \<Rightarrow> 'k \<Rightarrow> nat \<Rightarrow> bool"
    and ins :: "'m \<Rightarrow> 'k \<Rightarrow> nat \<Rightarrow> 'm"
    and del :: "'m \<Rightarrow> 'k \<Rightarrow> nat \<Rightarrow> nat option \<times> 'm"
  assumes emp_ok: "wf emp \<and> rel emp = {}"
    and one_ok: "wf m \<Longrightarrow> \<exists>x. one m k = Inr x \<and>
      (case x of None \<Rightarrow> \<forall>b. (k, b) \<notin> rel m | Some b \<Rightarrow> (k, b) \<in> rel m)"
    and has_ok: "has m k b \<longleftrightarrow> (k, b) \<in> rel m"
    and ins_ok: "wf m \<Longrightarrow> wf (ins m k b) \<and> rel (ins m k b) = insert (k, b) (rel m)"
    and del_ok: "wf m \<Longrightarrow> wf (snd (del m k b)) \<and> rel (snd (del m k b)) = rel m - {(k, b)} \<and>
      fst (del m k b) = (if (k, b) \<in> rel m then Some b else None)"
begin

text \<open>Removing a block under several keys, and the keys under which it was found.\<close>

primrec del_all :: "'m \<Rightarrow> nat \<Rightarrow> 'k list \<Rightarrow> 'k list \<times> 'm" where
  "del_all m b [] = ([], m)"
| "del_all m b (k # ks) =
     (let (x, m1) = del m k b; (found, m2) = del_all m1 b ks
      in (if x \<noteq> None then k # found else found, m2))"

lemma del_all_ok:
  assumes "wf m" and "distinct ks"
  shows "wf (snd (del_all m b ks)) \<and> rel (snd (del_all m b ks)) = rel m - set ks \<times> {b} \<and>
    fst (del_all m b ks) = filter (\<lambda>k. (k, b) \<in> rel m) ks"
  using assms
proof (induction ks arbitrary: m)
  case Nil
  then show ?case by simp
next
  case (Cons k ks)
  obtain x m1 where d: "del m k b = (x, m1)" by fastforce
  with del_ok [OF Cons.prems(1), of k b] have m1: "wf m1" "rel m1 = rel m - {(k, b)}"
    "x = (if (k, b) \<in> rel m then Some b else None)" by auto
  have "filter (\<lambda>k. (k, b) \<in> rel m1) ks = filter (\<lambda>k. (k, b) \<in> rel m) ks"
    using Cons.prems(2) m1(2) by (auto intro!: filter_cong)
  with Cons.IH [OF m1(1)] Cons.prems(2) d m1 show ?case
    by (auto simp: split_beta)
qed

text \<open>A block just inserted is found under its key, and only its own removal can lose it.\<close>

lemma one_after_ins: "wf m \<Longrightarrow> \<exists>b'. one (ins m k b) k = Inr (Some b') \<and> (k, b') \<in> insert (k, b) (rel m)"
  using ins_ok [of m k b] one_ok [of "ins m k b" k] by (auto split: option.splits)

lemma one_after_del:
  assumes "wf m" and "(k, b) \<in> rel m" and "(k', b') \<noteq> (k, b)"
  shows "\<exists>c. one (snd (del m k' b')) k = Inr (Some c) \<and> (k, c) \<in> rel m"
  using del_ok [OF assms(1), of k' b'] one_ok [of "snd (del m k' b')" k] assms(2,3)
  by (auto split: option.splits)

end

lemma entries_simps:
  "(k, b) \<in> entries m \<longleftrightarrow>
     (case m k of None \<Rightarrow> False | Some (One b') \<Rightarrow> b = b' | Some (Many bs) \<Rightarrow> b \<in> set bs)"
  by (simp add: entries_def)

lemma hm_wf_upd: "hm_wf m \<Longrightarrow> (\<And>bs. v = Some (Many bs) \<Longrightarrow> bs \<noteq> [] \<and> distinct bs) \<Longrightarrow> hm_wf (m(k := v))"
  by (auto simp: hm_wf_def)

lemma hm_insert_ok:
  assumes "hm_wf m"
  shows "hm_wf (hm_insert m k b) \<and> entries (hm_insert m k b) = insert (k, b) (entries m)"
proof
  show "hm_wf (hm_insert m k b)"
    using assms unfolding hm_insert_def dict_add_def
    by (auto intro!: hm_wf_upd split: option.splits cached_blocks.splits simp: hm_wf_def)
  show "entries (hm_insert m k b) = insert (k, b) (entries m)"
    by (auto simp: hm_insert_def dict_add_def entries_simps split: option.splits cached_blocks.splits if_splits)
qed

lemma hm_pop_ok:
  assumes "hm_wf m"
  shows "hm_wf (snd (hm_pop m k b)) \<and> entries (snd (hm_pop m k b)) = entries m - {(k, b)} \<and>
    fst (hm_pop m k b) = (if (k, b) \<in> entries m then Some b else None)"
proof (intro conjI)
  have dist: "distinct bs" if "m k = Some (Many bs)" for bs using assms that by (auto simp: hm_wf_def)
  have gone: "c = b" if "remove1 b bs = []" "c \<in> set bs" for bs c
    using in_set_remove1 [of c b bs] that by auto
  show "hm_wf (snd (hm_pop m k b))"
    using assms dist unfolding hm_pop_def Let_def
    by (auto intro!: hm_wf_upd distinct_remove1 split: option.splits cached_blocks.splits)
  show "entries (snd (hm_pop m k b)) = entries m - {(k, b)}"
    using dist gone by (auto simp: hm_pop_def Let_def entries_simps fun_upd_def split: option.splits
        cached_blocks.splits if_splits)
  show "fst (hm_pop m k b) = (if (k, b) \<in> entries m then Some b else None)"
    by (auto simp: hm_pop_def Let_def entries_simps split: option.splits cached_blocks.splits)
qed

interpretation hm: hash_index hm_wf entries hm_empty get_one_block contain hm_insert hm_pop
proof unfold_locales
  fix m k b
  show "hm_wf hm_empty \<and> entries hm_empty = {}"
    by (simp add: hm_wf_def hm_empty_def entries_def)
  show "hm_wf m \<Longrightarrow> \<exists>x. get_one_block m k = Inr x \<and>
      (case x of None \<Rightarrow> \<forall>b. (k, b) \<notin> entries m | Some b \<Rightarrow> (k, b) \<in> entries m)"
    by (auto simp: get_one_block_def entries_simps hm_wf_def split: option.splits cached_blocks.splits list.splits)
  show "contain m k b \<longleftrightarrow> (k, b) \<in> entries m"
    by (auto simp: contain_def entries_simps split: option.splits cached_blocks.splits)
qed (use hm_insert_ok hm_pop_ok in auto)

end
