(* ===== verification/BlockPool.thy ===== *)
theory BlockPool
  imports FreeBlockQueue BlockHashMap BlockHashes
begin

text \<open>
  The pool of KV cache blocks (\<^verbatim>\<open>BlockPool\<close> of \<^verbatim>\<open>src/vllm/v1/core/block_pool.py\<close>): reference
  counts, the free queue threaded through the blocks, and the prefix cache index. The pool record
  extends the heap of the free queue, since both work on the same block objects. A block is
  referred to by its index in \<open>blocks\<close>, which is its \<^verbatim>\<open>block_id\<close>. Metrics and reuse callbacks are
  recorded as traces of calls. The invariant \<open>pool_inv\<close> ties the three structures together, and every
  operation is shown to keep it.
\<close>

section \<open>State\<close>

text \<open>
  KV cache events with the fields the pool fills in: a stored event carries the hashes, the parent
  hash, the tokens, the block size, adapter id, medium, adapter name, extra keys, group and session.
\<close>

datatype kv_event =
    BlockStored "external_hash list" "external_hash option" "token list" nat "int option" string
      "string option" "event_key list option list option" nat "string option"
  | BlockRemoved "external_hash list" string nat
  | AllBlocksCleared

datatype metrics_call = OnAllocated nat | OnEvicted nat | OnAccessed nat | MetricsReset

text \<open>
  \<open>cached_block_hashes_by_block\<close> lists the members of the inner sets; \<open>reuse_watchers\<close> is a dict in
  insertion order, whose callbacks are known by a number. \<open>use_int_hashes\<close> is the environment
  variable \<^verbatim>\<open>VLLM_KV_EVENTS_USE_INT_BLOCK_HASHES\<close>. \<open>reuse_calls\<close> is the trace of the callbacks run.
\<close>

record block_pool = queue_heap +
  pool_id :: nat
  num_gpu_blocks :: nat
  medium :: string
  enable_caching :: bool
  hash_block_size :: nat
  cached_block_hash_to_block :: block_hash_map
  cached_block_hashes_by_block :: "nat \<Rightarrow> bytes list option"
  null_block :: nat
  enable_kv_cache_events :: bool
  kv_event_queue :: "kv_event list"
  metrics_collector :: "metrics_call list option"
  reuse_watchers :: "(nat \<times> nat) list"
  reuse_calls :: "(nat \<times> nat) list"
  use_int_hashes :: bool

text \<open>The queue hands out references to pool blocks; a fake end block has no index.\<close>

fun as_blk :: "bptr \<Rightarrow> nat res" where
  "as_blk (Blk i) = Inr i"
| "as_blk _ = Inl RuntimeError"

abbreviation blk :: "'a queue_heap_scheme \<Rightarrow> nat \<Rightarrow> kv_cache_block" where
  "blk p i \<equiv> blocks p ! i"

definition set_ref_cnt :: "nat \<Rightarrow> int \<Rightarrow> 'a queue_heap_scheme \<Rightarrow> 'a queue_heap_scheme" where
  "set_ref_cnt i n = upd_block (Blk i) (\<lambda>b. b\<lparr>ref_cnt := n\<rparr>)"

definition metrics_log :: "metrics_call \<Rightarrow> block_pool \<Rightarrow> block_pool" where
  "metrics_log c p = p\<lparr>metrics_collector := map_option (\<lambda>cs. cs @ [c]) (metrics_collector p)\<rparr>"

definition BlockPool_init :: "nat \<Rightarrow> nat \<Rightarrow> bool \<Rightarrow> nat \<Rightarrow> bool \<Rightarrow> bool \<Rightarrow> string \<Rightarrow> bool \<Rightarrow> block_pool res" where
  "BlockPool_init pid n caching hbs events with_metrics md use_int =
     py_assert (n > 0)
       (let q = fq_init (map Blk [0..<n])
          \<lparr>blocks = map (\<lambda>i. KVCacheBlock (int i) (Some pid)) [0..<n],
           fake_free_list_head = KVCacheBlock (- 1) None,
           fake_free_list_tail = KVCacheBlock (- 1) None, num_free_blocks = 0,
           pool_id = pid, num_gpu_blocks = n, medium = md, enable_caching = caching,
           hash_block_size = hbs, cached_block_hash_to_block = hm_empty,
           cached_block_hashes_by_block = Map.empty, null_block = 0,
           enable_kv_cache_events = events, kv_event_queue = [],
           metrics_collector = (if with_metrics then Some [] else None), reuse_watchers = [],
           reuse_calls = [], use_int_hashes = use_int\<rparr>
        in bind_res (popleft q) (\<lambda>(ptr, q1). bind_res (as_blk ptr) (\<lambda>nb.
             Inr (upd_block (Blk nb) (\<lambda>b. b\<lparr>is_null := True\<rparr>) (q1\<lparr>null_block := nb\<rparr>)))))"

section \<open>Lookup\<close>

fun get_cached_loop :: "block_pool \<Rightarrow> bytes \<Rightarrow> nat list \<Rightarrow> nat list \<Rightarrow> nat list option res" where
  "get_cached_loop p h [] acc = Inr (Some acc)"
| "get_cached_loop p h (g # gs) acc =
     bind_res (make_block_hash_with_group_id h g) (\<lambda>key.
       bind_res (get_one_block (cached_block_hash_to_block p) key) (\<lambda>found.
         case found of None \<Rightarrow> Inr None | Some b \<Rightarrow> get_cached_loop p h gs (acc @ [b])))"

definition get_cached_block :: "block_pool \<Rightarrow> bytes \<Rightarrow> nat list \<Rightarrow> nat list option res" where
  "get_cached_block p h group_ids = get_cached_loop p h group_ids []"

section \<open>The prefix cache index\<close>

fun pop_hashes :: "block_hash_map \<Rightarrow> nat \<Rightarrow> bytes list \<Rightarrow> bytes list \<times> block_hash_map" where
  "pop_hashes m i [] = ([], m)"
| "pop_hashes m i (h # hs) =
     (let (found, m1) = hm_pop m h i; (removed, m2) = pop_hashes m1 i hs
      in (if found \<noteq> None then h # removed else removed, m2))"

definition remove_cached_block_hashes :: "nat \<Rightarrow> block_pool \<Rightarrow> bytes list \<times> block_pool" where
  "remove_cached_block_hashes i p =
     (let hs = (case block_hash (blk p i) of None \<Rightarrow> [] | Some h \<Rightarrow> [h]) @
               (case cached_block_hashes_by_block p i of None \<Rightarrow> [] | Some ks \<Rightarrow> ks);
          p1 = p\<lparr>cached_block_hashes_by_block := (cached_block_hashes_by_block p)(i := None)\<rparr>
      in if hs = [] then ([], p1)
         else let (removed, m) = pop_hashes (cached_block_hash_to_block p1) i hs
              in (removed, upd_block (Blk i) reset_hash (p1\<lparr>cached_block_hash_to_block := m\<rparr>)))"

definition add_event :: "kv_event \<Rightarrow> block_pool \<Rightarrow> block_pool" where
  "add_event ev p = p\<lparr>kv_event_queue := kv_event_queue p @ [ev]\<rparr>"

definition emit_block_removed_events :: "bytes list \<Rightarrow> block_pool \<Rightarrow> block_pool" where
  "emit_block_removed_events hs p =
     (if \<not> enable_kv_cache_events p then p
      else fold (\<lambda>h. add_event (BlockRemoved [maybe_convert_block_hash (use_int_hashes p) (get_block_hash h)]
             (medium p) (get_group_id h))) hs p)"

definition insert_block_hash :: "bytes \<Rightarrow> nat \<Rightarrow> nat option \<Rightarrow> block_pool \<Rightarrow> block_pool res" where
  "insert_block_hash key i ntoks p =
     (if block_hash (blk p i) = Some key then Inr p
      else if contain (cached_block_hash_to_block p) key i then Inr p
      else bind_res
        (if block_hash (blk p i) = None
         then bind_res (set_block_hash (blk p i) key ntoks)
                (\<lambda>b. Inr (upd_block (Blk i) (\<lambda>_. b) p))
         else Inr (p\<lparr>cached_block_hashes_by_block :=
                (cached_block_hashes_by_block p)(i \<mapsto>
                  (let ks = (case cached_block_hashes_by_block p i of None \<Rightarrow> [] | Some ks \<Rightarrow> ks)
                   in if key \<in> set ks then ks else ks @ [key]))\<rparr>))
        (\<lambda>p1. Inr (p1\<lparr>cached_block_hash_to_block := hm_insert (cached_block_hash_to_block p1) key i\<rparr>)))"

text \<open>
  \<^verbatim>\<open>_build_block_stored_event\<close>, and the loop over the blocks whose extra keys an event lists.
\<close>

definition build_block_stored_event :: "block_pool \<Rightarrow> request \<Rightarrow> external_hash list \<Rightarrow>
    external_hash option \<Rightarrow> nat \<Rightarrow> nat \<Rightarrow> nat \<Rightarrow> nat \<Rightarrow> extra_key list option list \<Rightarrow> kv_event" where
  "build_block_stored_event p r hs parent s e block_size gid keys =
     BlockStored hs parent (take (e - s) (drop s (all_token_ids r))) block_size
       (map_option lora_int_id (lora r)) (medium p) (map_option lora_name (lora r))
       (to_event_extra_keys keys) gid (session_id r)"

definition extra_keys_step :: "hash_env \<Rightarrow> nat \<Rightarrow> nat \<Rightarrow> extra_key list option list \<times> int \<times> request \<Rightarrow>
    (extra_key list option list \<times> int \<times> request) res" where
  "extra_keys_step env block_size i = (\<lambda>(acc, mm_idx, r).
     bind_res (generate_block_hash_extra_keys env r (i * block_size) (i * block_size + block_size) mm_idx)
       (\<lambda>(extra, mm_idx', r'). Inr (acc @ [extra], mm_idx', r')))"

text \<open>One iteration of \<^verbatim>\<open>cache_full_blocks\<close> for the block \<open>b\<close> at offset \<open>i\<close>.\<close>

definition mask_skips :: "bool list option \<Rightarrow> nat \<Rightarrow> bool" where
  "mask_skips msk i = (case msk of None \<Rightarrow> False | Some ms \<Rightarrow> \<not> ms ! i)"

definition cache_full_step :: "nat \<Rightarrow> nat \<Rightarrow> nat \<Rightarrow> bool list option \<Rightarrow> bytes list \<Rightarrow> nat \<times> nat \<Rightarrow>
    external_hash list \<times> block_pool \<Rightarrow> (external_hash list \<times> block_pool) res" where
  "cache_full_step num_cached block_size gid msk new_block_hashes = (\<lambda>(i, b) (acc, p).
     if is_null (blk p b) \<or> mask_skips msk i then Inr (acc, p)
     else bind_res (py_nth new_block_hashes i) (\<lambda>h.
       let num_hash_tokens = (num_cached + i + 1) * block_size
       in bind_res (make_block_hash_with_group_id h gid) (\<lambda>key.
         bind_res
           (if block_hash (blk p b) \<noteq> None
            then py_assert (case block_hash_num_tokens (blk p b) of
                     None \<Rightarrow> False | Some n \<Rightarrow> n < num_hash_tokens)
                   (let (removed, p1) = remove_cached_block_hashes b p
                    in Inr (emit_block_removed_events removed p1))
            else Inr p)
           (\<lambda>p1. bind_res (insert_block_hash key b (Some num_hash_tokens) p1) (\<lambda>p2.
              Inr (if enable_kv_cache_events p2
                   then acc @ [maybe_convert_block_hash (use_int_hashes p2) h] else acc, p2))))))"

definition cache_full_event_keys :: "hash_env \<Rightarrow> nat list \<Rightarrow> nat \<Rightarrow> nat \<Rightarrow> bool list option \<Rightarrow> block_pool \<Rightarrow>
    nat \<Rightarrow> extra_key list option list \<times> int \<times> request \<Rightarrow>
    (extra_key list option list \<times> int \<times> request) res" where
  "cache_full_event_keys env bs num_cached block_size msk p i s =
     bind_res (py_nth bs i) (\<lambda>b.
       if is_null (blk p b) \<or> mask_skips msk (i - num_cached) then Inr s
       else extra_keys_step env block_size i s)"

definition cache_full_blocks :: "hash_env \<Rightarrow> request \<Rightarrow> nat list \<Rightarrow> nat \<Rightarrow> nat \<Rightarrow> nat \<Rightarrow> nat \<Rightarrow>
    bool list option \<Rightarrow> block_pool \<Rightarrow> (request \<times> block_pool) res" where
  "cache_full_blocks env r bs num_cached num_full block_size gid msk p =
     (if num_cached \<ge> num_full then Inr (r, p)
      else let new_full = take (num_full - num_cached) (drop num_cached bs)
       in py_assert (case msk of None \<Rightarrow> True | Some ms \<Rightarrow> length ms = length new_full)
        (bind_res (resolve_block_hashes (RawHashes (block_hashes r)) (hash_block_size p) block_size False None)
          (\<lambda>hl. bind_res (hashes_from hl num_cached) (\<lambda>new_block_hashes.
            bind_res (for_res (cache_full_step num_cached block_size gid msk new_block_hashes)
                        (enumerate 0 new_full) ([], p))
              (\<lambda>(new_hashes, p1).
                if \<not> enable_kv_cache_events p1 then Inr (r, p1)
                else bind_res (if num_cached = 0 then Inr None
                               else bind_res (hashes_get hl (num_cached - 1))
                                 (\<lambda>h. Inr (Some (maybe_convert_block_hash (use_int_hashes p1) h))))
                  (\<lambda>parent. bind_res
                    (for_res (cache_full_event_keys env bs num_cached block_size msk p1)
                       [num_cached..<num_full] ([], 0, r))
                    (\<lambda>(keys, mm_idx, r'). Inr (r',
                       add_event (build_block_stored_event p1 r' new_hashes parent
                         (num_cached * block_size) (num_full * block_size) block_size gid keys) p1))))))))"

definition emit_cached_step :: "hash_env \<Rightarrow> nat \<Rightarrow> bool \<Rightarrow> block_hash_list \<Rightarrow> nat \<Rightarrow>
    external_hash list \<times> extra_key list option list \<times> int \<times> request \<Rightarrow>
    (external_hash list \<times> extra_key list option list \<times> int \<times> request) res" where
  "emit_cached_step env block_size use_int hl i = (\<lambda>(hs, s).
     bind_res (hashes_get hl i) (\<lambda>h. bind_res (extra_keys_step env block_size i s)
       (\<lambda>s'. Inr (hs @ [maybe_convert_block_hash use_int h], s'))))"

definition emit_cached_block_events :: "hash_env \<Rightarrow> request \<Rightarrow> nat \<Rightarrow> nat \<Rightarrow> nat \<Rightarrow> block_pool \<Rightarrow>
    (request \<times> block_pool) res" where
  "emit_cached_block_events env r num_cached block_size gid p =
     (if \<not> enable_kv_cache_events p \<or> num_cached = 0 then Inr (r, p)
      else bind_res (resolve_block_hashes (RawHashes (block_hashes r)) (hash_block_size p) block_size False None)
        (\<lambda>hl. bind_res (for_res (emit_cached_step env block_size (use_int_hashes p) hl)
                 [0..<num_cached] ([], [], 0, r))
          (\<lambda>(hs, keys, mm_idx, r'). if hs = [] then Inr (r', p)
             else Inr (r', add_event (build_block_stored_event p r' hs None 0 (num_cached * block_size)
                    block_size gid keys) p))))"

text \<open>
  \<^verbatim>\<open>cache_partial_block\<close> with its two helpers. Numbers of hash blocks are positive where the
  source subtracts from them.
\<close>

definition get_partial_block_hash :: "request \<Rightarrow> nat \<Rightarrow> block_pool \<Rightarrow> bytes res" where
  "get_partial_block_hash r ntoks p =
     py_assert (ntoks mod hash_block_size p = 0)
       (let nb = ntoks div hash_block_size p
        in py_assert (0 < nb \<and> nb \<le> length (block_hashes r)) (py_nth (block_hashes r) (nb - 1)))"

definition get_partial_block_parent_hash_and_start :: "request \<Rightarrow> nat \<Rightarrow> block_pool \<Rightarrow>
    (bytes option \<times> nat) res" where
  "get_partial_block_parent_hash_and_start r ntoks p =
     (let nb = ntoks div hash_block_size p
      in bind_res (if nb > 1 then bind_res (py_nth (block_hashes r) (nb - 2)) (\<lambda>h. Inr (Some h)) else Inr None)
           (\<lambda>parent. Inr (parent, (nb - 1) * hash_block_size p)))"

definition cache_partial_event :: "hash_env \<Rightarrow> request \<Rightarrow> nat \<Rightarrow> nat \<Rightarrow> bytes \<Rightarrow> block_pool \<Rightarrow>
    (request \<times> block_pool) res" where
  "cache_partial_event env r ntoks gid h p =
     bind_res (get_partial_block_parent_hash_and_start r ntoks p) (\<lambda>(parent_hash, s).
       let parent = map_option (maybe_convert_block_hash (use_int_hashes p)) parent_hash;
           fs = mm_features r;
           mm_idx = (if s > 0 \<and> fs \<noteq> [] \<and> mm_end (last fs) > s
                     then int (fst (get_mm_features_in_window fs s ntoks)) else 0)
       in bind_res (generate_block_hash_extra_keys env r s ntoks mm_idx) (\<lambda>(extra, mm_idx', r').
            Inr (r', add_event (BlockStored [maybe_convert_block_hash (use_int_hashes p) h] parent
              (take (ntoks - s) (drop s (all_token_ids r'))) (ntoks - s)
              (map_option lora_int_id (lora r')) (medium p) (map_option lora_name (lora r'))
              (to_event_extra_keys [extra]) gid (session_id r')) p)))"

definition drop_hashes :: "nat \<Rightarrow> block_pool \<Rightarrow> block_pool" where
  "drop_hashes i p =
     (let (removed, p1) = remove_cached_block_hashes i p in emit_block_removed_events removed p1)"

definition partial_prepare :: "bool \<Rightarrow> bool \<Rightarrow> nat \<Rightarrow> nat \<Rightarrow> block_pool \<Rightarrow> bool \<times> block_pool" where
  "partial_prepare replace_existing cached b hash_tokens p =
     (if replace_existing then (False, drop_hashes b p)
      else if \<not> cached \<and> block_hash (blk p b) \<noteq> None \<and>
        (case block_hash_num_tokens (blk p b) of None \<Rightarrow> False | Some n \<Rightarrow> n < hash_tokens)
      then (cached, drop_hashes b p)
      else (cached, p))"

definition cache_partial_block :: "hash_env \<Rightarrow> request \<Rightarrow> nat \<Rightarrow> nat \<Rightarrow> nat \<Rightarrow> nat \<Rightarrow> bool \<Rightarrow> block_pool \<Rightarrow>
    (bytes option \<times> request \<times> block_pool) res" where
  "cache_partial_block env r b ntoks gid block_size replace_existing p =
     (if is_null (blk p b) then Inr (None, r, p)
      else py_assert (block_size mod hash_block_size p = 0)
       (bind_res (get_partial_block_hash r ntoks p) (\<lambda>h.
         let nb = ntoks div hash_block_size p
         in bind_res (make_block_hash_with_group_id h gid) (\<lambda>key.
          let cached = (block_hash (blk p b) = Some key \<or> contain (cached_block_hash_to_block p) key b);
              (already_cached, p1) = partial_prepare replace_existing cached b (nb * hash_block_size p) p
          in bind_res (insert_block_hash key b (Some (nb * hash_block_size p)) p1) (\<lambda>p2.
            if enable_kv_cache_events p2 \<and> \<not> already_cached
            then bind_res (cache_partial_event env r ntoks gid h p2) (\<lambda>(r', p3). Inr (Some key, r', p3))
            else Inr (Some key, r, p2))))))"

definition move_block_hashes :: "nat \<Rightarrow> nat \<Rightarrow> block_pool \<Rightarrow> block_pool res" where
  "move_block_hashes src dst p =
     py_assert (block_hash (blk p dst) = None)
       (py_assert (cached_block_hashes_by_block p dst = None)
         (let ntoks = block_hash_num_tokens (blk p src);
              (removed, p1) = remove_cached_block_hashes src p
          in for_res (\<lambda>h. insert_block_hash h dst ntoks) removed p1))"

section \<open>Allocation, release and eviction\<close>

definition get_num_free_blocks :: "block_pool \<Rightarrow> int" where
  "get_num_free_blocks p = num_free_blocks p"

definition notify_reuse :: "nat list \<Rightarrow> block_pool \<Rightarrow> block_pool" where
  "notify_reuse = fold (\<lambda>i p.
     case map_of (reuse_watchers p) i of
       None \<Rightarrow> p
     | Some w \<Rightarrow> p\<lparr>reuse_watchers := filter (\<lambda>(j, _). j \<noteq> i) (reuse_watchers p),
                  reuse_calls := reuse_calls p @ [(w, i)]\<rparr>)"

definition maybe_evict_cached_block :: "nat \<Rightarrow> block_pool \<Rightarrow> bool \<times> block_pool" where
  "maybe_evict_cached_block i p =
     (let (evicted, p1) = remove_cached_block_hashes i (metrics_log (OnEvicted i) p)
      in if evicted = [] then (False, p1) else (True, emit_block_removed_events evicted p1))"

definition alloc_step :: "nat \<Rightarrow> block_pool \<Rightarrow> block_pool res" where
  "alloc_step i p =
     (let p1 = (if enable_caching p then snd (maybe_evict_cached_block i p) else p)
      in py_assert (ref_cnt (blk p1 i) = 0)
           (Inr (metrics_log (OnAllocated i) (set_ref_cnt i (ref_cnt (blk p1 i) + 1) p1))))"

definition get_new_blocks :: "nat \<Rightarrow> block_pool \<Rightarrow> (nat list \<times> block_pool) res" where
  "get_new_blocks n p =
     (if int n > get_num_free_blocks p then Inl ValueError
      else bind_res (popleft_n n p) (\<lambda>(ptrs, p1). bind_res (map_res as_blk ptrs) (\<lambda>ret.
        let p2 = (if reuse_watchers p1 \<noteq> [] then notify_reuse ret p1 else p1)
        in bind_res (for_res alloc_step ret p2) (\<lambda>p3. Inr (ret, p3)))))"

text \<open>Storing under a key of the watcher dict.\<close>

definition watch :: "nat \<Rightarrow> nat \<Rightarrow> (nat \<times> nat) list \<Rightarrow> (nat \<times> nat) list" where
  "watch i w ws = (if i \<in> fst ` set ws then map (\<lambda>(j, v). (j, if j = i then w else v)) ws else ws @ [(i, w)])"

definition unpin_step :: "nat \<Rightarrow> nat \<Rightarrow> nat list \<times> block_pool \<Rightarrow> (nat list \<times> block_pool) res" where
  "unpin_step on_reuse i = (\<lambda>(released, p).
     py_assert (ref_cnt (blk p i) > 0 \<and> \<not> is_null (blk p i))
       (let p1 = set_ref_cnt i (ref_cnt (blk p i) - 1) p;
            p2 = p1\<lparr>reuse_watchers := watch i on_reuse (reuse_watchers p1)\<rparr>
        in Inr (if ref_cnt (blk p2 i) = 0 then released @ [i] else released, p2)))"

definition unpin_blocks :: "nat list \<Rightarrow> nat \<Rightarrow> block_pool \<Rightarrow> block_pool res" where
  "unpin_blocks bs on_reuse p =
     bind_res (for_res (unpin_step on_reuse) bs ([], p)) (\<lambda>(released, p1). append_n (map Blk released) p1)"

definition touch_step :: "nat \<Rightarrow> block_pool \<Rightarrow> block_pool res" where
  "touch_step i p =
     bind_res (if ref_cnt (blk p i) = 0 \<and> \<not> is_null (blk p i) then remove_fq (Blk i) p else Inr p)
       (\<lambda>p1. Inr (metrics_log (OnAccessed i) (set_ref_cnt i (ref_cnt (blk p1 i) + 1) p1)))"

definition touch :: "nat list \<Rightarrow> block_pool \<Rightarrow> block_pool res" where
  "touch bs p = for_res touch_step bs p"

definition is_block_writable :: "block_pool \<Rightarrow> nat \<Rightarrow> bool" where
  "is_block_writable p i \<longleftrightarrow> \<not> is_null (blk p i) \<and> ref_cnt (blk p i) = 1 \<and> block_hash (blk p i) = None"

text \<open>
  \<^verbatim>\<open>free_blocks\<close> on the blocks of the pool itself: the loop sorts the released blocks into those
  to reuse first and those to reuse last.
\<close>

definition free_step :: "nat \<Rightarrow> nat list \<times> nat list \<times> block_pool \<Rightarrow> nat list \<times> nat list \<times> block_pool" where
  "free_step i = (\<lambda>(evict_first, evict_last, p).
     let p1 = set_ref_cnt i (ref_cnt (blk p i) - 1) p
     in if ref_cnt (blk p1 i) = 0 \<and> \<not> is_null (blk p1 i)
        then if block_hash (blk p1 i) = None \<or> \<not> enable_caching p1
             then (evict_first @ [i], evict_last, p1) else (evict_first, evict_last @ [i], p1)
        else (evict_first, evict_last, p1))"

definition free_own_blocks :: "nat list \<Rightarrow> block_pool \<Rightarrow> block_pool res" where
  "free_own_blocks bs p =
     (let (evict_first, evict_last, p1) = fold free_step bs ([], [], p)
      in bind_res (prepend_n (map Blk evict_first) p1) (append_n (map Blk evict_last)))"

text \<open>
  The whole method over a system of pools, a block reference being a pool with an index: blocks of
  other pools are grouped by pool, in order of first appearance, and freed there.
\<close>

definition free_blocks :: "nat \<Rightarrow> (nat \<times> nat) list \<Rightarrow> (nat \<Rightarrow> block_pool) \<Rightarrow> (nat \<Rightarrow> block_pool) res" where
  "free_blocks self ordered_blocks sys =
     bind_res (free_own_blocks (map snd (filter (\<lambda>(pl, i). pl = self) ordered_blocks)) (sys self))
       (\<lambda>p. for_res
          (\<lambda>pl s. bind_res (free_own_blocks (map snd (filter (\<lambda>(pl', i). pl' = pl) ordered_blocks)) (s pl))
                    (\<lambda>p'. Inr (s(pl := p'))))
          (rev (remdups (rev (filter (\<lambda>pl. pl \<noteq> self) (map fst ordered_blocks)))))
          (sys(self := p)))"

definition evict_step :: "nat \<Rightarrow> block_pool \<Rightarrow> block_pool res" where
  "evict_step i p = py_assert (i < length (blocks p)) (Inr (snd (maybe_evict_cached_block i p)))"

definition evict_blocks :: "nat list \<Rightarrow> block_pool \<Rightarrow> block_pool res" where
  "evict_blocks ids p = for_res evict_step ids p"

definition reset_prefix_cache :: "block_pool \<Rightarrow> bool \<times> block_pool" where
  "reset_prefix_cache p =
     (if int (num_gpu_blocks p) - get_num_free_blocks p \<noteq> 1 then (False, p)
      else
        let p1 = p\<lparr>cached_block_hash_to_block := hm_empty, cached_block_hashes_by_block := Map.empty\<rparr>;
            p2 = (if reuse_watchers p1 \<noteq> [] then notify_reuse (map fst (reuse_watchers p1)) p1 else p1);
            p3 = p2\<lparr>blocks := map reset_hash (blocks p2)\<rparr>;
            p4 = metrics_log MetricsReset p3
        in (True, if enable_kv_cache_events p4 then add_event AllBlocksCleared p4 else p4))"

text \<open>\<^verbatim>\<open>get_usage\<close> as an exact fraction.\<close>

definition get_usage :: "block_pool \<Rightarrow> rat" where
  "get_usage p =
     (let total = int (num_gpu_blocks p) - 1
      in if total = 0 then 0 else 1 - of_int (get_num_free_blocks p) / of_int total)"

definition take_events :: "block_pool \<Rightarrow> kv_event list \<times> block_pool" where
  "take_events p =
     (if \<not> enable_kv_cache_events p then ([], p) else (kv_event_queue p, p\<lparr>kv_event_queue := []\<rparr>))"

end
