(* ===== verification/BlockPoolInv.thy ===== *)
theory BlockPoolInv
  imports BlockPool
begin

text \<open>
  The invariant of the block pool and its preservation. It has two independent halves. The
  reference half (\<open>refs_ok\<close>) says that the free queue holds exactly the blocks nobody references;
  the index half (\<open>index_ok\<close>) says that the prefix cache index lists exactly the hashes the blocks
  carry. Operations of one half leave the other alone (\<open>hash_only\<close>, \<open>refs_only\<close>).
\<close>

section \<open>The two halves\<close>

text \<open>
  \<open>pend\<close> collects blocks that are taken out of the queue and not yet referenced, or released and
  not yet queued, in the middle of an operation.
\<close>

definition refs_ok :: "'a queue_heap_scheme \<Rightarrow> nat list \<Rightarrow> nat set \<Rightarrow> bool" where
  "refs_ok p free pend \<longleftrightarrow> fq_repr p free \<and> 0 < length (blocks p) \<and> 0 \<notin> set free \<union> pend \<and>
     pend \<subseteq> {..<length (blocks p)} \<and> set free \<inter> pend = {} \<and>
     (\<forall>i < length (blocks p). block_id (blk p i) = int i \<and> (is_null (blk p i) \<longleftrightarrow> i = 0) \<and>
        (i \<noteq> 0 \<longrightarrow> 0 \<le> ref_cnt (blk p i) \<and> (ref_cnt (blk p i) = 0 \<longleftrightarrow> i \<in> set free \<union> pend)))"

definition hash_list :: "block_pool \<Rightarrow> nat \<Rightarrow> bytes list" where
  "hash_list p i = (case block_hash (blk p i) of None \<Rightarrow> [] | Some h \<Rightarrow> [h]) @
     (case cached_block_hashes_by_block p i of None \<Rightarrow> [] | Some ks \<Rightarrow> ks)"

definition index_ok :: "block_pool \<Rightarrow> bool" where
  "index_ok p \<longleftrightarrow> hm_wf (cached_block_hash_to_block p) \<and>
     entries (cached_block_hash_to_block p) = {(k, i). i < length (blocks p) \<and> k \<in> set (hash_list p i)} \<and>
     (\<forall>i < length (blocks p). distinct (hash_list p i) \<and>
        (block_hash (blk p i) = None \<longrightarrow>
           block_hash_num_tokens (blk p i) = None \<and> cached_block_hashes_by_block p i = None))"

definition pool_inv :: "block_pool \<Rightarrow> nat list \<Rightarrow> bool" where
  "pool_inv p free \<longleftrightarrow> refs_ok p free {} \<and> index_ok p \<and> length (blocks p) = num_gpu_blocks p \<and> null_block p = 0"

section \<open>Frames\<close>

definition hash_only :: "block_pool \<Rightarrow> block_pool \<Rightarrow> bool" where
  "hash_only p p' \<longleftrightarrow> map reset_hash (blocks p') = map reset_hash (blocks p) \<and>
     p' = p\<lparr>blocks := blocks p', cached_block_hash_to_block := cached_block_hash_to_block p',
            cached_block_hashes_by_block := cached_block_hashes_by_block p',
            kv_event_queue := kv_event_queue p', metrics_collector := metrics_collector p'\<rparr>"

definition hashes_of :: "kv_cache_block \<Rightarrow> bytes option \<times> nat option" where
  "hashes_of b = (block_hash b, block_hash_num_tokens b)"

definition refs_only :: "block_pool \<Rightarrow> block_pool \<Rightarrow> bool" where
  "refs_only p p' \<longleftrightarrow> map hashes_of (blocks p') = map hashes_of (blocks p) \<and>
     p' = p\<lparr>blocks := blocks p', fake_free_list_head := fake_free_list_head p',
            fake_free_list_tail := fake_free_list_tail p', num_free_blocks := num_free_blocks p',
            metrics_collector := metrics_collector p', reuse_watchers := reuse_watchers p',
            reuse_calls := reuse_calls p'\<rparr>"

lemma map_eq_nth: "map f xs = map g ys \<Longrightarrow> i < length xs \<Longrightarrow> f (xs ! i) = g (ys ! i)"
  by (metis length_map nth_map)

lemma reset_hash_eqD:
  assumes "reset_hash b = reset_hash b'"
  shows "block_id b = block_id b'" "ref_cnt b = ref_cnt b'" "is_null b = is_null b'" "pool b = pool b'"
    "prev_free_block b = prev_free_block b'" "next_free_block b = next_free_block b'"
  using assms by (cases b; cases b'; simp add: reset_hash_def)+

lemma hash_only_refl [simp]: "hash_only p p"
  by (simp add: hash_only_def)

lemma hash_only_trans [trans]: "hash_only p p' \<Longrightarrow> hash_only p' p'' \<Longrightarrow> hash_only p p''"
  by (cases p; cases p'; cases p'') (simp add: hash_only_def)

lemma refs_only_refl [simp]: "refs_only p p"
  by (simp add: refs_only_def)

lemma refs_only_trans [trans]: "refs_only p p' \<Longrightarrow> refs_only p' p'' \<Longrightarrow> refs_only p p''"
  by (cases p; cases p'; cases p'') (simp add: refs_only_def)

lemma hash_onlyD:
  assumes "hash_only p p'"
  shows "length (blocks p') = length (blocks p)" "num_gpu_blocks p' = num_gpu_blocks p"
    "null_block p' = null_block p" "enable_caching p' = enable_caching p"
    "hash_block_size p' = hash_block_size p" "enable_kv_cache_events p' = enable_kv_cache_events p"
    "use_int_hashes p' = use_int_hashes p" "num_free_blocks p' = num_free_blocks p"
    "reuse_watchers p' = reuse_watchers p" "reuse_calls p' = reuse_calls p"
    "fake_free_list_head p' = fake_free_list_head p" "fake_free_list_tail p' = fake_free_list_tail p"
  using assms by (cases p; cases p'; auto simp: hash_only_def dest: map_eq_imp_length_eq)+

lemma refs_onlyD:
  assumes "refs_only p p'"
  shows "length (blocks p') = length (blocks p)" "num_gpu_blocks p' = num_gpu_blocks p"
    "null_block p' = null_block p" "enable_caching p' = enable_caching p"
    "hash_block_size p' = hash_block_size p" "enable_kv_cache_events p' = enable_kv_cache_events p"
    "cached_block_hash_to_block p' = cached_block_hash_to_block p"
    "cached_block_hashes_by_block p' = cached_block_hashes_by_block p"
    "kv_event_queue p' = kv_event_queue p"
  using assms by (cases p; cases p'; auto simp: refs_only_def dest: map_eq_imp_length_eq)+

lemma hash_only_blk:
  assumes "hash_only p p'" and "i < length (blocks p)"
  shows "reset_hash (blk p' i) = reset_hash (blk p i)"
  using assms map_eq_nth [of reset_hash "blocks p'" reset_hash "blocks p" i] hash_onlyD(1) [OF assms(1)]
  by (simp add: hash_only_def)

lemma refs_only_blk:
  assumes "refs_only p p'" and "i < length (blocks p)"
  shows "block_hash (blk p' i) = block_hash (blk p i)"
    "block_hash_num_tokens (blk p' i) = block_hash_num_tokens (blk p i)"
  using assms map_eq_nth [of hashes_of "blocks p'" hashes_of "blocks p" i] refs_onlyD(1) [OF assms(1)]
  by (simp_all add: refs_only_def hashes_of_def)

lemma fq_repr_cong:
  assumes "length (blocks p') = length (blocks p)" and "num_free_blocks p' = num_free_blocks p"
    and "\<And>r. valid_ptr p r \<Longrightarrow> nextp p' r = nextp p r" and "\<And>r. valid_ptr p r \<Longrightarrow> prevp p' r = prevp p r"
  shows "fq_repr p' free \<longleftrightarrow> fq_repr p free"
proof -
  have "linked p' (Head # map Blk free @ [Tail]) \<longleftrightarrow> linked p (Head # map Blk free @ [Tail])"
    if "\<forall>i \<in> set free. i < length (blocks p)"
    using that assms(3,4) by (intro linked_cong) (auto simp del: valid_ptr.simps intro!: valid_ptr.simps [THEN iffD2])
  with assms show ?thesis unfolding fq_repr_def by auto
qed

lemma hash_only_links:
  assumes "hash_only p p'" and "valid_ptr p r"
  shows "nextp p' r = nextp p r" "prevp p' r = prevp p r"
  using assms hash_onlyD(11,12) [OF assms(1)] reset_hash_eqD(5,6) [OF hash_only_blk [OF assms(1)]]
  by (cases r; simp add: deref.simps)+

lemma refs_ok_hash_only:
  assumes "hash_only p p'" and "refs_ok p free pend"
  shows "refs_ok p' free pend"
proof -
  have "fq_repr p' free"
    using assms(2) fq_repr_cong [OF hash_onlyD(1,8) [OF assms(1)] hash_only_links [OF assms(1)]]
    by (simp add: refs_ok_def)
  with assms(2) hash_onlyD(1) [OF assms(1)] reset_hash_eqD(1-3) [OF hash_only_blk [OF assms(1)]]
  show ?thesis unfolding refs_ok_def by simp
qed

lemma index_ok_refs_only:
  assumes "refs_only p p'" and "index_ok p"
  shows "index_ok p'"
proof -
  note D = refs_onlyD [OF assms(1)] refs_only_blk [OF assms(1)]
  have "hash_list p' i = hash_list p i" if "i < length (blocks p)" for i
    using that D by (simp add: hash_list_def)
  with assms(2) D show ?thesis unfolding index_ok_def by auto
qed

lemma links_only_refs_only:
  assumes "links_only p p'"
  shows "refs_only p (p' :: block_pool)"
proof -
  have "hashes_of b = hashes_of (unlink b)" for b by (simp add: hashes_of_def unlink_def)
  then have "map hashes_of bs = map hashes_of (map unlink bs)" for bs by simp
  with assms have "map hashes_of (blocks p') = map hashes_of (blocks p)"
    unfolding links_only_def by metis
  with assms show ?thesis by (cases p; cases p') (simp add: links_only_def refs_only_def)
qed

section \<open>Index operations\<close>

lemma pop_hashes_del_all: "pop_hashes m i hs = hm.del_all m i hs"
  by (induction hs arbitrary: m) simp_all

lemma blocks_upd_block [simp]: "blocks (upd_block (Blk i) f p) = (blocks p)[i := f (blk p i)]"
  by simp

lemma upd_hash_only:
  assumes "\<And>b. reset_hash (f b) = reset_hash b"
  shows "hash_only p (upd_block (Blk i) f p)"
  using assms by (cases p) (simp add: hash_only_def map_update_same)

lemma hash_only_fields [simp]:
  "hash_only p (p'\<lparr>cached_block_hash_to_block := m\<rparr>) = hash_only p p'"
  "hash_only p (p'\<lparr>cached_block_hashes_by_block := ks\<rparr>) = hash_only p p'"
  "hash_only p (p'\<lparr>kv_event_queue := es\<rparr>) = hash_only p p'"
  "hash_only p (p'\<lparr>metrics_collector := ms\<rparr>) = hash_only p p'"
  by (cases p; cases p'; simp add: hash_only_def)+

lemma index_ok_fields [simp]:
  "index_ok (p\<lparr>kv_event_queue := es\<rparr>) = index_ok p"
  "index_ok (p\<lparr>metrics_collector := ms\<rparr>) = index_ok p"
  "hash_list (p\<lparr>kv_event_queue := es\<rparr>) = hash_list p"
  "hash_list (p\<lparr>metrics_collector := ms\<rparr>) = hash_list p"
  by (simp_all add: index_ok_def hash_list_def fun_eq_iff)

lemma reset_reset [simp]: "reset_hash (reset_hash b) = reset_hash b"
  by (simp add: reset_hash_def)

lemma hash_list_Nil: "index_ok p \<Longrightarrow> i < length (blocks p) \<Longrightarrow> hash_list p i = [] \<longleftrightarrow> block_hash (blk p i) = None"
  by (auto simp: hash_list_def index_ok_def split: option.splits)

text \<open>Removal drops all hashes of the block, and reports them all.\<close>

lemma remove_hashes_spec:
  assumes ok: "index_ok p" and i: "i < length (blocks p)"
  shows "fst (remove_cached_block_hashes i p) = hash_list p i"
    and "hash_only p (snd (remove_cached_block_hashes i p))"
    and "index_ok (snd (remove_cached_block_hashes i p))"
    and "hash_list (snd (remove_cached_block_hashes i p)) j = (if j = i then [] else hash_list p j)"
proof -
  define m where "m = cached_block_hash_to_block p"
  define p1 where "p1 = p\<lparr>cached_block_hashes_by_block := (cached_block_hashes_by_block p)(i := None)\<rparr>"
  have wf: "hm_wf m" and ent: "entries m = {(k, i). i < length (blocks p) \<and> k \<in> set (hash_list p i)}"
    and dist: "distinct (hash_list p i)" using ok i by (auto simp: index_ok_def m_def)
  obtain rm m' where pop: "pop_hashes m i (hash_list p i) = (rm, m')" by fastforce
  from hm.del_all_ok [OF wf dist, of i] pop
  have m': "hm_wf m'" "entries m' = entries m - set (hash_list p i) \<times> {i}"
    and rm: "rm = filter (\<lambda>k. (k, i) \<in> entries m) (hash_list p i)"
    by (auto simp: pop_hashes_del_all)
  have rm': "rm = hash_list p i" using i by (auto simp: rm ent filter_id_conv)
  define p' where "p' = snd (remove_cached_block_hashes i p)"
  have eq: "remove_cached_block_hashes i p = (hash_list p i, p')"
    and p': "p' = (if hash_list p i = [] then p1
               else upd_block (Blk i) reset_hash (p1\<lparr>cached_block_hash_to_block := m'\<rparr>))"
    using pop rm' unfolding p'_def remove_cached_block_hashes_def Let_def p1_def [symmetric]
      hash_list_def [symmetric]
    by (auto simp: p1_def m_def)
  show "fst (remove_cached_block_hashes i p) = hash_list p i" by (simp add: eq)
  have "hash_only p (p1\<lparr>cached_block_hash_to_block := m'\<rparr>)" by (simp add: p1_def)
  from hash_only_trans [OF this upd_hash_only [of reset_hash]]
  show ho: "hash_only p (snd (remove_cached_block_hashes i p))"
    unfolding eq snd_conv p' by (cases "hash_list p i = []") (simp_all add: p1_def)
  have hl: "hash_list p' j = (if j = i then [] else hash_list p j)" for j
  proof (cases "hash_list p i = []")
    case True
    then show ?thesis by (auto simp: p' p1_def hash_list_def split: option.splits)
  next
    case False
    then show ?thesis using i by (simp add: p' p1_def hash_list_def reset_hash_def)
  qed
  then show "hash_list (snd (remove_cached_block_hashes i p)) j = (if j = i then [] else hash_list p j)"
    by (simp add: eq)
  have len: "length (blocks p') = length (blocks p)" using hash_onlyD(1) [OF ho] by (simp add: eq)
  have c: "cached_block_hash_to_block p' = (if hash_list p i = [] then m else m')"
    by (simp add: p' p1_def m_def)
  then have "hm_wf (cached_block_hash_to_block p')" using wf m'(1) by simp
  moreover have "entries (cached_block_hash_to_block p') = entries m - set (hash_list p i) \<times> {i}"
    using c m'(2) by simp
  then have "entries (cached_block_hash_to_block p') =
      {(k, j). j < length (blocks p') \<and> k \<in> set (hash_list p' j)}"
    unfolding ent hl len by auto
  moreover have "distinct (hash_list p' j)" if "j < length (blocks p)" for j
    using ok that unfolding hl index_ok_def by simp
  moreover have "block_hash_num_tokens (blk p' j) = None \<and> cached_block_hashes_by_block p' j = None"
    if "block_hash (blk p' j) = None" "j < length (blocks p)" for j
    using ok i that hash_list_Nil [OF ok i]
    by (cases "j = i") (auto simp: p' p1_def reset_hash_def index_ok_def split: if_splits)
  ultimately show "index_ok (snd (remove_cached_block_hashes i p))"
    by (simp add: eq index_ok_def len)
qed

lemma fold_add_event:
  "fold (\<lambda>h. add_event (f h)) hs q = q\<lparr>kv_event_queue := kv_event_queue q @ map f hs\<rparr>"
  by (induction hs arbitrary: q) (simp_all add: add_event_def)

lemma emit_removed_frame:
  "hash_only p (emit_block_removed_events hs p)"
  "index_ok (emit_block_removed_events hs p) = index_ok p"
  "hash_list (emit_block_removed_events hs p) = hash_list p"
  unfolding emit_block_removed_events_def fold_add_event by simp_all

lemma drop_hashes_spec:
  assumes "index_ok p" and "i < length (blocks p)"
  shows "hash_only p (drop_hashes i p)" "index_ok (drop_hashes i p)"
    "hash_list (drop_hashes i p) j = (if j = i then [] else hash_list p j)"
  unfolding drop_hashes_def split_beta Let_def emit_removed_frame
  using remove_hashes_spec [OF assms] hash_only_trans [OF _ emit_removed_frame(1)] by blast+

text \<open>Insertion always succeeds, and adds the key to the hashes of the block.\<close>

lemma insert_hash_spec:
  assumes ok: "index_ok p" and i: "i < length (blocks p)"
  obtains p' where "insert_block_hash key i n p = Inr p'" and "hash_only p p'" and "index_ok p'"
    and "\<And>j. hash_list p' j =
      (if j = i \<and> key \<notin> set (hash_list p i) then hash_list p i @ [key] else hash_list p j)"
proof -
  define m where "m = cached_block_hash_to_block p"
  have wf: "hm_wf m" and ent: "entries m = {(k, i). i < length (blocks p) \<and> k \<in> set (hash_list p i)}"
    using ok by (auto simp: index_ok_def m_def)
  have known: "(block_hash (blk p i) = Some key \<or> contain m key i) \<longleftrightarrow> key \<in> set (hash_list p i)"
    using i by (auto simp: hm.has_ok ent hash_list_def)
  show thesis
  proof (cases "key \<in> set (hash_list p i)")
    case True
    then have "insert_block_hash key i n p = Inr p"
      using known by (auto simp: insert_block_hash_def m_def)
    with ok True show thesis by (intro that) auto
  next
    case False
    define p1 where "p1 =
      (if block_hash (blk p i) = None
       then upd_block (Blk i) (\<lambda>_. (blk p i)\<lparr>block_hash := Some key, block_hash_num_tokens := n\<rparr>) p
       else p\<lparr>cached_block_hashes_by_block := (cached_block_hashes_by_block p)(i \<mapsto>
              (case cached_block_hashes_by_block p i of None \<Rightarrow> [] | Some ks \<Rightarrow> ks) @ [key])\<rparr>)"
    define p' where "p' = p1\<lparr>cached_block_hash_to_block := hm_insert m key i\<rparr>"
    have fresh: "block_hash (blk p i) \<noteq> Some key" "\<not> contain m key i"
      "key \<notin> set (case cached_block_hashes_by_block p i of None \<Rightarrow> [] | Some ks \<Rightarrow> ks)"
      using False known by (auto simp: hash_list_def)
    have m1: "cached_block_hash_to_block p1 = m" by (simp add: p1_def m_def)
    have none: "block_hash_num_tokens (blk p i) = None" "cached_block_hashes_by_block p i = None"
      if "block_hash (blk p i) = None" using ok i that by (auto simp: index_ok_def)
    have ins: "insert_block_hash key i n p = Inr p'"
      using fresh none m1 unfolding insert_block_hash_def p'_def
      by (cases "cached_block_hashes_by_block p i") (auto simp: m_def set_block_hash_def p1_def Let_def)
    have "reset_hash ((blk p i)\<lparr>block_hash := Some key, block_hash_num_tokens := n\<rparr>) = reset_hash (blk p i)"
      by (simp add: reset_hash_def)
    then have "map reset_hash ((blocks p)[i := (blk p i)\<lparr>block_hash := Some key, block_hash_num_tokens := n\<rparr>]) =
        map reset_hash (blocks p)" by (metis list_update_id map_update nth_map i)
    then have ho: "hash_only p p'"
      by (cases p) (simp add: p'_def p1_def hash_only_def)
    have hl: "hash_list p' j = (if j = i \<and> key \<notin> set (hash_list p i) then hash_list p i @ [key] else hash_list p j)" for j
      using False none i by (auto simp: p'_def p1_def hash_list_def split: option.splits)
    have len: "length (blocks p') = length (blocks p)" using hash_onlyD(1) [OF ho] .
    have "cached_block_hash_to_block p' = hm_insert m key i" by (simp add: p'_def)
    with hm.ins_ok [OF wf] have "hm_wf (cached_block_hash_to_block p')"
      "entries (cached_block_hash_to_block p') = insert (key, i) (entries m)" by simp_all
    moreover from this(2) have "entries (cached_block_hash_to_block p') =
        {(k, j). j < length (blocks p') \<and> k \<in> set (hash_list p' j)}"
      unfolding ent hl len using i False by auto
    moreover have "distinct (hash_list p' j)" if "j < length (blocks p)" for j
      using ok that i False unfolding hl index_ok_def by simp
    moreover have "block_hash_num_tokens (blk p' j) = None \<and> cached_block_hashes_by_block p' j = None"
      if "block_hash (blk p' j) = None" "j < length (blocks p)" for j
      using ok i that by (cases "j = i") (auto simp: p'_def p1_def index_ok_def split: if_splits)
    ultimately have "index_ok p'" by (simp add: index_ok_def len)
    with ins ho hl show thesis by (intro that)
  qed
qed

lemma evict_spec:
  assumes "index_ok p" and "i < length (blocks p)"
  shows "hash_only p (snd (maybe_evict_cached_block i p))" "index_ok (snd (maybe_evict_cached_block i p))"
    "hash_list (snd (maybe_evict_cached_block i p)) j = (if j = i then [] else hash_list p j)"
    "fst (maybe_evict_cached_block i p) \<longleftrightarrow> block_hash (blk p i) \<noteq> None"
proof -
  let ?q = "metrics_log (OnEvicted i) p"
  have q: "index_ok ?q" "i < length (blocks ?q)" "hash_list ?q = hash_list p" "hash_only p ?q"
    using assms by (simp_all add: metrics_log_def)
  note R = remove_hashes_spec [OF q(1,2)]
  have ev: "maybe_evict_cached_block i p =
      (hash_list p i \<noteq> [], if hash_list p i = [] then snd (remove_cached_block_hashes i ?q)
        else emit_block_removed_events (hash_list p i) (snd (remove_cached_block_hashes i ?q)))"
    using R(1) q(3) by (simp add: maybe_evict_cached_block_def split_beta Let_def)
  show "hash_only p (snd (maybe_evict_cached_block i p))"
    using hash_only_trans [OF q(4) R(2)] hash_only_trans [OF _ emit_removed_frame(1)] by (simp add: ev)
  show "index_ok (snd (maybe_evict_cached_block i p))" using R(3) by (simp add: ev emit_removed_frame)
  show "hash_list (snd (maybe_evict_cached_block i p)) j = (if j = i then [] else hash_list p j)"
    using R(4) q(3) by (simp add: ev emit_removed_frame)
  show "fst (maybe_evict_cached_block i p) \<longleftrightarrow> block_hash (blk p i) \<noteq> None"
    using hash_list_Nil [OF assms] by (simp add: ev)
qed

text \<open>An index step: the blocks keep everything but their hashes, and the index stays in step.\<close>

definition index_step :: "block_pool \<Rightarrow> block_pool \<Rightarrow> bool" where
  "index_step p p' \<longleftrightarrow> hash_only p p' \<and> index_ok p'"

lemma index_step_trans [trans]: "index_step p p' \<Longrightarrow> index_step p' p'' \<Longrightarrow> index_step p p''"
  using hash_only_trans by (auto simp: index_step_def)

lemma index_step_inv: "index_step p p' \<Longrightarrow> pool_inv p free \<Longrightarrow> pool_inv p' free"
  using refs_ok_hash_only hash_onlyD(1,2,3) by (auto simp: index_step_def pool_inv_def)

lemma add_event_frame [simp]:
  "hash_only p (add_event ev p') = hash_only p p'" "index_ok (add_event ev p) = index_ok p"
  "hash_list (add_event ev p) = hash_list p"
  by (simp_all add: add_event_def)

section \<open>Caching full blocks\<close>

lemma cache_full_step_index:
  assumes "cache_full_step nc bs gid msk hs (i, b) (acc, p) = Inr (acc', p')"
    and "index_ok p" and "b < length (blocks p)"
  shows "index_step p p'"
proof (cases "is_null (blk p b) \<or> mask_skips msk i")
  case True
  with assms show ?thesis by (auto simp: cache_full_step_def index_step_def)
next
  case False
  with assms(1) obtain h key p1 where ins: "insert_block_hash key b (Some ((nc + i + 1) * bs)) p1 = Inr p'"
    and p1: "p1 = p \<or> p1 = drop_hashes b p"
    by (auto simp: cache_full_step_def Let_def drop_hashes_def split: if_splits prod.splits)
  have s: "index_step p p1" using p1 assms(2) drop_hashes_spec [OF assms(2,3)] by (auto simp: index_step_def)
  then have "index_ok p1" "b < length (blocks p1)"
    using assms(3) hash_onlyD(1) by (auto simp: index_step_def)
  from insert_hash_spec [OF this, of key "Some ((nc + i + 1) * bs)"] ins have "index_step p1 p'"
    by (metis index_step_def sum.inject(2))
  with s index_step_trans show ?thesis by blast
qed

text \<open>A block without a hash is cached under exactly the key of its position.\<close>

lemma cache_full_step_fresh:
  assumes ok: "index_ok p" and b: "b < length (blocks p)" and free: "\<not> is_null (blk p b)"
    "\<not> mask_skips msk i" "hash_list p b = []" and i: "i < length hs" "gid < 2 ^ 32"
  obtains key acc' p' where "make_block_hash_with_group_id (hs ! i) gid = Inr key"
    and "cache_full_step nc bs gid msk hs (i, b) (acc, p) = Inr (acc', p')"
    and "index_step p p'" and "\<And>j. hash_list p' j = (if j = b then [key] else hash_list p j)"
proof -
  from make_key_ok [OF i(2)] obtain key where key: "make_block_hash_with_group_id (hs ! i) gid = Inr key" by blast
  from insert_hash_spec [OF ok b, of key "Some ((nc + i + 1) * bs)"] obtain p' where
    p': "insert_block_hash key b (Some ((nc + i + 1) * bs)) p = Inr p'" "hash_only p p'" "index_ok p'"
      "\<And>j. hash_list p' j = (if j = b \<and> key \<notin> set (hash_list p b) then hash_list p b @ [key] else hash_list p j)"
    by blast
  have "block_hash (blk p b) = None" using hash_list_Nil [OF ok b] free(3) by simp
  then have "\<exists>acc'. cache_full_step nc bs gid msk hs (i, b) (acc, p) = Inr (acc', p')"
    using free i(1) key p'(1) by (simp add: cache_full_step_def py_nth_def Let_def)
  with key p'(2-4) free(3) show thesis by (auto simp: index_step_def intro: that)
qed

lemma for_res_enumerate_Cons:
  "for_res f (enumerate k (x # xs)) s = bind_res (f (k, x) s) (for_res f (enumerate (Suc k) xs))"
  by simp

lemma cache_full_loop:
  assumes "index_ok p" and "distinct new" and "\<forall>b \<in> set new. b < length (blocks p) \<and>
      \<not> is_null (blk p b) \<and> hash_list p b = []" and "k + length new \<le> length hs" and "gid < 2 ^ 32"
  shows "\<exists>acc' p'. for_res (cache_full_step nc bs gid None hs) (enumerate k new) (acc, p) = Inr (acc', p') \<and>
    index_step p p' \<and>
    (\<forall>j < length new. \<exists>key. make_block_hash_with_group_id (hs ! (k + j)) gid = Inr key \<and>
       hash_list p' (new ! j) = [key]) \<and>
    (\<forall>b. b \<notin> set new \<longrightarrow> hash_list p' b = hash_list p b)"
  using assms
proof (induction new arbitrary: k acc p)
  case Nil
  then show ?case by (simp add: index_step_def)
next
  case (Cons b new)
  from cache_full_step_fresh [of p b None k hs gid nc bs acc] Cons.prems
  obtain key acc1 p1 where key: "make_block_hash_with_group_id (hs ! k) gid = Inr key"
    and step: "cache_full_step nc bs gid None hs (k, b) (acc, p) = Inr (acc1, p1)" "index_step p p1"
      "\<And>j. hash_list p1 j = (if j = b then [key] else hash_list p j)"
    by (auto simp: mask_skips_def)
  have ok1: "index_ok p1" "hash_only p p1" using step(2) by (auto simp: index_step_def)
  have "\<forall>c \<in> set new. c < length (blocks p1) \<and> \<not> is_null (blk p1 c) \<and> hash_list p1 c = []"
    using Cons.prems(2,3) step(3) hash_onlyD(1) [OF ok1(2)] reset_hash_eqD(3) [OF hash_only_blk [OF ok1(2)]]
    by auto
  with Cons.IH [OF ok1(1), of "Suc k" acc1] Cons.prems obtain acc' p' where
    rest: "for_res (cache_full_step nc bs gid None hs) (enumerate (Suc k) new) (acc1, p1) = Inr (acc', p')"
      "index_step p1 p'"
      "\<forall>j < length new. \<exists>key. make_block_hash_with_group_id (hs ! (Suc k + j)) gid = Inr key \<and>
        hash_list p' (new ! j) = [key]"
      "\<forall>c. c \<notin> set new \<longrightarrow> hash_list p' c = hash_list p1 c" by auto
  have "hash_list p' b = [key]" using rest(4) Cons.prems(2) step(3) by simp
  with rest(3) key have "\<forall>j < length (b # new). \<exists>key. make_block_hash_with_group_id (hs ! (k + j)) gid = Inr key \<and>
      hash_list p' ((b # new) ! j) = [key]" by (auto simp: less_Suc_eq_0_disj)
  moreover have "\<forall>c. c \<notin> set (b # new) \<longrightarrow> hash_list p' c = hash_list p c" using rest(4) step(3) by simp
  ultimately show ?case
    using step(1) rest(1) index_step_trans [OF step(2) rest(2)] by (simp del: enumerate_simps add: for_res_enumerate_Cons)
qed

lemma index_step_refl: "index_ok p \<Longrightarrow> index_step p p"
  by (simp add: index_step_def)

lemma cache_full_blocks_index:
  assumes "cache_full_blocks env r bs nc nf block_size gid msk p = Inr (r', p')"
    and ok: "index_ok p" and bs: "\<forall>b \<in> set bs. b < length (blocks p)"
  shows "index_step p p'"
proof (cases "nc \<ge> nf")
  case True
  with assms(1) ok show ?thesis by (simp add: cache_full_blocks_def index_step_refl)
next
  case False
  let ?new = "take (nf - nc) (drop nc bs)"
  from False assms(1) obtain hs acc p1 where
    loop: "for_res (cache_full_step nc block_size gid msk hs) (enumerate 0 ?new) ([], p) = Inr (acc, p1)"
    and p': "p' = p1 \<or> (\<exists>ev. p' = add_event ev p1)"
    by (auto simp: cache_full_blocks_def Let_def split: if_splits prod.splits)
  have "index_step p (snd (acc, p1))"
  proof (rule for_res_invariant [OF loop])
    show "index_step p (snd ([], p))" using ok by (simp add: index_step_refl)
    fix x s t
    assume x: "x \<in> set (enumerate 0 ?new)" and s: "index_step p (snd s)"
      and step: "cache_full_step nc block_size gid msk hs x s = Inr t"
    obtain i b where ib: "x = (i, b)" by fastforce
    obtain a q where aq: "s = (a, q)" by fastforce
    obtain a' q' where aq': "t = (a', q')" by fastforce
    have "b \<in> set bs" using x ib by (auto simp: in_set_enumerate_eq)
    then have "b < length (blocks p)" using bs by auto
    then have b: "b < length (blocks q)" using s aq hash_onlyD(1) by (auto simp: index_step_def)
    have "index_ok q" using s aq by (simp add: index_step_def)
    from cache_full_step_index [OF step [unfolded ib aq aq'] this b] show "index_step p (snd t)"
      using s aq aq' index_step_trans by simp
  qed
  with p' show ?thesis by (auto simp: index_step_def)
qed

lemma mm_safe_mono: "mm_safe fs idx s \<Longrightarrow> s \<le> s' \<Longrightarrow> mm_safe fs idx s'"
  by (force simp: mm_safe_def)

lemma event_keys_step:
  assumes "hashable env r" and "mm_safe (mm_features r) idx (i * bs)"
  shows "\<exists>acc' idx' r'. extra_keys_step env bs i (acc, idx, r) = Inr (acc', idx', r') \<and>
    hashable env r' \<and> mm_safe (mm_features r') idx' (Suc i * bs) \<and> same_but_memo r r'"
  using generate_keys_spec [OF assms, of "i * bs + bs"]
  by (auto simp: extra_keys_step_def add.commute)

lemma cache_full_event_total:
  assumes "hashable env r" and "mm_safe (mm_features r) idx (k * bs)" and "n \<le> length blks"
  shows "\<exists>acc' idx' r'. for_res (cache_full_event_keys env blks nc bs msk p) [k..<n] (acc, idx, r) =
      Inr (acc', idx', r') \<and> same_but_memo r r'"
  using assms
proof (induction "n - k" arbitrary: k acc idx r)
  case 0
  then show ?case by simp
next
  case (Suc d)
  then have k: "k < n" by simp
  then have upt: "[k..<n] = k # [Suc k..<n]" by (simp add: upt_conv_Cons)
  have "\<exists>acc1 idx1 r1. cache_full_event_keys env blks nc bs msk p k (acc, idx, r) = Inr (acc1, idx1, r1) \<and>
      hashable env r1 \<and> mm_safe (mm_features r1) idx1 (Suc k * bs) \<and> same_but_memo r r1"
  proof (cases "is_null (blk p (blks ! k)) \<or> mask_skips msk (k - nc)")
    case True
    moreover have "mm_safe (mm_features r) idx (Suc k * bs)"
      using mm_safe_mono [OF Suc.prems(2), of "Suc k * bs"] by simp
    ultimately show ?thesis
      using k Suc.prems by (simp add: cache_full_event_keys_def py_nth_def)
  next
    case False
    then show ?thesis
      using k Suc.prems event_keys_step [OF Suc.prems(1,2), of acc]
      by (simp add: cache_full_event_keys_def py_nth_def)
  qed
  then obtain acc1 idx1 r1 where
    step: "cache_full_event_keys env blks nc bs msk p k (acc, idx, r) = Inr (acc1, idx1, r1)"
      "hashable env r1" "mm_safe (mm_features r1) idx1 (Suc k * bs)" "same_but_memo r r1" by blast
  have "d = n - Suc k" using Suc.hyps(2) by simp
  from Suc.hyps(1) [OF this step(2,3) Suc.prems(3), of acc1] obtain acc' idx' r' where
    "for_res (cache_full_event_keys env blks nc bs msk p) [Suc k..<n] (acc1, idx1, r1) = Inr (acc', idx', r')"
    "same_but_memo r1 r'" by blast
  with step upt same_but_memo_trans show ?case by fastforce
qed

section \<open>Lookup\<close>

definition cached_under :: "block_pool \<Rightarrow> bytes \<Rightarrow> nat \<Rightarrow> nat \<Rightarrow> bool" where
  "cached_under p h g b \<longleftrightarrow> b < length (blocks p) \<and>
     (\<exists>key. make_block_hash_with_group_id h g = Inr key \<and> key \<in> set (hash_list p b))"

lemma get_cached_loop_spec:
  assumes ok: "index_ok p" and "\<forall>g \<in> set gs. g < 2 ^ 32"
  shows "\<exists>x. get_cached_loop p h gs acc = Inr x \<and>
    (x = None \<longleftrightarrow> (\<exists>g \<in> set gs. \<forall>b. \<not> cached_under p h g b)) \<and>
    (\<forall>bs. x = Some bs \<longrightarrow> (\<exists>cs. bs = acc @ cs \<and> list_all2 (cached_under p h) gs cs))"
  using assms(2)
proof (induction gs arbitrary: acc)
  case Nil
  then show ?case by simp
next
  case (Cons g gs)
  have wf: "hm_wf (cached_block_hash_to_block p)" using ok by (simp add: index_ok_def)
  from Cons.prems make_key_ok obtain key where key: "make_block_hash_with_group_id h g = Inr key" by fastforce
  have cu: "(key, b) \<in> entries (cached_block_hash_to_block p) \<longleftrightarrow> cached_under p h g b" for b
    using ok key by (auto simp: index_ok_def cached_under_def)
  from hm.one_ok [OF wf, of key] obtain x where one: "get_one_block (cached_block_hash_to_block p) key = Inr x"
    and x: "case x of None \<Rightarrow> \<forall>b. \<not> cached_under p h g b | Some b \<Rightarrow> cached_under p h g b"
    unfolding cu by blast
  show ?case
  proof (cases x)
    case None
    with key one x show ?thesis by auto
  next
    case (Some b)
    from Cons.IH [of "acc @ [b]"] Cons.prems obtain y where
      y: "get_cached_loop p h gs (acc @ [b]) = Inr y"
        "y = None \<longleftrightarrow> (\<exists>g \<in> set gs. \<forall>b. \<not> cached_under p h g b)"
        "\<forall>bs. y = Some bs \<longrightarrow> (\<exists>cs. bs = (acc @ [b]) @ cs \<and> list_all2 (cached_under p h) gs cs)" by auto
    have "\<exists>cs. bs = acc @ cs \<and> list_all2 (cached_under p h) (g # gs) cs" if "y = Some bs" for bs
    proof -
      from y(3) that obtain cs where "bs = acc @ b # cs" "list_all2 (cached_under p h) gs cs" by auto
      with x Some show ?thesis by (intro exI [of _ "b # cs"]) simp
    qed
    with key one Some x y(1,2) show ?thesis by auto
  qed
qed

lemma get_cached_block_spec:
  assumes "index_ok p" and "\<forall>g \<in> set gs. g < 2 ^ 32"
  shows "\<exists>x. get_cached_block p h gs = Inr x \<and>
    (x = None \<longleftrightarrow> (\<exists>g \<in> set gs. \<forall>b. \<not> cached_under p h g b)) \<and>
    (\<forall>bs. x = Some bs \<longrightarrow> list_all2 (cached_under p h) gs bs)"
  using get_cached_loop_spec [OF assms, of h "[]"] by (auto simp: get_cached_block_def)

lemma cache_full_blocks_total:
  assumes inv: "pool_inv p free" and cur: "hashes_current env (hash_block_size p) r"
    and size: "0 < hash_block_size p" "0 < sf" "block_size = hash_block_size p * sf"
    and nf: "nc \<le> nf" "nf \<le> length bs" "nf * block_size \<le> num_tokens r" and g: "gid < 2 ^ 32"
    and dist: "distinct (drop nc bs)"
    and new: "\<forall>b \<in> set (drop nc bs). b < length (blocks p) \<and> b \<noteq> 0 \<and> block_hash (blk p b) = None"
  shows "\<exists>r' p'. cache_full_blocks env r bs nc nf block_size gid None p = Inr (r', p') \<and>
    (\<forall>i. nc \<le> i \<and> i < nf \<longrightarrow>
       cached_under p' (request_chain env (hash_block_size p) r ((i + 1) * sf - 1)) gid (bs ! i)) \<and>
    (\<forall>b. b \<notin> set (drop nc bs) \<longrightarrow> hash_list p' b = hash_list p b)"
proof (cases "nc = nf")
  case True
  then show ?thesis by (auto simp: cache_full_blocks_def)
next
  case False
  let ?h = "\<lambda>i. request_chain env (hash_block_size p) r ((i + 1) * sf - 1)" and ?n = "num_tokens r div block_size"
  let ?new = "take (nf - nc) (drop nc bs)"
  from resolve_values [OF size(1,2) cur, of None] obtain hl where
    hl: "resolve_block_hashes (RawHashes (block_hashes r)) (hash_block_size p) block_size False None = Inr hl"
      "\<And>i. i < ?n \<Longrightarrow> hashes_get hl i = Inr (?h i)" "\<And>k. hashes_from hl k = Inr (map ?h [k..<?n])"
    unfolding size(3) by metis
  have n: "nf \<le> ?n" using nf(3) size by (simp add: less_eq_div_iff_mult_less_eq)
  have ok: "index_ok p" and refs: "refs_ok p free {}" using inv by (auto simp: pool_inv_def)
  have in_new: "b \<in> set (drop nc bs)" if "b \<in> set ?new" for b using that by (rule in_set_takeD)
  have fresh: "\<forall>b \<in> set ?new. b < length (blocks p) \<and> \<not> is_null (blk p b) \<and> hash_list p b = []"
    using new in_new hash_list_Nil [OF ok] refs unfolding refs_ok_def by blast
  have dist': "distinct ?new" using dist by (rule distinct_take)
  have "0 + length ?new \<le> length (map ?h [nc..<?n])" using n nf(2) by simp
  from cache_full_loop [OF ok dist' fresh this g, of nc block_size "[]"] obtain acc p1 where
    loop: "for_res (cache_full_step nc block_size gid None (map ?h [nc..<?n])) (enumerate 0 ?new) ([], p) = Inr (acc, p1)"
      "\<forall>j < length ?new. \<exists>key. make_block_hash_with_group_id (map ?h [nc..<?n] ! (0 + j)) gid = Inr key \<and>
        hash_list p1 (?new ! j) = [key]"
      "index_step p p1" "\<forall>b. b \<notin> set ?new \<longrightarrow> hash_list p1 b = hash_list p b"
    by blast
  have len: "length (blocks p1) = length (blocks p)" using loop(3) hash_onlyD(1) by (simp add: index_step_def)
  have cached: "cached_under p1 (?h i) gid (bs ! i)" if "nc \<le> i" "i < nf" for i
  proof -
    have j: "i - nc < length ?new" "?new ! (i - nc) = bs ! i" "map ?h [nc..<?n] ! (0 + (i - nc)) = ?h i"
      using that nf n by simp_all
    have "bs ! i \<in> set (drop nc bs)" using j(1,2) in_new nth_mem by metis
    with loop(2) [rule_format, OF j(1)] j(2,3) new len show ?thesis by (auto simp: cached_under_def)
  qed
  have "\<exists>hl'. (if nc = 0 then Inr None else bind_res (hashes_get hl (nc - 1))
      (\<lambda>h. Inr (Some (maybe_convert_block_hash (use_int_hashes p1) h)))) = Inr hl'"
    using hl(2) [of "nc - 1"] n nf(1) False by (cases nc) simp_all
  then obtain parent where parent: "(if nc = 0 then Inr None else bind_res (hashes_get hl (nc - 1))
      (\<lambda>h. Inr (Some (maybe_convert_block_hash (use_int_hashes p1) h)))) = Inr parent" by blast
  have "hashable env r" using cur by (simp add: hashes_current_def)
  from cache_full_event_total [OF this mm_safe_0 nf(2), where nc = nc and bs = block_size and msk = None and p = p1 and acc = "[]" and k = nc] obtain keys idx r' where
    ev: "for_res (cache_full_event_keys env bs nc block_size None p1) [nc..<nf] ([], 0, r) = Inr (keys, idx, r')" by blast
  have "\<exists>r' p'. cache_full_blocks env r bs nc nf block_size gid None p = Inr (r', p') \<and>
      (p' = p1 \<or> (\<exists>e. p' = add_event e p1))"
    using False nf(1) hl(1) hl(3) loop(1) parent ev by (simp add: cache_full_blocks_def Let_def) blast
  then obtain r' p' where res: "cache_full_blocks env r bs nc nf block_size gid None p = Inr (r', p')"
    and p': "p' = p1 \<or> (\<exists>e. p' = add_event e p1)" by blast
  from p' have "hash_list p' = hash_list p1" "length (blocks p') = length (blocks p1)" by (auto simp: add_event_def)
  with res cached loop(4) in_new show ?thesis by (auto simp: cached_under_def)
qed

section \<open>Partial blocks and moved hashes\<close>

lemma cache_partial_event_frame:
  assumes "cache_partial_event env r n gid h p = Inr (r', p')"
  shows "\<exists>ev. p' = add_event ev p"
  using assms by (auto simp: cache_partial_event_def Let_def)

lemma cache_partial_block_index:
  assumes res: "cache_partial_block env r b n gid block_size rep p = Inr (x, r', p')"
    and ok: "index_ok p" and b: "b < length (blocks p)"
  shows "index_step p p'" and "x = None \<longleftrightarrow> is_null (blk p b)"
    and "x = Some key \<Longrightarrow> key \<in> set (hash_list p' b)"
proof -
  have "index_step p p' \<and> (x = None \<longleftrightarrow> is_null (blk p b)) \<and> (x = Some key \<longrightarrow> key \<in> set (hash_list p' b))"
  proof (cases "is_null (blk p b)")
    case True
    with res ok show ?thesis by (auto simp: cache_partial_block_def index_step_def)
  next
    case False
    let ?n = "n div hash_block_size p * hash_block_size p"
    from False res obtain c k p2 where
      ins0: "insert_block_hash k b (Some ?n) (snd (partial_prepare rep c b ?n p)) = Inr p2"
      and x: "x = Some k" and p': "p' = p2 \<or> (\<exists>ev. p' = add_event ev p2)"
      unfolding cache_partial_block_def Let_def split_beta
      by (simp split: if_splits) (blast dest: cache_partial_event_frame)+
    define p1 where "p1 = snd (partial_prepare rep c b ?n p)"
    note ins = ins0 [folded p1_def]
    have p1: "p1 = p \<or> p1 = drop_hashes b p" by (simp add: p1_def partial_prepare_def)
    have s: "index_step p p1" using p1 ok drop_hashes_spec [OF ok b] by (auto simp: index_step_def)
    then have "index_ok p1" "b < length (blocks p1)" using b hash_onlyD(1) by (auto simp: index_step_def)
    from insert_hash_spec [OF this, of k "Some (n div hash_block_size p * hash_block_size p)"] obtain q where
      q: "insert_block_hash k b (Some (n div hash_block_size p * hash_block_size p)) p1 = Inr q"
        "hash_only p1 q" "index_ok q"
        "\<And>j. hash_list q j = (if j = b \<and> k \<notin> set (hash_list p1 b) then hash_list p1 b @ [k] else hash_list p1 j)"
      by blast
    have "q = p2" using ins q(1) by simp
    with q have p2: "index_step p1 p2" "k \<in> set (hash_list p2 b)" by (auto simp: index_step_def)
    from index_step_trans [OF s p2(1)] p2(2) p' x False show ?thesis by (auto simp: index_step_def)
  qed
  then show "index_step p p'" "x = None \<longleftrightarrow> is_null (blk p b)"
    "x = Some key \<Longrightarrow> key \<in> set (hash_list p' b)" by blast+
qed

lemma insert_hash_events:
  "insert_block_hash key i n p = Inr p' \<Longrightarrow> kv_event_queue p' = kv_event_queue p"
  by (auto simp: insert_block_hash_def Let_def split: if_splits)

lemma remove_hashes_events: "kv_event_queue (snd (remove_cached_block_hashes i p)) = kv_event_queue p"
  by (simp add: remove_cached_block_hashes_def Let_def split_beta)

lemma insert_hashes_loop:
  assumes "index_ok p" and "dst < length (blocks p)" and "distinct (hash_list p dst @ hs)"
  shows "\<exists>p'. for_res (\<lambda>h. insert_block_hash h dst n) hs p = Inr p' \<and> index_step p p' \<and>
    kv_event_queue p' = kv_event_queue p \<and>
    (\<forall>j. hash_list p' j = (if j = dst then hash_list p dst @ hs else hash_list p j))"
  using assms
proof (induction hs arbitrary: p)
  case Nil
  then show ?case by (simp add: index_step_refl)
next
  case (Cons h hs)
  from insert_hash_spec [OF Cons.prems(1,2), of h n] obtain p1 where
    p1: "insert_block_hash h dst n p = Inr p1" "hash_only p p1" "index_ok p1"
      "\<And>j. hash_list p1 j = (if j = dst \<and> h \<notin> set (hash_list p dst) then hash_list p dst @ [h] else hash_list p j)"
    by blast
  have d: "hash_list p1 dst = hash_list p dst @ [h]" using p1(4) Cons.prems(3) by simp
  have "dst < length (blocks p1)" using Cons.prems(2) hash_onlyD(1) [OF p1(2)] by simp
  from Cons.IH [OF p1(3) this] Cons.prems(3) d obtain p' where
    p': "for_res (\<lambda>h. insert_block_hash h dst n) hs p1 = Inr p'" "index_step p1 p'"
      "kv_event_queue p' = kv_event_queue p1"
      "\<forall>j. hash_list p' j = (if j = dst then hash_list p1 dst @ hs else hash_list p1 j)" by auto
  have "index_step p p1" using p1(2,3) by (simp add: index_step_def)
  from index_step_trans [OF this p'(2)] p'(1,3,4) p1(1,4) d insert_hash_events [OF p1(1)] show ?case by simp
qed

lemma move_block_hashes_spec:
  assumes ok: "index_ok p" and b: "src < length (blocks p)" "dst < length (blocks p)"
    and dst: "block_hash (blk p dst) = None"
  shows "\<exists>p'. move_block_hashes src dst p = Inr p' \<and> index_step p p' \<and> kv_event_queue p' = kv_event_queue p \<and>
    (\<forall>j. hash_list p' j = (if j = dst then hash_list p src else if j = src then [] else hash_list p j))"
proof -
  define p1 where "p1 = snd (remove_cached_block_hashes src p)"
  note R = remove_hashes_spec [OF ok b(1), folded p1_def]
  have "index_step p p1" using R(2,3) by (simp add: index_step_def)
  moreover have d: "dst < length (blocks p1)" using b(2) hash_onlyD(1) [OF R(2)] by simp
  have none: "hash_list p dst = []" "hash_list p1 dst = []" using hash_list_Nil [OF ok b(2)] dst R(4) by auto
  have "distinct (hash_list p1 dst @ hash_list p src)" using none ok b(1) by (simp add: index_ok_def)
  from insert_hashes_loop [OF R(3) d this] obtain p' where
    p': "for_res (\<lambda>h. insert_block_hash h dst (block_hash_num_tokens (blk p src))) (hash_list p src) p1 = Inr p'"
      "index_step p1 p'" "kv_event_queue p' = kv_event_queue p1"
      "\<forall>j. hash_list p' j = (if j = dst then hash_list p1 dst @ hash_list p src else hash_list p1 j)" by blast
  moreover have "cached_block_hashes_by_block p dst = None" using ok b(2) dst by (simp add: index_ok_def)
  then have "move_block_hashes src dst p = Inr p'"
    using p'(1) R(1) dst by (simp add: move_block_hashes_def Let_def split_beta p1_def)
  moreover have "kv_event_queue p1 = kv_event_queue p" by (simp add: p1_def remove_hashes_events)
  ultimately show ?thesis using index_step_trans none R(4) by auto
qed

lemma evict_blocks_index:
  assumes "index_ok p" and "\<forall>i \<in> set ids. i < length (blocks p)"
  shows "\<exists>p'. evict_blocks ids p = Inr p' \<and> index_step p p' \<and>
    (\<forall>j. hash_list p' j = (if j \<in> set ids then [] else hash_list p j))"
  using assms unfolding evict_blocks_def
proof (induction ids arbitrary: p)
  case Nil
  then show ?case by (simp add: index_step_refl)
next
  case (Cons i ids)
  define p1 where "p1 = snd (maybe_evict_cached_block i p)"
  have i: "i < length (blocks p)" using Cons.prems by simp
  note E = evict_spec [OF Cons.prems(1) i, folded p1_def]
  have "\<forall>j \<in> set ids. j < length (blocks p1)" using Cons.prems(2) hash_onlyD(1) [OF E(1)] by simp
  from Cons.IH [OF E(2) this] obtain p' where
    "for_res evict_step ids p1 = Inr p'" "index_step p1 p'"
    "\<forall>j. hash_list p' j = (if j \<in> set ids then [] else hash_list p1 j)" by blast
  moreover have "evict_step i p = Inr p1" using i by (simp add: evict_step_def p1_def)
  moreover have "index_step p p1" using E(1,2) by (simp add: index_step_def)
  ultimately show ?case using index_step_trans E(3) by auto
qed

end
