(* ===== verification/BlockPoolAlloc.thy ===== *)
theory BlockPoolAlloc
  imports BlockPoolInv
begin

text \<open>
  Allocation and release in the block pool: every operation that moves reference counts or the free
  queue is shown total on well-formed pools, with its exact effect on the free list and the counts,
  and to keep the invariant. The last part makes the operations the steps of a transition system and
  shows the invariant for every reachable pool.
\<close>

section \<open>Reference counts\<close>

abbreviation rc :: "'a queue_heap_scheme \<Rightarrow> nat \<Rightarrow> int" where
  "rc p i \<equiv> ref_cnt (blk p i)"

definition same_config :: "block_pool \<Rightarrow> block_pool \<Rightarrow> bool" where
  "same_config p p' \<longleftrightarrow> length (blocks p') = length (blocks p) \<and> num_gpu_blocks p' = num_gpu_blocks p \<and>
     null_block p' = null_block p \<and> enable_caching p' = enable_caching p \<and>
     hash_block_size p' = hash_block_size p \<and> enable_kv_cache_events p' = enable_kv_cache_events p"

lemma same_config_refl [simp]: "same_config p p"
  by (simp add: same_config_def)

lemma same_config_trans [trans]: "same_config p p' \<Longrightarrow> same_config p' p'' \<Longrightarrow> same_config p p''"
  by (simp add: same_config_def)

lemma hash_only_config: "hash_only p p' \<Longrightarrow> same_config p p'"
  using hash_onlyD by (simp add: same_config_def)

lemma refs_only_config: "refs_only p p' \<Longrightarrow> same_config p p'"
  using refs_onlyD by (simp add: same_config_def)

lemma hash_only_rc: "hash_only p p' \<Longrightarrow> i < length (blocks p) \<Longrightarrow> rc p' i = rc p i"
  using reset_hash_eqD(2) [OF hash_only_blk] by blast

lemma refs_only_hashes:
  "refs_only p p' \<Longrightarrow> i < length (blocks p) \<Longrightarrow> hash_list p' i = hash_list p i"
  using refs_only_blk refs_onlyD(8) by (simp add: hash_list_def)

lemma links_only_rc: "links_only p p' \<Longrightarrow> i < length (blocks p) \<Longrightarrow> rc p' i = rc p i"
  using unlink_eqD(2) [OF links_only_nth] by blast

lemma set_ref_cnt_simps [simp]:
  "length (blocks (set_ref_cnt i n p)) = length (blocks p)"
  "i < length (blocks p) \<Longrightarrow> blk (set_ref_cnt i n p) j = (if j = i then (blk p i)\<lparr>ref_cnt := n\<rparr> else blk p j)"
  by (simp_all add: set_ref_cnt_def)

lemma refs_only_fields [simp]:
  "refs_only p (p'\<lparr>metrics_collector := ms\<rparr>) = refs_only p p'"
  "refs_only p (p'\<lparr>reuse_watchers := ws\<rparr>) = refs_only p p'"
  "refs_only p (p'\<lparr>reuse_calls := cs\<rparr>) = refs_only p p'"
  by (cases p; cases p'; simp add: refs_only_def)+

lemma refs_only_set_ref_cnt: "refs_only p (set_ref_cnt i n p)"
proof -
  have "map hashes_of ((blocks p)[i := (blk p i)\<lparr>ref_cnt := n\<rparr>]) = map hashes_of (blocks p)"
    by (rule map_update_same [where g = "\<lambda>b. b\<lparr>ref_cnt := n\<rparr>"]) (simp add: hashes_of_def)
  then show ?thesis by (cases p) (simp add: refs_only_def set_ref_cnt_def)
qed

lemma refs_ok_cong:
  assumes "blocks p' = blocks p" and "fake_free_list_head p' = fake_free_list_head p"
    and "fake_free_list_tail p' = fake_free_list_tail p" and "num_free_blocks p' = num_free_blocks p"
  shows "refs_ok p' free pend = refs_ok p free pend"
proof -
  have "deref p' r = deref p r" for r using assms by (cases r) (simp_all add: deref.simps)
  then have "fq_repr p' free = fq_repr p free" using assms by (intro fq_repr_cong) simp_all
  with assms(1) show ?thesis by (simp add: refs_ok_def)
qed

lemma refs_ok_fields [simp]:
  "refs_ok (p\<lparr>metrics_collector := ms\<rparr>) free pend = refs_ok p free pend"
  "refs_ok (p\<lparr>reuse_watchers := ws\<rparr>) free pend = refs_ok p free pend"
  "refs_ok (p\<lparr>reuse_calls := cs\<rparr>) free pend = refs_ok p free pend"
  "refs_ok (p\<lparr>kv_event_queue := es\<rparr>) free pend = refs_ok p free pend"
  by (rule refs_ok_cong; simp)+

lemma fq_repr_set_ref_cnt [simp]: "fq_repr (set_ref_cnt i n p) free = fq_repr p free"
proof (rule fq_repr_cong)
  fix r assume "valid_ptr p r"
  then show "nextp (set_ref_cnt i n p) r = nextp p r" "prevp (set_ref_cnt i n p) r = prevp p r"
    by (cases "i < length (blocks p)"; cases r; simp add: deref.simps set_ref_cnt_def nth_list_update)+
qed (simp_all add: set_ref_cnt_def)

text \<open>The queue may move blocks between the free list and the pending set.\<close>

lemma refs_ok_links:
  assumes "refs_ok p free pend" and "links_only p p'" and "fq_repr p' free'"
    and "set free' \<union> pend' = set free \<union> pend" and "set free' \<inter> pend' = {}"
  shows "refs_ok p' free' pend'"
proof -
  have "block_id (blk p' i) = block_id (blk p i) \<and> is_null (blk p' i) = is_null (blk p i) \<and> rc p' i = rc p i"
    if "i < length (blocks p)" for i
    using unlink_eqD(1,2,6) [OF links_only_nth [OF assms(2) that]] by simp
  moreover have "pend' \<subseteq> {..<length (blocks p)}"
    using assms(1,4) fq_reprD(5) [of p free] by (auto simp: refs_ok_def)
  ultimately show ?thesis
    using assms links_only_length [OF assms(2)] unfolding refs_ok_def by auto
qed

lemma refs_ok_set_ref_cnt:
  assumes "refs_ok p free pend" and "i < length (blocks p)"
    and "i \<noteq> 0 \<Longrightarrow> 0 \<le> n \<and> (n = 0 \<longleftrightarrow> i \<in> set free \<union> pend')"
    and "pend' - {i} = pend - {i}" and "set free \<inter> pend' = {}" and "0 \<notin> pend'"
  shows "refs_ok (set_ref_cnt i n p) free pend'"
proof -
  have "j \<in> pend' \<longleftrightarrow> j \<in> pend" if "j \<noteq> i" for j using assms(4) that by blast
  moreover have "pend' \<subseteq> {..<length (blocks p)}" using assms(1,2,4) by (auto simp: refs_ok_def)
  ultimately show ?thesis using assms unfolding refs_ok_def by auto
qed

section \<open>Allocation\<close>

lemma refs_okD:
  assumes "refs_ok p free pend"
  shows "fq_repr p free" "distinct free" "num_free_blocks p = int (length free)"
    "i \<in> set free \<union> pend \<Longrightarrow> i < length (blocks p)" "i \<in> set free \<union> pend \<Longrightarrow> i \<noteq> 0"
    "i \<in> set free \<union> pend \<Longrightarrow> rc p i = 0" "set free \<inter> pend = {}"
    "i < length (blocks p) \<Longrightarrow> is_null (blk p i) \<longleftrightarrow> i = 0"
    "i < length (blocks p) \<Longrightarrow> i \<noteq> 0 \<Longrightarrow> 0 \<le> rc p i"
    "i < length (blocks p) \<Longrightarrow> i \<noteq> 0 \<Longrightarrow> rc p i = 0 \<longleftrightarrow> i \<in> set free \<union> pend"
    "0 < length (blocks p)"
proof -
  show fq: "fq_repr p free" using assms by (simp add: refs_ok_def)
  show "distinct free" "num_free_blocks p = int (length free)" using fq_reprD(1,2) [OF fq] by auto
  show a: "i \<in> set free \<union> pend \<Longrightarrow> i < length (blocks p)"
    using assms fq_reprD(5) [OF fq] by (auto simp: refs_ok_def)
  show b: "i \<in> set free \<union> pend \<Longrightarrow> i \<noteq> 0" using assms by (auto simp: refs_ok_def)
  show "i \<in> set free \<union> pend \<Longrightarrow> rc p i = 0" using a b assms unfolding refs_ok_def by blast
qed (use assms in \<open>auto simp: refs_ok_def\<close>)

lemma free_iff:
  assumes "refs_ok p free {}"
  shows "i \<in> set free \<longleftrightarrow> i < length (blocks p) \<and> i \<noteq> 0 \<and> rc p i = 0"
  using refs_okD(4,5,6,10) [OF assms, of i] by blast

lemma count_list_distinct: "distinct xs \<Longrightarrow> count_list xs i = (if i \<in> set xs then 1 else 0)"
  by (induction xs) auto

lemma notify_reuse_frame:
  "\<exists>ws cs. notify_reuse is p = p\<lparr>reuse_watchers := ws, reuse_calls := cs\<rparr>"
proof (induction "is" arbitrary: p)
  case Nil
  show ?case by (rule exI [of _ "reuse_watchers p"], rule exI [of _ "reuse_calls p"]) (simp add: notify_reuse_def)
next
  case (Cons i "is")
  define p1 where "p1 = notify_reuse [i] p"
  obtain ws1 cs1 where p1: "p1 = p\<lparr>reuse_watchers := ws1, reuse_calls := cs1\<rparr>"
  proof (cases "map_of (reuse_watchers p) i")
    case None
    then show thesis using that [of "reuse_calls p" "reuse_watchers p"] by (simp add: p1_def notify_reuse_def)
  next
    case (Some w)
    then show thesis using that by (simp add: p1_def notify_reuse_def)
  qed
  have "notify_reuse (i # is) p = notify_reuse is p1" by (simp add: p1_def notify_reuse_def)
  moreover obtain ws cs where "notify_reuse is p1 = p1\<lparr>reuse_watchers := ws, reuse_calls := cs\<rparr>"
    using Cons by blast
  ultimately show ?case by (intro exI [of _ ws] exI [of _ cs]) (simp add: p1)
qed

lemma alloc_step_spec:
  assumes refs: "refs_ok p free pend" and idx: "index_ok p" and i: "i \<in> pend"
  obtains p' where "alloc_step i p = Inr p'" and "refs_ok p' free (pend - {i})" and "index_ok p'"
    and "same_config p p'" and "rc p' i = 1"
    and "hash_list p' i = (if enable_caching p then [] else hash_list p i)"
    and "\<And>j. j < length (blocks p) \<Longrightarrow> j \<noteq> i \<Longrightarrow> rc p' j = rc p j \<and> hash_list p' j = hash_list p j"
proof -
  have il: "i < length (blocks p)" and i0: "i \<noteq> 0" and rc0: "rc p i = 0" using refs_okD(4-6) [OF refs] i by auto
  define p1 where "p1 = (if enable_caching p then snd (maybe_evict_cached_block i p) else p)"
  have p1: "hash_only p p1" "index_ok p1"
    "\<And>j. hash_list p1 j = (if j = i \<and> enable_caching p then [] else hash_list p j)"
    using evict_spec [OF idx il] idx by (auto simp: p1_def)
  have len: "length (blocks p1) = length (blocks p)" using hash_onlyD(1) [OF p1(1)] .
  have rc1: "rc p1 j = rc p j" if "j < length (blocks p)" for j using hash_only_rc [OF p1(1) that] .
  define p2 where "p2 = set_ref_cnt i 1 p1"
  define p' where "p' = metrics_log (OnAllocated i) p2"
  have "alloc_step i p = Inr p'"
    using rc1 [OF il] rc0 by (simp add: alloc_step_def Let_def p'_def p2_def p1_def [symmetric])
  moreover have refs2: "refs_ok p2 free (pend - {i})"
    unfolding p2_def using refs_ok_hash_only [OF p1(1) refs] il len i0 refs_okD(5,7) [OF refs] i
    by (intro refs_ok_set_ref_cnt [where pend = pend]) auto
  moreover have ro: "refs_only p1 p2" unfolding p2_def by (rule refs_only_set_ref_cnt)
  then have "index_ok p2" using index_ok_refs_only p1(2) by blast
  moreover have "same_config p p2"
    using same_config_trans [OF hash_only_config [OF p1(1)] refs_only_config [OF ro]] .
  moreover have "hash_list p2 j = hash_list p1 j" if "j < length (blocks p)" for j
    using refs_only_hashes [OF ro] that len by simp
  moreover have "rc p2 j = (if j = i then 1 else rc p j)" if "j < length (blocks p)" for j
    using that il len rc1 by (simp add: p2_def)
  ultimately show thesis
    using il p1(3) by (intro that [of p']) (auto simp: p'_def metrics_log_def same_config_def)
qed

lemma alloc_loop_spec:
  assumes "refs_ok p free pend" and "index_ok p" and "distinct ret" and "set ret = pend"
  shows "\<exists>p'. for_res alloc_step ret p = Inr p' \<and> refs_ok p' free {} \<and> index_ok p' \<and> same_config p p' \<and>
    (\<forall>j < length (blocks p). if j \<in> set ret
       then rc p' j = 1 \<and> hash_list p' j = (if enable_caching p then [] else hash_list p j)
       else rc p' j = rc p j \<and> hash_list p' j = hash_list p j)"
  using assms
proof (induction ret arbitrary: p pend)
  case Nil
  then show ?case by simp
next
  case (Cons i ret)
  from Cons.prems(4) have "i \<in> pend" by auto
  from alloc_step_spec [OF Cons.prems(1,2) this] obtain p1 where
    p1: "alloc_step i p = Inr p1" "refs_ok p1 free (pend - {i})" "index_ok p1" "same_config p p1" "rc p1 i = 1"
      "hash_list p1 i = (if enable_caching p then [] else hash_list p i)"
      "\<And>j. j < length (blocks p) \<Longrightarrow> j \<noteq> i \<Longrightarrow> rc p1 j = rc p j \<and> hash_list p1 j = hash_list p j" by metis
  have "set ret = pend - {i}" using Cons.prems(3,4) by auto
  from Cons.IH [OF p1(2,3) _ this] Cons.prems(3) obtain p' where
    p': "for_res alloc_step ret p1 = Inr p'" "refs_ok p' free {}" "index_ok p'" "same_config p1 p'"
      "\<forall>j < length (blocks p1). if j \<in> set ret
         then rc p' j = 1 \<and> hash_list p' j = (if enable_caching p1 then [] else hash_list p1 j)
         else rc p' j = rc p1 j \<and> hash_list p' j = hash_list p1 j" by auto
  have c: "length (blocks p1) = length (blocks p)" "enable_caching p1 = enable_caching p"
    using p1(4) by (auto simp: same_config_def)
  have "\<forall>j < length (blocks p). if j \<in> set (i # ret)
       then rc p' j = 1 \<and> hash_list p' j = (if enable_caching p then [] else hash_list p j)
       else rc p' j = rc p j \<and> hash_list p' j = hash_list p j"
    using p'(5) p1(5-7) c Cons.prems(3) by (auto split: if_splits)
  with p1(1) p' same_config_trans [OF p1(4)] show ?case by auto
qed

lemma map_res_as_blk [simp]: "map_res as_blk (map Blk xs) = Inr xs"
  by (induction xs) simp_all

lemma get_new_blocks_spec:
  assumes inv: "pool_inv p free" and n: "n \<le> length free"
  obtains p' where "get_new_blocks n p = Inr (take n free, p')" and "pool_inv p' (drop n free)"
    and "same_config p p'"
    and "\<And>j. j < length (blocks p) \<Longrightarrow> if j \<in> set (take n free)
       then rc p' j = 1 \<and> hash_list p' j = (if enable_caching p then [] else hash_list p j)
       else rc p' j = rc p j \<and> hash_list p' j = hash_list p j"
proof -
  have refs: "refs_ok p free {}" and idx: "index_ok p" using inv by (auto simp: pool_inv_def)
  from fq.pop_n_take [OF refs_okD(1) [OF refs] n] obtain p1 where
    p1: "popleft_n n p = Inr (map Blk (take n free), p1)" "fq_repr p1 (drop n free)" "links_only p p1" by blast
  have "set (drop n free) \<union> set (take n free) = set free \<union> {}"
    by (metis Un_commute Un_empty_right append_take_drop_id set_append)
  moreover have "set (drop n free) \<inter> set (take n free) = {}"
    using set_take_disj_set_drop_if_distinct [OF refs_okD(2) [OF refs], of n n] by blast
  ultimately have r1: "refs_ok p1 (drop n free) (set (take n free))"
    by (rule refs_ok_links [OF refs p1(3,2)])
  have ro: "refs_only p p1" using p1(3) by (rule links_only_refs_only)
  define p2 where "p2 = (if reuse_watchers p1 \<noteq> [] then notify_reuse (take n free) p1 else p1)"
  obtain ws cs where p2: "p2 = p1\<lparr>reuse_watchers := ws, reuse_calls := cs\<rparr>"
  proof (cases "reuse_watchers p1 = []")
    case True
    then show thesis using that [of "reuse_calls p1" "reuse_watchers p1"] by (simp add: p2_def)
  next
    case False
    then show thesis using notify_reuse_frame [of "take n free" p1] that by (auto simp: p2_def)
  qed
  have ro2: "refs_only p p2" using ro by (simp add: p2)
  have "refs_ok p2 (drop n free) (set (take n free))" using r1 by (simp add: p2)
  from alloc_loop_spec [OF this index_ok_refs_only [OF ro2 idx] distinct_take [OF refs_okD(2) [OF refs]] refl]
  obtain p' where p': "for_res alloc_step (take n free) p2 = Inr p'" "refs_ok p' (drop n free) {}" "index_ok p'"
      "same_config p2 p'"
      "\<forall>j < length (blocks p2). if j \<in> set (take n free)
         then rc p' j = 1 \<and> hash_list p' j = (if enable_caching p2 then [] else hash_list p2 j)
         else rc p' j = rc p2 j \<and> hash_list p' j = hash_list p2 j" by blast
  have conf: "same_config p p2" using ro2 by (rule refs_only_config)
  have same: "rc p2 j = rc p j" "hash_list p2 j = hash_list p j" if "j < length (blocks p)" for j
    using links_only_rc [OF p1(3) that] refs_only_hashes [OF ro2 that] by (simp_all add: p2)
  have "get_new_blocks n p = Inr (take n free, p')"
    using n refs_okD(3) [OF refs] p1(1) p'(1)
    by (simp add: get_new_blocks_def get_num_free_blocks_def p2_def [symmetric])
  moreover have "pool_inv p' (drop n free)"
    using p' conf inv by (auto simp: pool_inv_def same_config_def)
  ultimately show thesis
    using p'(4,5) conf same same_config_trans [OF conf p'(4)]
    by (intro that) (auto simp: same_config_def)
qed

lemma get_new_blocks_short:
  assumes "pool_inv p free" and "length free < n"
  shows "get_new_blocks n p = Inl ValueError"
proof -
  have "refs_ok p free {}" using assms(1) by (simp add: pool_inv_def)
  from refs_okD(3) [OF this] assms(2) show ?thesis by (simp add: get_new_blocks_def get_num_free_blocks_def)
qed

section \<open>Sharing\<close>

lemma touch_step_spec:
  assumes refs: "refs_ok p free {}" and il: "i < length (blocks p)"
  obtains p' where "touch_step i p = Inr p'" and "refs_ok p' (removeAll i free) {}" and "refs_only p p'"
    and "\<And>j. j < length (blocks p) \<Longrightarrow> rc p' j = (if j = i then rc p j + 1 else rc p j)"
proof -
  have ex: "\<exists>p1. (if rc p i = 0 \<and> \<not> is_null (blk p i) then remove_fq (Blk i) p else Inr p) = Inr p1 \<and>
      refs_ok p1 (removeAll i free) (if i \<in> set free then {i} else {}) \<and> links_only p p1"
  proof (cases "i \<in> set free")
    case True
    then obtain xs ys where free: "free = xs @ i # ys" by (meson split_list)
    with refs_okD(2) [OF refs] have notin: "i \<notin> set xs" "i \<notin> set ys" by auto
    then have rm: "removeAll i free = xs @ ys" by (simp add: free)
    from remove_fq_repr [of p xs i ys] refs_okD(1) [OF refs] free obtain p1 where
      p1: "remove_fq (Blk i) p = Inr p1" "fq_repr p1 (xs @ ys)" "links_only p p1" by blast
    have "refs_ok p1 (xs @ ys) {i}"
      using notin by (intro refs_ok_links [OF refs p1(3,2)]) (auto simp: free)
    with p1 rm True refs_okD(5,6) [OF refs, of i] refs_okD(8) [OF refs il] show ?thesis by auto
  next
    case False
    then have "\<not> (rc p i = 0 \<and> \<not> is_null (blk p i))"
      using refs_okD(8,10) [OF refs il] by auto
    with False refs show ?thesis by auto
  qed
  then obtain p1 where
    p1: "(if rc p i = 0 \<and> \<not> is_null (blk p i) then remove_fq (Blk i) p else Inr p) = Inr p1"
      "refs_ok p1 (removeAll i free) (if i \<in> set free then {i} else {})" "links_only p p1" by blast
  define p2 where "p2 = set_ref_cnt i (rc p1 i + 1) p1"
  have len: "length (blocks p1) = length (blocks p)" using links_only_length [OF p1(3)] .
  have rc1: "rc p1 j = rc p j" if "j < length (blocks p)" for j using links_only_rc [OF p1(3) that] .
  have "i \<noteq> 0 \<Longrightarrow> 0 \<le> rc p i" using refs_okD(9) [OF refs il] by blast
  then have "refs_ok p2 (removeAll i free) {}"
    unfolding p2_def using p1(2) il len rc1 [OF il] by (intro refs_ok_set_ref_cnt [OF p1(2)]) auto
  moreover have "refs_only p p2"
    using refs_only_trans [OF links_only_refs_only [OF p1(3)] refs_only_set_ref_cnt] by (simp add: p2_def)
  moreover have "touch_step i p = Inr (metrics_log (OnAccessed i) p2)"
    by (simp add: touch_step_def p1(1) p2_def)
  moreover have "rc p2 j = (if j = i then rc p j + 1 else rc p j)" if "j < length (blocks p)" for j
    using that len rc1 il by (simp add: p2_def)
  ultimately show thesis
    by (intro that [of "metrics_log (OnAccessed i) p2"]) (simp_all add: metrics_log_def)
qed

lemma touch_spec:
  assumes "refs_ok p free {}" and "\<forall>i \<in> set bs. i < length (blocks p)"
  shows "\<exists>p'. touch bs p = Inr p' \<and> refs_ok p' (filter (\<lambda>i. i \<notin> set bs) free) {} \<and> refs_only p p' \<and>
    (\<forall>j < length (blocks p). rc p' j = rc p j + int (count_list bs j))"
  using assms unfolding touch_def
proof (induction bs arbitrary: p free)
  case Nil
  then show ?case by simp
next
  case (Cons i bs)
  from Cons.prems touch_step_spec [of p free i] obtain p1 where
    p1: "touch_step i p = Inr p1" "refs_ok p1 (removeAll i free) {}" "refs_only p p1"
      "\<And>j. j < length (blocks p) \<Longrightarrow> rc p1 j = (if j = i then rc p j + 1 else rc p j)" by auto
  have len: "length (blocks p1) = length (blocks p)" using refs_onlyD(1) [OF p1(3)] .
  with Cons.IH [OF p1(2)] Cons.prems(2) obtain p' where
    p': "for_res touch_step bs p1 = Inr p'" "refs_ok p' (filter (\<lambda>i. i \<notin> set bs) (removeAll i free)) {}"
      "refs_only p1 p'" "\<forall>j < length (blocks p1). rc p' j = rc p1 j + int (count_list bs j)" by auto
  have eq: "filter (\<lambda>j. j \<notin> set bs) (removeAll i free) = filter (\<lambda>j. j \<notin> set (i # bs)) free"
    by (auto simp: removeAll_filter_not_eq intro: filter_cong)
  show ?case
  proof (intro exI conjI)
    show "for_res touch_step (i # bs) p = Inr p'" using p1(1) p'(1) by simp
    show "refs_ok p' (filter (\<lambda>j. j \<notin> set (i # bs)) free) {}" using p'(2) unfolding eq .
    show "refs_only p p'" using refs_only_trans [OF p1(3) p'(3)] .
    show "\<forall>j < length (blocks p). rc p' j = rc p j + int (count_list (i # bs) j)"
      using p'(4) p1(4) len by simp
  qed
qed

section \<open>Release\<close>

lemma dec_ref_spec:
  assumes "refs_ok p free pend" and "i < length (blocks p)" and "i \<noteq> 0 \<Longrightarrow> 0 < rc p i"
  shows "refs_ok (set_ref_cnt i (rc p i - 1) p) free (if i \<noteq> 0 \<and> rc p i = 1 then insert i pend else pend)"
proof -
  define z where "z \<longleftrightarrow> i \<noteq> 0 \<and> rc p i = 1"
  have out: "i \<notin> set free \<union> pend" if "i \<noteq> 0" using refs_okD(6) [OF assms(1), of i] assms(3) that by fastforce
  have zero: "0 \<notin> pend" and disj: "set free \<inter> pend = {}" using assms(1) by (auto simp: refs_ok_def)
  have "refs_ok (set_ref_cnt i (rc p i - 1) p) free (if z then insert i pend else pend)"
  proof (rule refs_ok_set_ref_cnt [OF assms(1,2)])
    assume i: "i \<noteq> 0"
    with assms(3) out show "0 \<le> rc p i - 1 \<and> (rc p i - 1 = 0 \<longleftrightarrow> i \<in> set free \<union> (if z then insert i pend else pend))"
      unfolding z_def by (cases "rc p i = 1") simp_all
  next
    show "set free \<inter> (if z then insert i pend else pend) = {}" using disj out by (simp add: z_def)
    show "0 \<notin> (if z then insert i pend else pend)" using zero by (simp add: z_def)
  qed simp
  then show ?thesis by (simp add: z_def)
qed

text \<open>The blocks that lose their last reference, each at its last occurrence.\<close>

definition released :: "block_pool \<Rightarrow> nat list \<Rightarrow> nat list" where
  "released p bs = filter (\<lambda>i. i \<noteq> 0 \<and> rc p i = int (count_list bs i)) (remdups bs)"

definition evict_first :: "block_pool \<Rightarrow> nat \<Rightarrow> bool" where
  "evict_first p i \<longleftrightarrow> block_hash (blk p i) = None \<or> \<not> enable_caching p"

definition releasable :: "block_pool \<Rightarrow> nat list \<Rightarrow> bool" where
  "releasable p bs \<longleftrightarrow> (\<forall>i \<in> set bs. i < length (blocks p) \<and> (i \<noteq> 0 \<longrightarrow> int (count_list bs i) \<le> rc p i))"

lemma releasable_Cons:
  assumes "releasable p (i # bs)"
  shows "i < length (blocks p)" "i \<noteq> 0 \<Longrightarrow> 0 < rc p i"
    "releasable (set_ref_cnt i (rc p i - 1) p) bs"
    "released p (i # bs) = (if i \<noteq> 0 \<and> rc p i = 1 then [i] else []) @ released (set_ref_cnt i (rc p i - 1) p) bs"
proof -
  show il: "i < length (blocks p)" using assms by (simp add: releasable_def)
  show "0 < rc p i" if "i \<noteq> 0"
  proof -
    have "int (count_list (i # bs) i) \<le> rc p i" using assms that unfolding releasable_def by simp
    then show ?thesis by simp
  qed
  show "releasable (set_ref_cnt i (rc p i - 1) p) bs"
    unfolding releasable_def
  proof (intro ballI)
    fix j assume j: "j \<in> set bs"
    then have "j < length (blocks p)" "j \<noteq> 0 \<Longrightarrow> int (count_list (i # bs) j) \<le> rc p j"
      using assms unfolding releasable_def by simp_all
    then show "j < length (blocks (set_ref_cnt i (rc p i - 1) p)) \<and>
        (j \<noteq> 0 \<longrightarrow> int (count_list bs j) \<le> rc (set_ref_cnt i (rc p i - 1) p) j)"
      using il by (cases "j = 0"; cases "j = i") simp_all
  qed
  have once: "count_list bs i = 0 \<longleftrightarrow> i \<notin> set bs" by (simp add: count_list_0_iff)
  define Q where "Q j \<longleftrightarrow> j \<noteq> 0 \<and> rc p j = int (count_list (i # bs) j)" for j
  have rest: "filter Q (remdups bs) = released (set_ref_cnt i (rc p i - 1) p) bs"
    unfolding released_def using il by (auto intro!: filter_cong simp: Q_def)
  have "\<not> (i \<noteq> 0 \<and> rc p i = 1)" if i: "i \<in> set bs"
  proof
    assume z: "i \<noteq> 0 \<and> rc p i = 1"
    then have "int (count_list (i # bs) i) \<le> 1" using assms unfolding releasable_def by simp
    with once i show False by simp
  qed
  moreover have "i \<notin> set bs \<Longrightarrow> Q i \<longleftrightarrow> i \<noteq> 0 \<and> rc p i = 1" using once by (simp add: Q_def)
  moreover have "released p (i # bs) = filter Q (remdups (i # bs))" unfolding released_def Q_def [abs_def] ..
  ultimately show "released p (i # bs) =
      (if i \<noteq> 0 \<and> rc p i = 1 then [i] else []) @ released (set_ref_cnt i (rc p i - 1) p) bs"
    unfolding rest [symmetric] by (cases "i \<in> set bs") auto
qed

lemma free_loop_spec:
  assumes "refs_ok p free (set ef \<union> set el)" and "distinct (ef @ el)" and "releasable p bs"
  shows "\<exists>p'. fold free_step bs (ef, el, p) =
      (ef @ filter (evict_first p) (released p bs), el @ filter (\<lambda>i. \<not> evict_first p i) (released p bs), p') \<and>
    refs_only p p' \<and> refs_ok p' free (set ef \<union> set el \<union> set (released p bs)) \<and>
    (\<forall>j < length (blocks p). rc p' j = rc p j - int (count_list bs j))"
  using assms
proof (induction bs arbitrary: p ef el)
  case Nil
  then show ?case by (simp add: released_def)
next
  case (Cons i bs)
  note R = releasable_Cons [OF Cons.prems(3)]
  define p1 where "p1 = set_ref_cnt i (rc p i - 1) p"
  define z where "z \<longleftrightarrow> i \<noteq> 0 \<and> rc p i = 1"
  define ef1 where "ef1 = (if z \<and> evict_first p i then ef @ [i] else ef)"
  define el1 where "el1 = (if z \<and> \<not> evict_first p i then el @ [i] else el)"
  have ro: "refs_only p p1" unfolding p1_def by (rule refs_only_set_ref_cnt)
  have ev: "evict_first p1 j = evict_first p j" if "j < length (blocks p)" for j
    using refs_only_blk(1) [OF ro that] refs_onlyD(4) [OF ro] by (simp add: evict_first_def)
  have null: "is_null (blk p i) \<longleftrightarrow> i = 0" using refs_okD(8) [OF Cons.prems(1) R(1)] .
  have "blk p1 i = (blk p i)\<lparr>ref_cnt := rc p i - 1\<rparr>" using R(1) by (simp add: p1_def)
  then have b1: "(rc p1 i = 0 \<and> \<not> is_null (blk p1 i)) = z"
    "(block_hash (blk p1 i) = None \<or> \<not> enable_caching p1) = evict_first p i"
    using null ev [OF R(1)] by (auto simp: z_def evict_first_def)
  have step: "free_step i (ef, el, p) = (ef1, el1, p1)"
    unfolding free_step_def Let_def split p1_def [symmetric] b1 by (simp add: ef1_def el1_def)
  have "refs_ok p1 free (if z then insert i (set ef \<union> set el) else set ef \<union> set el)"
    using dec_ref_spec [OF Cons.prems(1) R(1,2)] by (simp add: p1_def z_def)
  then have r1: "refs_ok p1 free (set ef1 \<union> set el1)" by (simp add: ef1_def el1_def split: if_splits)
  have "i \<notin> set ef \<union> set el" if z using refs_okD(6) [OF Cons.prems(1), of i] that by (auto simp: z_def)
  then have d1: "distinct (ef1 @ el1)" using Cons.prems(2) by (auto simp: ef1_def el1_def)
  from Cons.IH [OF r1 d1 R(3) [folded p1_def]] obtain p' where
    p': "fold free_step bs (ef1, el1, p1) =
        (ef1 @ filter (evict_first p1) (released p1 bs), el1 @ filter (\<lambda>i. \<not> evict_first p1 i) (released p1 bs), p')"
      "refs_only p1 p'" "refs_ok p' free (set ef1 \<union> set el1 \<union> set (released p1 bs))"
      "\<forall>j < length (blocks p1). rc p' j = rc p1 j - int (count_list bs j)" by blast
  have rel: "released p (i # bs) = (if z then [i] else []) @ released p1 bs" using R(4) by (simp add: p1_def z_def)
  have inb: "j < length (blocks p)" if "j \<in> set (released p1 bs)" for j
    using that R(3) by (auto simp: released_def releasable_def p1_def)
  have f: "filter (evict_first p1) (released p1 bs) = filter (evict_first p) (released p1 bs)"
    "filter (\<lambda>i. \<not> evict_first p1 i) (released p1 bs) = filter (\<lambda>i. \<not> evict_first p i) (released p1 bs)"
    using ev inb by (auto intro!: filter_cong)
  have "fold free_step (i # bs) (ef, el, p) =
      (ef @ filter (evict_first p) (released p (i # bs)), el @ filter (\<lambda>i. \<not> evict_first p i) (released p (i # bs)), p')"
    using p'(1) by (simp add: step f rel) (simp add: ef1_def el1_def)
  moreover have "set ef \<union> set el \<union> set (released p (i # bs)) = set ef1 \<union> set el1 \<union> set (released p1 bs)"
    by (auto simp: rel ef1_def el1_def)
  moreover have "\<forall>j < length (blocks p). rc p' j = rc p j - int (count_list (i # bs) j)"
    using p'(4) R(1) by (auto simp: p1_def)
  ultimately show ?case using p'(2,3) refs_only_trans [OF ro] by auto
qed

lemma released_props:
  "distinct (released p bs)" "i \<in> set (released p bs) \<Longrightarrow> i \<noteq> 0"
  by (auto simp: released_def)

lemma free_own_blocks_spec:
  assumes inv: "pool_inv p free" and rel: "releasable p bs"
  obtains p' where "free_own_blocks bs p = Inr p'" and "refs_only p p'"
    and "pool_inv p' (filter (evict_first p) (released p bs) @ free @ filter (\<lambda>i. \<not> evict_first p i) (released p bs))"
    and "\<And>j. j < length (blocks p) \<Longrightarrow> rc p' j = rc p j - int (count_list bs j)"
proof -
  let ?ef = "filter (evict_first p) (released p bs)" and ?el = "filter (\<lambda>i. \<not> evict_first p i) (released p bs)"
  have refs: "refs_ok p free (set [] \<union> set [])" and idx: "index_ok p" using inv by (auto simp: pool_inv_def)
  from free_loop_spec [OF refs _ rel] obtain p1 where
    p1: "fold free_step bs ([], [], p) = (?ef, ?el, p1)" "refs_only p p1"
      "refs_ok p1 free (set (released p bs))" "\<forall>j < length (blocks p). rc p1 j = rc p j - int (count_list bs j)"
    by auto
  have un: "set ?ef \<union> set ?el = set (released p bs)" by auto
  have bound: "i < length (blocks p1)" "i \<notin> set free" if "i \<in> set (released p bs)" for i
    using refs_okD(4,7) [OF p1(3)] that by auto
  have d: "distinct ?ef" "distinct ?el" "set ?ef \<inter> set ?el = {}" using released_props(1) [of p bs] by auto
  have "distinct (?ef @ free)" using d(1) refs_okD(2) [OF p1(3)] bound(2) by auto
  from prepend_n_repr [OF refs_okD(1) [OF p1(3)] this] bound(1) obtain p2 where
    p2: "prepend_n (map Blk ?ef) p1 = Inr p2" "fq_repr p2 (?ef @ free)" "links_only p1 p2" by auto
  have r2: "refs_ok p2 (?ef @ free) (set ?el)"
    using un d(3) bound(2) by (intro refs_ok_links [OF p1(3) p2(3,2)]) auto
  have "distinct ((?ef @ free) @ ?el)" using d refs_okD(2) [OF r2] refs_okD(7) [OF r2] by auto
  moreover have "\<forall>i \<in> set ?el. i < length (blocks p2)" using refs_okD(4) [OF r2] by blast
  ultimately obtain p3 where
    p3: "append_n (map Blk ?el) p2 = Inr p3" "fq_repr p3 ((?ef @ free) @ ?el)" "links_only p2 p3"
    using append_n_repr [OF p2(2)] by blast
  have r3: "refs_ok p3 ((?ef @ free) @ ?el) {}"
    by (intro refs_ok_links [OF r2 p3(3,2)]) auto
  have ro: "refs_only p p3"
    using refs_only_trans [OF p1(2) refs_only_trans [OF links_only_refs_only [OF p2(3)] links_only_refs_only [OF p3(3)]]] .
  have len: "length (blocks p1) = length (blocks p)" "length (blocks p2) = length (blocks p)"
    using refs_onlyD(1) [OF p1(2)] links_only_length [OF p2(3)] by simp_all
  show thesis
  proof (rule that [OF _ ro])
    show "free_own_blocks bs p = Inr p3" by (simp add: free_own_blocks_def p1(1) p2(1) p3(1))
    show "pool_inv p3 (?ef @ free @ ?el)"
      using r3 index_ok_refs_only [OF ro idx] inv refs_onlyD(1-3) [OF ro] by (simp add: pool_inv_def)
    show "rc p3 j = rc p j - int (count_list bs j)" if "j < length (blocks p)" for j
      using p1(4) links_only_rc [OF p2(3)] links_only_rc [OF p3(3)] that len by simp
  qed
qed

lemma unpin_loop_spec:
  assumes "refs_ok p free (set rel)" and "releasable p bs" and "0 \<notin> set bs"
  shows "\<exists>p'. for_res (unpin_step w) bs (rel, p) = Inr (rel @ released p bs, p') \<and>
    refs_only p p' \<and> refs_ok p' free (set rel \<union> set (released p bs)) \<and>
    (\<forall>j < length (blocks p). rc p' j = rc p j - int (count_list bs j))"
  using assms
proof (induction bs arbitrary: p rel)
  case Nil
  then show ?case by (simp add: released_def)
next
  case (Cons i bs)
  note R = releasable_Cons [OF Cons.prems(2)]
  define p1 where "p1 = set_ref_cnt i (rc p i - 1) p"
  define p2 where "p2 = p1\<lparr>reuse_watchers := watch i w (reuse_watchers p1)\<rparr>"
  define rel1 where "rel1 = (if rc p i = 1 then rel @ [i] else rel)"
  have i0: "i \<noteq> 0" using Cons.prems(3) by auto
  have null: "\<not> is_null (blk p i)" using refs_okD(8) [OF Cons.prems(1) R(1)] i0 by simp
  have rc2: "rc p2 i = rc p i - 1" "rc p1 i = rc p i - 1" using R(1) by (simp_all add: p2_def p1_def)
  have step: "unpin_step w i (rel, p) = Inr (rel1, p2)"
    using R(2) [OF i0] null rc2
    by (simp add: unpin_step_def Let_def p1_def [symmetric] p2_def [symmetric] rel1_def)
  have ro: "refs_only p p2" using refs_only_set_ref_cnt by (simp add: p2_def p1_def)
  have r2: "refs_ok p2 free (set rel1)"
    using dec_ref_spec [OF Cons.prems(1) R(1,2)] i0 by (auto simp: p2_def p1_def rel1_def split: if_splits)
  have eq2: "releasable p2 bs" "released p2 bs = released p1 bs"
    using R(3) by (simp_all add: p2_def p1_def releasable_def released_def)
  from Cons.IH [OF r2 eq2(1)] Cons.prems(3) obtain p' where
    p': "for_res (unpin_step w) bs (rel1, p2) = Inr (rel1 @ released p1 bs, p')" "refs_only p2 p'"
      "refs_ok p' free (set rel1 \<union> set (released p1 bs))"
      "\<forall>j < length (blocks p2). rc p' j = rc p2 j - int (count_list bs j)"
    unfolding eq2(2) by auto
  have rl: "rel1 @ released p1 bs = rel @ released p (i # bs)"
    using R(4) i0 by (simp add: rel1_def p1_def)
  show ?case
  proof (intro exI conjI)
    show "for_res (unpin_step w) (i # bs) (rel, p) = Inr (rel @ released p (i # bs), p')"
      using step p'(1) by (simp add: rl [symmetric])
    show "refs_only p p'" using refs_only_trans [OF ro p'(2)] .
    show "refs_ok p' free (set rel \<union> set (released p (i # bs)))"
      using p'(3) rl by (metis set_append)
    show "\<forall>j < length (blocks p). rc p' j = rc p j - int (count_list (i # bs) j)"
      using p'(4) R(1) by (simp add: p2_def p1_def)
  qed
qed

lemma unpin_blocks_spec:
  assumes inv: "pool_inv p free" and rel: "releasable p bs" and "0 \<notin> set bs"
  obtains p' where "unpin_blocks bs w p = Inr p'" and "refs_only p p'"
    and "pool_inv p' (free @ released p bs)"
    and "\<And>j. j < length (blocks p) \<Longrightarrow> rc p' j = rc p j - int (count_list bs j)"
proof -
  have refs: "refs_ok p free (set [])" and idx: "index_ok p" using inv by (auto simp: pool_inv_def)
  from unpin_loop_spec [OF refs rel assms(3)] obtain p1 where
    p1: "for_res (unpin_step w) bs ([], p) = Inr (released p bs, p1)" "refs_only p p1"
      "refs_ok p1 free (set (released p bs))" "\<forall>j < length (blocks p). rc p1 j = rc p j - int (count_list bs j)"
    by auto
  have "distinct (free @ released p bs)" "\<forall>i \<in> set (released p bs). i < length (blocks p1)"
    using refs_okD(2,4,7) [OF p1(3)] released_props(1) [of p bs] by auto
  from append_n_repr [OF refs_okD(1) [OF p1(3)] this] obtain p2 where
    p2: "append_n (map Blk (released p bs)) p1 = Inr p2" "fq_repr p2 (free @ released p bs)" "links_only p1 p2" by blast
  have r2: "refs_ok p2 (free @ released p bs) {}" by (intro refs_ok_links [OF p1(3) p2(3,2)]) auto
  have ro: "refs_only p p2" using refs_only_trans [OF p1(2) links_only_refs_only [OF p2(3)]] .
  show thesis
  proof (rule that [OF _ ro])
    show "unpin_blocks bs w p = Inr p2" by (simp add: unpin_blocks_def p1(1) p2(1))
    show "pool_inv p2 (free @ released p bs)"
      using r2 index_ok_refs_only [OF ro idx] inv refs_onlyD(1-3) [OF ro] by (simp add: pool_inv_def)
    show "rc p2 j = rc p j - int (count_list bs j)" if "j < length (blocks p)" for j
      using p1(4) links_only_rc [OF p2(3)] refs_onlyD(1) [OF p1(2)] that by simp
  qed
qed

section \<open>Reset and construction\<close>

lemma reset_prefix_cache_spec:
  assumes inv: "pool_inv p free"
  shows "fst (reset_prefix_cache p) \<longleftrightarrow> Suc (length free) = num_gpu_blocks p"
    and "pool_inv (snd (reset_prefix_cache p)) free"
    and "\<not> fst (reset_prefix_cache p) \<Longrightarrow> snd (reset_prefix_cache p) = p"
    and "fst (reset_prefix_cache p) \<Longrightarrow> i < length (blocks p) \<Longrightarrow> hash_list (snd (reset_prefix_cache p)) i = []"
    and "fst (reset_prefix_cache p) \<Longrightarrow> entries (cached_block_hash_to_block (snd (reset_prefix_cache p))) = {}"
proof -
  have refs: "refs_ok p free {}" and idx: "index_ok p" using inv by (auto simp: pool_inv_def)
  have c: "int (num_gpu_blocks p) - get_num_free_blocks p \<noteq> 1 \<longleftrightarrow> Suc (length free) \<noteq> num_gpu_blocks p"
    using refs_okD(3) [OF refs] by (auto simp: get_num_free_blocks_def)
  show f: "fst (reset_prefix_cache p) \<longleftrightarrow> Suc (length free) = num_gpu_blocks p"
    unfolding reset_prefix_cache_def Let_def c by simp
  show same: "snd (reset_prefix_cache p) = p" if "\<not> fst (reset_prefix_cache p)"
    using that unfolding reset_prefix_cache_def Let_def by (simp split: if_splits)
  define p1 where "p1 = p\<lparr>cached_block_hash_to_block := hm_empty, cached_block_hashes_by_block := Map.empty\<rparr>"
  define p2 where "p2 = (if reuse_watchers p1 \<noteq> [] then notify_reuse (map fst (reuse_watchers p1)) p1 else p1)"
  define p3 where "p3 = p2\<lparr>blocks := map reset_hash (blocks p2)\<rparr>"
  define p4 where "p4 = metrics_log MetricsReset p3"
  define p5 where "p5 = (if enable_kv_cache_events p4 then add_event AllBlocksCleared p4 else p4)"
  have res: "snd (reset_prefix_cache p) = p5" if "fst (reset_prefix_cache p)"
    using that f c unfolding reset_prefix_cache_def Let_def p5_def p4_def p3_def p2_def p1_def by simp
  obtain ws cs where "p2 = p1\<lparr>reuse_watchers := ws, reuse_calls := cs\<rparr>"
  proof (cases "reuse_watchers p1 = []")
    case True
    then show thesis using that [of "reuse_calls p1" "reuse_watchers p1"] by (simp add: p2_def)
  next
    case False
    then show thesis using notify_reuse_frame [of "map fst (reuse_watchers p1)" p1] that by (auto simp: p2_def)
  qed
  then have b: "blocks p5 = map reset_hash (blocks p)" "cached_block_hash_to_block p5 = hm_empty"
    "cached_block_hashes_by_block p5 = Map.empty" "num_gpu_blocks p5 = num_gpu_blocks p" "null_block p5 = null_block p"
    "fake_free_list_head p5 = fake_free_list_head p" "fake_free_list_tail p5 = fake_free_list_tail p"
    "num_free_blocks p5 = num_free_blocks p"
    by (simp_all add: p5_def p4_def p3_def p1_def add_event_def metrics_log_def)
  have len: "length (blocks p5) = length (blocks p)" by (simp add: b(1))
  have nth: "blk p5 j = reset_hash (blk p j)" if "j < length (blocks p)" for j using that by (simp add: b(1))
  have hl: "hash_list p5 j = []" if "j < length (blocks p)" for j
    using that by (simp add: hash_list_def b(3) nth reset_hash_def)
  show hl': "hash_list (snd (reset_prefix_cache p)) i = []"
    if "fst (reset_prefix_cache p)" "i < length (blocks p)" using hl res that by simp
  show ent: "entries (cached_block_hash_to_block (snd (reset_prefix_cache p))) = {}"
    if "fst (reset_prefix_cache p)" using res [OF that] b(2) hm.emp_ok by simp
  have "index_ok p5"
    using hl b(2,3) hm.emp_ok nth by (auto simp: index_ok_def len reset_hash_def)
  moreover have "refs_ok p5 free {}"
  proof -
    have "deref p5 r = (case r of Blk j \<Rightarrow> reset_hash (deref p r) | _ \<Rightarrow> deref p r)" if "valid_ptr p r" for r
      using that b(6,7) nth by (cases r) (simp_all add: deref.simps)
    then have "nextp p5 r = nextp p r" "prevp p5 r = prevp p r" if "valid_ptr p r" for r
      using that by (cases r; simp add: reset_hash_def)+
    then have "fq_repr p5 free = fq_repr p free" using len b(8) by (intro fq_repr_cong) simp_all
    with refs show ?thesis unfolding refs_ok_def len using nth by (simp add: reset_hash_def)
  qed
  ultimately have "pool_inv p5 free" using inv by (simp add: pool_inv_def len b(4,5))
  then show "pool_inv (snd (reset_prefix_cache p)) free"
    using res same inv by (cases "fst (reset_prefix_cache p)") simp_all
qed

lemma BlockPool_init_spec:
  assumes n: "0 < n"
  obtains p where "BlockPool_init pid n caching hbs events mt md ui = Inr p" and "pool_inv p [1..<n]"
    and "num_gpu_blocks p = n" and "hash_block_size p = hbs" and "enable_caching p = caching"
    and "\<And>i. i < n \<Longrightarrow> hash_list p i = []" and "\<And>i. i < n \<Longrightarrow> rc p i = 0"
proof -
  define q where "q = \<lparr>blocks = map (\<lambda>i. KVCacheBlock (int i) (Some pid)) [0..<n],
           fake_free_list_head = KVCacheBlock (- 1) None,
           fake_free_list_tail = KVCacheBlock (- 1) None, num_free_blocks = 0,
           pool_id = pid, num_gpu_blocks = n, medium = md, enable_caching = caching,
           hash_block_size = hbs, cached_block_hash_to_block = hm_empty,
           cached_block_hashes_by_block = Map.empty, null_block = 0,
           enable_kv_cache_events = events, kv_event_queue = [],
           metrics_collector = (if mt then Some [] else None), reuse_watchers = [],
           reuse_calls = [], use_int_hashes = ui\<rparr>"
  define q0 where "q0 = fq_init (map Blk [0..<n]) q"
  have "fq_repr q0 [0..<n] \<and> links_only q q0"
    unfolding q0_def by (rule fq_init_repr) (simp_all add: q_def deref.simps KVCacheBlock_def)
  then have q0: "fq_repr q0 (0 # [1..<n])" "links_only q q0" using n by (simp_all add: upt_conv_Cons)
  from popleft_repr [OF q0(1)] obtain q1 where
    q1: "popleft q0 = Inr (Blk 0, q1)" "fq_repr q1 [1..<n]" "links_only q0 q1" by blast
  have lo: "links_only q q1" using links_only_trans [OF q0(2) q1(3)] .
  have more: "num_gpu_blocks q1 = n" "hash_block_size q1 = hbs" "enable_caching q1 = caching"
    "cached_block_hash_to_block q1 = hm_empty" "cached_block_hashes_by_block q1 = Map.empty" "null_block q1 = 0"
    using lo by (cases q1; simp add: links_only_def q_def)+
  define p where "p = upd_block (Blk 0) (\<lambda>b. b\<lparr>is_null := True\<rparr>) (q1\<lparr>null_block := 0\<rparr>)"
  have len: "length (blocks p) = n" "length (blocks q1) = n"
    using links_only_length [OF lo] by (simp_all add: p_def q_def)
  have nth: "block_id (blk q1 i) = int i" "rc q1 i = 0" "block_hash (blk q1 i) = None"
    "block_hash_num_tokens (blk q1 i) = None" "\<not> is_null (blk q1 i)" if "i < n" for i
    using unlink_eqD [OF links_only_nth [OF lo, of i]] that by (simp_all add: q_def KVCacheBlock_def)
  have pn: "blk p i = (if i = 0 then (blk q1 i)\<lparr>is_null := True\<rparr> else blk q1 i)" if "i < n" for i
    using that n len(2) by (simp add: p_def)
  have pm: "cached_block_hash_to_block p = hm_empty" "cached_block_hashes_by_block p = Map.empty"
    "num_gpu_blocks p = n" "null_block p = 0" "hash_block_size p = hbs" "enable_caching p = caching"
    using more by (simp_all add: p_def)
  have hl: "hash_list p i = []" if "i < n" for i
    using nth(3) [OF that] pn [OF that] pm(2) by (cases "i = 0") (simp_all add: hash_list_def)
  have "fq_repr p [1..<n] = fq_repr q1 [1..<n]"
  proof (rule fq_repr_cong)
    fix r assume v: "valid_ptr q1 r"
    show "nextp p r = nextp q1 r" "prevp p r = prevp q1 r"
      using v len pn by (cases r; simp add: deref.simps; simp add: p_def)+
  qed (simp_all add: len, simp add: p_def)
  then have "refs_ok p [1..<n] {}"
    using q1(2) n nth pn by (auto simp: refs_ok_def len)
  moreover have "index_ok p"
    using hl hm.emp_ok nth(4) pn pm(1,2) by (auto simp: index_ok_def len)
  ultimately have "pool_inv p [1..<n]" using pm by (simp add: pool_inv_def len)
  moreover have "BlockPool_init pid n caching hbs events mt md ui = Inr p"
    using n q1(1) unfolding BlockPool_init_def Let_def q_def [symmetric] q0_def [symmetric] by (simp add: p_def)
  moreover have "rc p i = 0" if "i < n" for i using pn [OF that] nth(2) [OF that] by (cases "i = 0") simp_all
  ultimately show thesis using hl pm by (intro that)
qed

section \<open>The pool as a transition system\<close>

text \<open>
  One call of a client of the pool. The premises on block references are what clients guarantee: a
  reference is to a block of the pool, and a block is released at most as often as it is referenced.
\<close>

inductive pool_step :: "block_pool \<Rightarrow> block_pool \<Rightarrow> bool" where
  step_alloc: "get_new_blocks n p = Inr (bs, p') \<Longrightarrow> pool_step p p'"
| step_touch: "\<forall>b \<in> set bs. b < length (blocks p) \<Longrightarrow> touch bs p = Inr p' \<Longrightarrow> pool_step p p'"
| step_free: "releasable p bs \<Longrightarrow> free_own_blocks bs p = Inr p' \<Longrightarrow> pool_step p p'"
| step_unpin: "releasable p bs \<Longrightarrow> 0 \<notin> set bs \<Longrightarrow> unpin_blocks bs w p = Inr p' \<Longrightarrow> pool_step p p'"
| step_cache_full: "\<forall>b \<in> set bs. b < length (blocks p) \<Longrightarrow>
    cache_full_blocks env r bs nc nf block_size gid msk p = Inr (r', p') \<Longrightarrow> pool_step p p'"
| step_cache_partial: "b < length (blocks p) \<Longrightarrow>
    cache_partial_block env r b n gid block_size rep p = Inr (x, r', p') \<Longrightarrow> pool_step p p'"
| step_move: "src < length (blocks p) \<Longrightarrow> dst < length (blocks p) \<Longrightarrow>
    move_block_hashes src dst p = Inr p' \<Longrightarrow> pool_step p p'"
| step_evict: "evict_blocks ids p = Inr p' \<Longrightarrow> pool_step p p'"
| step_reset: "reset_prefix_cache p = (ok, p') \<Longrightarrow> pool_step p p'"
| step_emit: "emit_cached_block_events env r nc block_size gid p = Inr (r', p') \<Longrightarrow> pool_step p p'"
| step_events: "take_events p = (evs, p') \<Longrightarrow> pool_step p p'"

definition pool_ok :: "block_pool \<Rightarrow> bool" where
  "pool_ok p \<longleftrightarrow> (\<exists>free. pool_inv p free)"

lemma pool_inv_events: "pool_inv (p\<lparr>kv_event_queue := es\<rparr>) free = pool_inv p free"
  by (simp add: pool_inv_def)

lemma pool_inv_refs_only:
  "pool_inv p free \<Longrightarrow> refs_only p p' \<Longrightarrow> refs_ok p' free' {} \<Longrightarrow> pool_inv p' free'"
  using index_ok_refs_only refs_onlyD(1-3) by (simp add: pool_inv_def)

lemma evict_blocks_bound:
  assumes "evict_blocks ids p = Inr p'" and "index_ok p"
  shows "index_step p p'"
proof -
  have "for_res evict_step ids p = Inr p' \<Longrightarrow> index_ok p \<Longrightarrow> index_step p p'"
  proof (induction ids arbitrary: p)
    case Nil
    then show ?case by (simp add: index_step_refl)
  next
    case (Cons i ids)
    from Cons.prems(1) obtain p1 where i: "i < length (blocks p)" and p1: "p1 = snd (maybe_evict_cached_block i p)"
      and rest: "for_res evict_step ids p1 = Inr p'"
      by (auto simp: evict_step_def [of i])
    have "index_step p p1" using evict_spec [OF Cons.prems(2) i] by (simp add: index_step_def p1)
    with Cons.IH [OF rest] index_step_trans show ?case by (auto simp: index_step_def)
  qed
  with assms show ?thesis by (simp add: evict_blocks_def)
qed

lemma pool_step_ok:
  assumes "pool_step p p'" and "pool_ok p"
  shows "pool_ok p'"
proof -
  from assms(2) obtain free where inv: "pool_inv p free" by (auto simp: pool_ok_def)
  then have refs: "refs_ok p free {}" and idx: "index_ok p" by (auto simp: pool_inv_def)
  have index: "pool_ok p'" if "index_step p p'" using index_step_inv [OF that inv] by (auto simp: pool_ok_def)
  from assms(1) show ?thesis
  proof cases
    case (step_alloc n bs)
    then have "n \<le> length free" using get_new_blocks_short [OF inv, of n] by (cases "n \<le> length free") simp_all
    from get_new_blocks_spec [OF inv this] step_alloc show ?thesis by (auto simp: pool_ok_def)
  next
    case (step_touch bs)
    from touch_spec [OF refs step_touch(1)] step_touch(2)
    have "refs_only p p'" "refs_ok p' (filter (\<lambda>i. i \<notin> set bs) free) {}" by auto
    from pool_inv_refs_only [OF inv this] show ?thesis by (auto simp: pool_ok_def)
  next
    case (step_free bs)
    from free_own_blocks_spec [OF inv step_free(1)] step_free(2) show ?thesis by (auto simp: pool_ok_def)
  next
    case (step_unpin bs w)
    from unpin_blocks_spec [OF inv step_unpin(1,2), of w] step_unpin(3) show ?thesis by (auto simp: pool_ok_def)
  next
    case (step_cache_full bs env r nc nf block_size gid msk r')
    from cache_full_blocks_index [OF step_cache_full(2) idx step_cache_full(1)] show ?thesis by (rule index)
  next
    case (step_cache_partial b env r n gid block_size rep x r')
    from cache_partial_block_index(1) [OF step_cache_partial(2) idx step_cache_partial(1)] show ?thesis by (rule index)
  next
    case (step_move src dst)
    then have "block_hash (blk p dst) = None" by (simp add: move_block_hashes_def)
    from move_block_hashes_spec [OF idx step_move(1,2) this] step_move(3) show ?thesis by (intro index) auto
  next
    case (step_evict ids)
    from evict_blocks_bound [OF step_evict idx] show ?thesis by (rule index)
  next
    case (step_reset ok)
    then show ?thesis using reset_prefix_cache_spec(2) [OF inv] by (auto simp: pool_ok_def)
  next
    case (step_emit env r nc block_size gid r')
    then have "p' = p \<or> (\<exists>ev. p' = add_event ev p)"
      by (auto simp: emit_cached_block_events_def split: if_splits)
    then show ?thesis using inv pool_inv_events by (auto simp: pool_ok_def add_event_def)
  next
    case (step_events evs)
    then show ?thesis using inv pool_inv_events by (auto simp: pool_ok_def take_events_def split: if_splits)
  qed
qed

lemma pool_steps_ok: "pool_step\<^sup>*\<^sup>* p p' \<Longrightarrow> pool_ok p \<Longrightarrow> pool_ok p'"
  by (induction rule: rtranclp_induct) (auto dest: pool_step_ok)

section \<open>Properties\<close>

text \<open>A fresh pool of four blocks, for the witnesses.\<close>

definition demo_pool :: block_pool where
  "demo_pool = projr (BlockPool_init 7 4 True 2 True False ''GPU'' False)"

lemma demo_pool:
  "BlockPool_init 7 4 True 2 True False ''GPU'' False = Inr demo_pool"
  "pool_inv demo_pool [1, 2, 3]" "enable_caching demo_pool" "length (blocks demo_pool) = 4"
  "hash_block_size demo_pool = 2" "i < 4 \<Longrightarrow> hash_list demo_pool i = []" "i < 4 \<Longrightarrow> rc demo_pool i = 0"
proof -
  from BlockPool_init_spec [of 4 7 True 2 True False "''GPU''" False] obtain p where
    p: "BlockPool_init 7 4 True 2 True False ''GPU'' False = Inr p" "pool_inv p [1..<4]" "num_gpu_blocks p = 4"
      "hash_block_size p = 2" "enable_caching p" "\<And>i. i < 4 \<Longrightarrow> hash_list p i = []" "\<And>i. i < 4 \<Longrightarrow> rc p i = 0"
    by auto
  have d: "demo_pool = p" by (simp add: demo_pool_def p(1))
  have u: "[1..<4] = [1, 2, 3::nat]" by (simp add: upt_rec)
  show "BlockPool_init 7 4 True 2 True False ''GPU'' False = Inr demo_pool"
    "pool_inv demo_pool [1, 2, 3]" "enable_caching demo_pool" "length (blocks demo_pool) = 4"
    "hash_block_size demo_pool = 2" "i < 4 \<Longrightarrow> hash_list demo_pool i = []" "i < 4 \<Longrightarrow> rc demo_pool i = 0"
    using p u by (auto simp: d pool_inv_def)
qed

text \<open>C4: in every pool that the constructor and any sequence of pool calls can produce, the free
  queue is a well-formed list of exactly the blocks nobody references (the null block never among
  them), and the prefix cache index lists exactly the hashes that the blocks carry.\<close>

theorem reachable_pool_inv:
  assumes "BlockPool_init pid n caching hbs events mt md ui = Inr p0" and "pool_step\<^sup>*\<^sup>* p0 p"
  shows "\<exists>free. pool_inv p free"
proof -
  have "0 < n" using assms(1) by (simp add: BlockPool_init_def)
  from BlockPool_init_spec [OF this, of pid caching hbs events mt md ui] assms(1) have "pool_ok p0"
    by (auto simp: pool_ok_def)
  from pool_steps_ok [OF assms(2) this] show ?thesis by (simp add: pool_ok_def)
qed

theorem reachable_pool_inv_witness:
  "\<exists>p free. get_new_blocks 2 demo_pool = Inr ([1, 2], p) \<and> pool_inv p free"
proof -
  obtain p where p: "get_new_blocks 2 demo_pool = Inr (take 2 [1, 2, 3], p)"
    by (rule get_new_blocks_spec [OF demo_pool(2), of 2]) simp_all
  have "pool_step\<^sup>*\<^sup>* demo_pool p" using step_alloc [OF p] by (rule r_into_rtranclp)
  with reachable_pool_inv [OF demo_pool(1)] p show ?thesis by auto
qed

text \<open>C5: allocation of \<open>n\<close> blocks succeeds exactly when \<open>n\<close> are free and raises otherwise; it returns
  the \<open>n\<close> blocks freed longest ago, pairwise different, each then referenced once and (with caching)
  no longer reachable through the prefix cache; all other blocks keep their count and hashes.\<close>

theorem get_new_blocks_correct:
  assumes "pool_inv p free"
  shows "if n \<le> length free
    then \<exists>p'. get_new_blocks n p = Inr (take n free, p') \<and> distinct (take n free) \<and> pool_inv p' (drop n free) \<and>
      (\<forall>j < length (blocks p). if j \<in> set (take n free)
         then rc p' j = 1 \<and> (enable_caching p \<longrightarrow> hash_list p' j = [])
         else rc p' j = rc p j \<and> hash_list p' j = hash_list p j)
    else get_new_blocks n p = Inl ValueError"
proof (cases "n \<le> length free")
  case True
  have "refs_ok p free {}" using assms by (simp add: pool_inv_def)
  then have "distinct (take n free)" by (intro distinct_take refs_okD(2))
  moreover obtain p' where "get_new_blocks n p = Inr (take n free, p')" "pool_inv p' (drop n free)"
    "\<And>j. j < length (blocks p) \<Longrightarrow> if j \<in> set (take n free)
       then rc p' j = 1 \<and> hash_list p' j = (if enable_caching p then [] else hash_list p j)
       else rc p' j = rc p j \<and> hash_list p' j = hash_list p j"
    using get_new_blocks_spec [OF assms True] by metis
  ultimately show ?thesis using True by auto
next
  case False
  then show ?thesis using get_new_blocks_short [OF assms] by simp
qed

theorem get_new_blocks_correct_witness:
  "(\<exists>p'. get_new_blocks 2 demo_pool = Inr ([1, 2], p') \<and> pool_inv p' [3]) \<and>
   get_new_blocks 4 demo_pool = Inl ValueError"
  using get_new_blocks_correct [OF demo_pool(2), of 2] get_new_blocks_correct [OF demo_pool(2), of 4] by auto

text \<open>C6: releasing blocks that are referenced often enough always succeeds and lowers each count by
  the number of times the block is listed. Blocks that lose their last reference become free: those
  without a cached hash go to the front of the queue and are reused first, the others go to the back
  in the given order, so that cached blocks are evicted least recently freed first.\<close>

theorem free_blocks_correct:
  assumes "pool_inv p free" and "releasable p bs"
  shows "\<exists>p'. free_own_blocks bs p = Inr p' \<and>
    pool_inv p' (filter (evict_first p) (released p bs) @ free @ filter (\<lambda>i. \<not> evict_first p i) (released p bs)) \<and>
    (\<forall>j < length (blocks p). rc p' j = rc p j - int (count_list bs j) \<and> hash_list p' j = hash_list p j)"
  using free_own_blocks_spec [OF assms] refs_only_hashes by metis

theorem free_blocks_correct_witness:
  "\<exists>p p'. get_new_blocks 2 demo_pool = Inr ([1, 2], p) \<and> free_own_blocks [2] p = Inr p' \<and> pool_inv p' [2, 3]"
proof -
  obtain p where p: "get_new_blocks 2 demo_pool = Inr (take 2 [1, 2, 3], p)" "pool_inv p (drop 2 [1, 2, 3])"
    "same_config demo_pool p"
    and j: "\<And>j. j < length (blocks demo_pool) \<Longrightarrow> if j \<in> set (take 2 [1, 2, 3])
       then rc p j = 1 \<and> hash_list p j = (if enable_caching demo_pool then [] else hash_list demo_pool j)
       else rc p j = rc demo_pool j \<and> hash_list p j = hash_list demo_pool j"
    by (rule get_new_blocks_spec [OF demo_pool(2), of 2]) simp_all
  have len: "length (blocks p) = 4" using p(3) demo_pool(4) by (simp add: same_config_def)
  have rc: "rc p 2 = 1" "hash_list p 2 = []" using j [of 2] demo_pool(3,4) by auto
  have "index_ok p" using p(2) by (simp add: pool_inv_def)
  from hash_list_Nil [OF this, of 2] rc len have ef: "evict_first p 2" by (simp add: evict_first_def)
  have "releasable p [2]" "released p [2] = [2]" using rc len by (simp_all add: releasable_def released_def)
  with free_blocks_correct [OF p(2), of "[2]"] p(1) ef show ?thesis by auto
qed

text \<open>giving back freshly allocated blocks in the order they were handed out restores the free
  list exactly: the next allocation returns the same blocks.\<close>

theorem alloc_free_roundtrip:
  assumes "pool_inv p free" and "n \<le> length free"
  shows "\<exists>p1 p2. get_new_blocks n p = Inr (take n free, p1) \<and> free_own_blocks (take n free) p1 = Inr p2 \<and>
    pool_inv p2 free \<and> (\<forall>j < length (blocks p). rc p2 j = rc p j)"
proof -
  obtain p1 where p1: "get_new_blocks n p = Inr (take n free, p1)" "pool_inv p1 (drop n free)" "same_config p p1"
    and j: "\<And>j. j < length (blocks p) \<Longrightarrow> if j \<in> set (take n free)
       then rc p1 j = 1 \<and> hash_list p1 j = (if enable_caching p then [] else hash_list p j)
       else rc p1 j = rc p j \<and> hash_list p1 j = hash_list p j"
    using get_new_blocks_spec [OF assms] by metis
  let ?bs = "take n free"
  have refs: "refs_ok p free {}" using assms(1) by (simp add: pool_inv_def)
  have c: "length (blocks p1) = length (blocks p)" "enable_caching p1 = enable_caching p"
    using p1(3) by (auto simp: same_config_def)
  have d: "distinct ?bs" using refs_okD(2) [OF refs] by (rule distinct_take)
  have b: "i < length (blocks p)" "i \<noteq> 0" "rc p i = 0" "rc p1 i = 1" if "i \<in> set ?bs" for i
    using refs_okD(4-6) [OF refs, of i] j [of i] that in_set_takeD [OF that] by auto
  have cnt: "count_list ?bs i = (if i \<in> set ?bs then 1 else 0)" for i
    using d by (simp add: count_list_distinct)
  have rel: "releasable p1 ?bs" using b cnt c by (simp add: releasable_def)
  have "remdups ?bs = ?bs" using d by (rule distinct_remdups_id)
  then have rl: "released p1 ?bs = ?bs" using b(2,4) cnt by (simp add: released_def)
  have "index_ok p1" using p1(2) by (simp add: pool_inv_def)
  then have "evict_first p1 i" if "i \<in> set ?bs" for i
    using hash_list_Nil [of p1 i] j [OF b(1) [OF that]] that b(1) [OF that] c by (auto simp: evict_first_def split: if_splits)
  then have ef: "filter (evict_first p1) ?bs = ?bs" "filter (\<lambda>i. \<not> evict_first p1 i) ?bs = []" by simp_all
  from free_own_blocks_spec [OF p1(2) rel] obtain p2 where
    p2: "free_own_blocks ?bs p1 = Inr p2" "pool_inv p2 (?bs @ drop n free @ [])"
      "\<And>j. j < length (blocks p1) \<Longrightarrow> rc p2 j = rc p1 j - int (count_list ?bs j)"
    unfolding rl ef by metis
  have "rc p2 i = rc p i" if "i < length (blocks p)" for i
    using p2(3) [of i] j [OF that] b(3) [of i] cnt [of i] that c by (simp split: if_splits)
  with p1(1) p2(1,2) show ?thesis by auto
qed

text \<open>taking a further reference to blocks succeeds, removes exactly the listed blocks from the
  free queue so that they cannot be evicted, and giving the references back restores every count.\<close>

theorem touch_free_roundtrip:
  assumes "pool_inv p free" and "\<forall>i \<in> set bs. i < length (blocks p)"
  shows "\<exists>p1 p2. touch bs p = Inr p1 \<and> pool_inv p1 (filter (\<lambda>i. i \<notin> set bs) free) \<and>
    (\<forall>j < length (blocks p). rc p1 j = rc p j + int (count_list bs j)) \<and>
    free_own_blocks bs p1 = Inr p2 \<and> (\<exists>free'. pool_inv p2 free' \<and> set free' = set free) \<and>
    (\<forall>j < length (blocks p). rc p2 j = rc p j \<and> hash_list p2 j = hash_list p j)"
proof -
  have refs: "refs_ok p free {}" using assms(1) by (simp add: pool_inv_def)
  from touch_spec [OF refs assms(2)] obtain p1 where
    p1: "touch bs p = Inr p1" "refs_ok p1 (filter (\<lambda>i. i \<notin> set bs) free) {}" "refs_only p p1"
      "\<forall>j < length (blocks p). rc p1 j = rc p j + int (count_list bs j)" by blast
  have inv1: "pool_inv p1 (filter (\<lambda>i. i \<notin> set bs) free)" using pool_inv_refs_only [OF assms(1) p1(3,2)] .
  have len: "length (blocks p1) = length (blocks p)" using refs_onlyD(1) [OF p1(3)] .
  have rel: "releasable p1 bs"
    unfolding releasable_def
  proof (intro ballI conjI impI)
    fix i assume i: "i \<in> set bs"
    then show "i < length (blocks p1)" using assms(2) len by simp
    assume "i \<noteq> 0"
    with i assms(2) refs_okD(9) [OF refs, of i] p1(4) show "int (count_list bs i) \<le> rc p1 i" by auto
  qed
  let ?free' = "filter (evict_first p1) (released p1 bs) @ filter (\<lambda>i. i \<notin> set bs) free @
    filter (\<lambda>i. \<not> evict_first p1 i) (released p1 bs)"
  obtain p2 where p2: "free_own_blocks bs p1 = Inr p2" "refs_only p1 p2" "pool_inv p2 ?free'"
    and rc2': "\<And>j. j < length (blocks p1) \<Longrightarrow> rc p2 j = rc p1 j - int (count_list bs j)"
    using free_own_blocks_spec [OF inv1 rel] by blast
  have len2: "length (blocks p2) = length (blocks p)" using refs_onlyD(1) [OF p2(2)] len by simp
  have rc2: "rc p2 j = rc p j" if "j < length (blocks p)" for j using rc2' p1(4) that len by simp
  have hl: "hash_list p2 j = hash_list p j" if "j < length (blocks p)" for j
    using refs_only_hashes [OF p1(3) that] refs_only_hashes [OF p2(2)] that len by simp
  have "refs_ok p2 ?free' {}" using p2(3) by (simp add: pool_inv_def)
  from free_iff [OF this] free_iff [OF refs] have "i \<in> set ?free' \<longleftrightarrow> i \<in> set free" for i
    using rc2 [of i] len2 by (simp only:) (cases "i < length (blocks p)"; simp)
  then have "set ?free' = set free" by blast
  with p2(3) have fr: "\<exists>free'. pool_inv p2 free' \<and> set free' = set free" by blast
  show ?thesis
    using p1(1,4) inv1 p2(1) fr rc2 hl by (intro exI [of _ p1] exI [of _ p2]) simp
qed

text \<open>the usage reported for a well-formed pool lies between 0 and 1; it is 0 when every block but
  the null block is free, and when there is no other block.\<close>

theorem get_usage_bounds:
  assumes "pool_inv p free"
  shows "0 \<le> get_usage p \<and> get_usage p \<le> 1 \<and> (get_usage p = 0 \<longleftrightarrow> Suc (length free) = num_gpu_blocks p)"
proof -
  have refs: "refs_ok p free {}" and n: "length (blocks p) = num_gpu_blocks p" using assms by (auto simp: pool_inv_def)
  have "set free \<subseteq> {1..<num_gpu_blocks p}" using refs_okD(4,5) [OF refs] n by (auto simp: Suc_le_eq)
  from card_mono [OF _ this] have le: "length free \<le> num_gpu_blocks p - 1"
    using distinct_card [OF refs_okD(2) [OF refs]] by simp
  have pos: "0 < num_gpu_blocks p" using refs_okD(11) [OF refs] n by simp
  define t where "t = int (num_gpu_blocks p) - 1"
  define f where "f = int (length free)"
  have u: "get_usage p = (if t = 0 then 0 else 1 - of_int f / of_int t)"
    using refs_okD(3) [OF refs] by (simp add: get_usage_def get_num_free_blocks_def Let_def t_def f_def)
  have t: "0 \<le> f" "f \<le> t" using le pos by (simp_all add: t_def f_def)
  have iff: "Suc (length free) = num_gpu_blocks p \<longleftrightarrow> f = t" using pos by (auto simp: t_def f_def)
  show ?thesis
  proof (cases "t = 0")
    case True
    with t iff show ?thesis by (auto simp: u)
  next
    case False
    with t have "0 < t" by linarith
    then have "0 \<le> (of_int f / of_int t :: rat)" "(of_int f / of_int t :: rat) \<le> 1"
      "(of_int f / of_int t :: rat) = 1 \<longleftrightarrow> f = t" using t by (simp_all add: divide_simps)
    with False iff show ?thesis by (auto simp: u)
  qed
qed

text \<open>C16: a lookup by block hash never fails on a well-formed pool with small group ids. It answers with
  one block per requested group, each of which really carries the hash for that group, and it
  answers None exactly when some group has no such block.\<close>

theorem get_cached_block_correct:
  assumes "pool_inv p free" and "\<forall>g \<in> set gs. g < 2 ^ 32"
  shows "\<exists>x. get_cached_block p h gs = Inr x \<and>
    (x = None \<longleftrightarrow> (\<exists>g \<in> set gs. \<forall>b. \<not> cached_under p h g b)) \<and>
    (\<forall>bs. x = Some bs \<longrightarrow> list_all2 (cached_under p h) gs bs)"
  using assms by (intro get_cached_block_spec) (simp_all add: pool_inv_def)

theorem get_cached_block_correct_witness:
  "get_cached_block demo_pool [1] [0] = Inr None"
proof -
  have "\<not> cached_under demo_pool [1] 0 b" for b
    using demo_pool(4,6) by (auto simp: cached_under_def)
  with get_cached_block_correct [OF demo_pool(2), of "[0]" "[1]"] show ?thesis by auto
qed

text \<open>C17: caching the new full blocks of a request whose block hashes are current succeeds, whatever
  multiple of the hash block size the group uses. Afterwards every block is found under the hash of
  the request's prefix that ends with it, a lookup of that hash succeeds, the free list is unchanged
  and the hashes of all other blocks are as before.\<close>

theorem cache_full_blocks_correct:
  assumes inv: "pool_inv p free" and cur: "hashes_current env (hash_block_size p) r"
    and size: "0 < hash_block_size p" "0 < sf" "block_size = hash_block_size p * sf"
    and nf: "nc \<le> nf" "nf \<le> length bs" "nf * block_size \<le> num_tokens r" and g: "gid < 2 ^ 32"
    and dist: "distinct bs"
    and new: "\<forall>b \<in> set bs. b < length (blocks p)"
      "\<forall>b \<in> set (drop nc bs). b \<noteq> 0 \<and> block_hash (blk p b) = None"
  shows "\<exists>r' p'. cache_full_blocks env r bs nc nf block_size gid None p = Inr (r', p') \<and> pool_inv p' free \<and>
    (\<forall>i. nc \<le> i \<and> i < nf \<longrightarrow>
      cached_under p' (request_chain env (hash_block_size p) r ((i + 1) * sf - 1)) gid (bs ! i) \<and>
      (\<exists>b. get_cached_block p' (request_chain env (hash_block_size p) r ((i + 1) * sf - 1)) [gid] = Inr (Some [b]))) \<and>
    (\<forall>b. b \<notin> set (drop nc bs) \<longrightarrow> hash_list p' b = hash_list p b)"
proof -
  have d: "distinct (drop nc bs)" using dist by (rule distinct_drop)
  have n: "\<forall>b \<in> set (drop nc bs). b < length (blocks p) \<and> b \<noteq> 0 \<and> block_hash (blk p b) = None"
    using new by (auto dest: in_set_dropD)
  from cache_full_blocks_total [OF inv cur size nf g d n] obtain r' p' where
    res: "cache_full_blocks env r bs nc nf block_size gid None p = Inr (r', p')"
      "\<forall>i. nc \<le> i \<and> i < nf \<longrightarrow>
         cached_under p' (request_chain env (hash_block_size p) r ((i + 1) * sf - 1)) gid (bs ! i)"
      "\<forall>b. b \<notin> set (drop nc bs) \<longrightarrow> hash_list p' b = hash_list p b" by blast
  have idx: "index_ok p" using inv by (simp add: pool_inv_def)
  have inv': "pool_inv p' free" using index_step_inv [OF cache_full_blocks_index [OF res(1) idx new(1)] inv] .
  have look: "\<exists>b'. get_cached_block p' h [gid] = Inr (Some [b'])" if "cached_under p' h gid b" for h b
    using get_cached_block_spec [of p' "[gid]" h] inv' g that
    by (auto simp: pool_inv_def list_all2_Cons1)
  show ?thesis using res inv' look by blast
qed

theorem cache_full_blocks_correct_witness:
  "\<exists>r' p'. cache_full_blocks demo_env (demo_request [1, 2, 3] [[7, 0, 1, 2]]) [1] 0 1 2 5 None demo_pool = Inr (r', p') \<and>
    pool_inv p' [1, 2, 3] \<and> cached_under p' [7, 0, 1, 2] 5 1"
proof -
  have i: "index_ok demo_pool" using demo_pool(2) by (simp add: pool_inv_def)
  have h: "block_hash (blk demo_pool 1) = None" using hash_list_Nil [OF i, of 1] demo_pool(4,6) by simp
  have cur: "hashes_current demo_env (hash_block_size demo_pool) (demo_request [1, 2, 3] [[7, 0, 1, 2]])"
    using demo_current demo_pool(5) by simp
  have "\<exists>r' p'. cache_full_blocks demo_env (demo_request [1, 2, 3] [[7, 0, 1, 2]]) [1] 0 1 2 5 None demo_pool = Inr (r', p') \<and>
    pool_inv p' [1, 2, 3] \<and> (\<forall>i. 0 \<le> i \<and> i < 1 \<longrightarrow>
      cached_under p' (request_chain demo_env (hash_block_size demo_pool) (demo_request [1, 2, 3] [[7, 0, 1, 2]])
        ((i + 1) * 1 - 1)) 5 ([1] ! i) \<and>
      (\<exists>b. get_cached_block p' (request_chain demo_env (hash_block_size demo_pool)
        (demo_request [1, 2, 3] [[7, 0, 1, 2]]) ((i + 1) * 1 - 1)) [5] = Inr (Some [b]))) \<and>
    (\<forall>b. b \<notin> set (drop 0 [1]) \<longrightarrow> hash_list p' b = hash_list demo_pool b)"
    by (rule cache_full_blocks_correct [OF demo_pool(2) cur]) (use h demo_pool(4,5) in simp_all)
  moreover have "request_chain demo_env (hash_block_size demo_pool) (demo_request [1, 2, 3] [[7, 0, 1, 2]]) 0 = [7, 0, 1, 2]"
    using demo_pool(5) by (simp add: demo_env_def hash_block_tokens_def)
  ultimately show ?thesis by fastforce
qed

text \<open>C19: resetting the prefix cache is refused, with no effect, while any block besides the null block
  is in use; otherwise it empties the index and clears the hashes of every block, and in both cases
  the free list stays as it was.\<close>

theorem reset_prefix_cache_correct:
  assumes "pool_inv p free" and "reset_prefix_cache p = (ok, p')"
  shows "(ok \<longleftrightarrow> Suc (length free) = num_gpu_blocks p) \<and> pool_inv p' free \<and> (\<not> ok \<longrightarrow> p' = p) \<and>
    (ok \<longrightarrow> (\<forall>h g b. \<not> cached_under p' h g b))"
proof -
  note R = reset_prefix_cache_spec [OF assms(1), unfolded assms(2) fst_conv snd_conv]
  have "\<not> cached_under p' h g b" if ok for h g b
  proof
    assume "cached_under p' h g b"
    then obtain key where "b < length (blocks p')" "key \<in> set (hash_list p' b)" by (auto simp: cached_under_def)
    then have "(key, b) \<in> entries (cached_block_hash_to_block p')" using R(2) by (auto simp: pool_inv_def index_ok_def)
    with R(5) that show False by simp
  qed
  with R(1-3) show ?thesis by blast
qed

theorem reset_prefix_cache_correct_witness: "fst (reset_prefix_cache demo_pool)"
proof -
  have "num_gpu_blocks demo_pool = 4" using demo_pool(2,4) by (simp add: pool_inv_def)
  with reset_prefix_cache_correct [OF demo_pool(2), of "fst (reset_prefix_cache demo_pool)"
      "snd (reset_prefix_cache demo_pool)"] show ?thesis by simp
qed

text \<open>C18: moving the hashes of a block to a block without hashes always succeeds: the target takes over
  all keys in order, the source loses them, every other block keeps its own, and no event is
  published.\<close>

theorem move_block_hashes_correct:
  assumes "pool_inv p free" and "src < length (blocks p)" and "dst < length (blocks p)"
    and "block_hash (blk p dst) = None"
  shows "\<exists>p'. move_block_hashes src dst p = Inr p' \<and> pool_inv p' free \<and> kv_event_queue p' = kv_event_queue p \<and>
    (\<forall>j. hash_list p' j = (if j = dst then hash_list p src else if j = src then [] else hash_list p j))"
proof -
  have "index_ok p" using assms(1) by (simp add: pool_inv_def)
  from move_block_hashes_spec [OF this assms(2-4)] index_step_inv [OF _ assms(1)] show ?thesis by blast
qed

theorem move_block_hashes_correct_witness:
  "\<exists>p'. move_block_hashes 1 2 demo_pool = Inr p' \<and> pool_inv p' [1, 2, 3]"
proof -
  have "index_ok demo_pool" using demo_pool(2) by (simp add: pool_inv_def)
  from hash_list_Nil [OF this, of 2] demo_pool(4,6) have "block_hash (blk demo_pool 2) = None" by simp
  with move_block_hashes_correct [OF demo_pool(2), of 1 2] demo_pool(4) show ?thesis by auto
qed

end
