(* ===== verification/SingleTypeManager.thy ===== *)
theory SingleTypeManager
  imports BlockPoolAlloc "HOL-Library.AList"
begin

text \<open>
  The managers of one kind of attention layer
  (\<^verbatim>\<open>src/vllm/v1/core/single_type_kv_cache_manager.py\<close>): block tables of the requests on top of
  the block pool. Modelled are the base class and its subclasses for full attention, reference
  sliding windows, sliding windows, chunked local attention, circular buffers and cross attention; a
  method a subclass overrides dispatches on the kind, and where the base method has lemmas of its
  own the dispatching version is a definition of its own. The pool is shared between managers and
  passed along.

  The dictionary \<^verbatim>\<open>req_to_blocks\<close> is a \<^verbatim>\<open>defaultdict\<close>: reading it with brackets inserts an empty
  table, which \<open>open_req\<close> does; its length is observable.
\<close>

section \<open>State\<close>

datatype manager_kind = FullAttention | RSWA nat | SlidingWindow nat nat | ChunkedLocal nat | CircularBuffer | CrossAttention

record kv_manager =
  mgr_kind :: manager_kind
  mgr_block_size :: nat
  mgr_group_id :: nat
  mgr_enable_caching :: bool
  record_new_block_ids :: bool
  max_admission_blocks_per_request :: "nat option"
  cache_hit_alignment_tokens :: nat
  mgr_use_eagle :: bool
  prefix_cacheable :: bool
  req_to_blocks :: "(string \<times> nat list) list"
  num_cached_block :: "string \<Rightarrow> nat option"
  partial_hit_reqs :: "string \<Rightarrow> (nat \<times> nat) option"
  pending_cow_copies :: "(nat \<times> nat) list"
  new_block_ids :: "nat list"

definition SingleTypeKVCacheManager :: "manager_kind \<Rightarrow> nat \<Rightarrow> nat \<Rightarrow> bool \<Rightarrow> bool \<Rightarrow> nat option \<Rightarrow> nat \<Rightarrow> bool \<Rightarrow> kv_manager" where
  "SingleTypeKVCacheManager kind bs gid caching record cap sched_bs cacheable =
     \<lparr>mgr_kind = kind, mgr_block_size = bs, mgr_group_id = gid, mgr_enable_caching = caching,
      record_new_block_ids = record, max_admission_blocks_per_request = cap,
      cache_hit_alignment_tokens = sched_bs, mgr_use_eagle = False, prefix_cacheable = cacheable,
      req_to_blocks = [], num_cached_block = Map.empty, partial_hit_reqs = Map.empty,
      pending_cow_copies = [], new_block_ids = []\<rparr>"

definition req_blocks :: "kv_manager \<Rightarrow> string \<Rightarrow> nat list" where
  "req_blocks m rid = (case map_of (req_to_blocks m) rid of None \<Rightarrow> [] | Some bs \<Rightarrow> bs)"

definition set_blocks :: "string \<Rightarrow> nat list \<Rightarrow> kv_manager \<Rightarrow> kv_manager" where
  "set_blocks rid bs m = m\<lparr>req_to_blocks := AList.update rid bs (req_to_blocks m)\<rparr>"

definition open_req :: "string \<Rightarrow> kv_manager \<Rightarrow> kv_manager" where
  "open_req rid m = set_blocks rid (req_blocks m rid) m"

definition record_ids :: "bool \<Rightarrow> nat list \<Rightarrow> kv_manager \<Rightarrow> kv_manager" where
  "record_ids b ids m = (if b then m\<lparr>new_block_ids := new_block_ids m @ ids\<rparr> else m)"

section \<open>Counting what a request needs\<close>

text \<open>Tokens in front of the attention window. Sliding window: window size and the extra tokens kept.\<close>

fun skipped_tokens :: "manager_kind \<Rightarrow> nat \<Rightarrow> nat" where
  "skipped_tokens FullAttention n = 0"
| "skipped_tokens (RSWA w) n = 0"
| "skipped_tokens (SlidingWindow w extra) n = n + 1 - (w + extra)"
| "skipped_tokens (ChunkedLocal c) n = n div c * c"
| "skipped_tokens CircularBuffer n = 0"
| "skipped_tokens CrossAttention n = 0"

abbreviation get_num_skipped_tokens :: "kv_manager \<Rightarrow> nat \<Rightarrow> nat" where
  "get_num_skipped_tokens m n \<equiv> skipped_tokens (mgr_kind m) n"

definition get_num_evictable_blocks :: "block_pool \<Rightarrow> nat list \<Rightarrow> nat" where
  "get_num_evictable_blocks p bs = length (filter (\<lambda>b. ref_cnt (blk p b) = 0 \<and> \<not> is_null (blk p b)) bs)"

definition has_partial_local_hit :: "kv_manager \<Rightarrow> nat list \<Rightarrow> nat \<Rightarrow> bool" where
  "has_partial_local_hit m new_computed num_local \<longleftrightarrow>
     length new_computed > 0 \<and> num_local mod mgr_block_size m \<noteq> 0"

definition get_num_blocks_to_allocate :: "string \<Rightarrow> nat \<Rightarrow> nat list \<Rightarrow> nat \<Rightarrow> nat \<Rightarrow> bool \<Rightarrow> kv_manager \<Rightarrow> block_pool \<Rightarrow> nat res" where
  "get_num_blocks_to_allocate rid ntoks new_computed total_computed num_local apply_admission_cap m p =
     (let required0 = cdivn ntoks (mgr_block_size m);
          num_required = (case max_admission_blocks_per_request m of
              None \<Rightarrow> required0 | Some c \<Rightarrow> if apply_admission_cap then min required0 c else required0);
          num_req = length (req_blocks m rid)
      in if num_cached_block m rid \<noteq> None
         then py_assert (length new_computed = 0) (Inr (num_required - num_req))
         else let num_skipped_blocks = get_num_skipped_tokens m total_computed div mgr_block_size m;
                  num_local_blocks = length new_computed + num_req;
                  num_new = num_required - max num_skipped_blocks num_local_blocks;
                  num_evictable = get_num_evictable_blocks p (drop (num_skipped_blocks - num_req) new_computed)
              in Inr ((if has_partial_local_hit m new_computed num_local then num_new + 1 else num_new) + num_evictable))"

section \<open>Giving blocks to a request\<close>

text \<open>\<^verbatim>\<open>any(new_computed_blocks)\<close> tests block objects, which are always true.\<close>

definition add_local_computed_blocks :: "string \<Rightarrow> nat list \<Rightarrow> nat \<Rightarrow> nat \<Rightarrow> kv_manager \<Rightarrow> block_pool \<Rightarrow> (kv_manager \<times> block_pool) res" where
  "add_local_computed_blocks rid new_computed num_local num_external m p =
     (let m1 = open_req rid m
      in py_assert (length (req_blocks m1 rid) = 0)
        (let num_skipped = get_num_skipped_tokens m (num_local + num_external) div mgr_block_size m;
             hits = (if num_skipped > 0 then drop num_skipped new_computed else new_computed)
         in bind_res (if mgr_enable_caching m then touch hits p else py_assert (hits = []) (Inr p)) (\<lambda>p1.
              let bs = replicate num_skipped (null_block p) @ hits;
                  m2 = set_blocks rid bs m1;
                  m3 = m2\<lparr>num_cached_block := (num_cached_block m2)(rid \<mapsto> length bs)\<rparr>
              in if has_partial_local_hit m hits num_local
                 then let block_idx = num_local div mgr_block_size m
                      in Inr (m3\<lparr>partial_hit_reqs := (partial_hit_reqs m3)(rid \<mapsto> (block_idx, last hits)),
                                 num_cached_block := (num_cached_block m3)(rid \<mapsto> block_idx)\<rparr>, p1)
                 else Inr (m3, p1))))"

definition allocate_external_computed_blocks :: "string \<Rightarrow> nat \<Rightarrow> nat \<Rightarrow> bool \<Rightarrow> kv_manager \<Rightarrow> block_pool \<Rightarrow> (kv_manager \<times> block_pool) res" where
  "allocate_external_computed_blocks rid num_local num_external record_for_zeroing m p =
     (let num_total = num_local + num_external;
          num_skipped = get_num_skipped_tokens m num_total;
          external = (if num_skipped > 0 then min (int num_total - int num_skipped) (int num_external) else int num_external)
      in if external \<le> 0 then Inr (m, p)
         else let m1 = open_req rid m;
                  num_new = cdivn num_total (mgr_block_size m) - length (req_blocks m1 rid)
              in bind_res (get_new_blocks num_new p) (\<lambda>(bs, p1).
                   Inr (record_ids (record_new_block_ids m \<and> record_for_zeroing) bs
                          (set_blocks rid (req_blocks m1 rid @ bs) m1), p1)))"

definition apply_cow :: "string \<Rightarrow> nat \<Rightarrow> nat \<Rightarrow> nat \<Rightarrow> kv_manager \<Rightarrow> block_pool \<Rightarrow> (kv_manager \<times> block_pool) res" where
  "apply_cow rid block_idx source cow m p =
     (let m1 = open_req rid m; bs = req_blocks m1 rid
      in py_assert (block_idx < length bs)
        (py_assert (bs ! block_idx = source)
          (py_assert (\<not> is_null (blk p source) \<and> ref_cnt (blk p source) > 0)
            (Inr ((set_blocks rid (bs[block_idx := cow]) m1)
                    \<lparr>pending_cow_copies := pending_cow_copies m1 @ [(source, cow)]\<rparr>,
                  set_ref_cnt cow (ref_cnt (blk p cow) + 1) p)))))"

text \<open>\<^verbatim>\<open>get_new_blocks(1)[0]\<close>\<close>

definition get_one_new_block :: "block_pool \<Rightarrow> (nat \<times> block_pool) res" where
  "get_one_new_block p = bind_res (get_new_blocks 1 p) (\<lambda>(bs, p1). bind_res (py_nth bs 0) (\<lambda>b. Inr (b, p1)))"

definition redirect_partial_hit :: "string \<Rightarrow> kv_manager \<Rightarrow> block_pool \<Rightarrow> (nat list \<times> kv_manager \<times> block_pool) res" where
  "redirect_partial_hit rid m p =
     (case partial_hit_reqs m rid of
        None \<Rightarrow> Inr ([], m, p)
      | Some (block_idx, source) \<Rightarrow>
          let m1 = m\<lparr>partial_hit_reqs := (partial_hit_reqs m)(rid := None)\<rparr>
          in bind_res (get_one_new_block p) (\<lambda>(cow, p1).
               bind_res (apply_cow rid block_idx source cow m1 p1) (\<lambda>(m2, p2).
                 Inr ([cow], record_ids True [cow] m2, p2))))"

definition allocate_new_blocks :: "string \<Rightarrow> nat \<Rightarrow> kv_manager \<Rightarrow> block_pool \<Rightarrow> (nat list \<times> kv_manager \<times> block_pool) res" where
  "allocate_new_blocks rid ntoks m p =
     bind_res (redirect_partial_hit rid m p) (\<lambda>(cow_blocks, m1, p1).
       let m2 = open_req rid m1;
           num_required = cdivn ntoks (mgr_block_size m2)
       in if num_required \<le> length (req_blocks m2 rid) then Inr (cow_blocks, m2, p1)
          else bind_res (get_new_blocks (num_required - length (req_blocks m2 rid)) p1) (\<lambda>(bs, p2).
                 Inr (cow_blocks @ bs,
                      record_ids (record_new_block_ids m2) bs (set_blocks rid (req_blocks m2 rid @ bs) m2), p2)))"

definition take_new_block_ids :: "kv_manager \<Rightarrow> nat list \<times> kv_manager" where
  "take_new_block_ids m = (new_block_ids m, m\<lparr>new_block_ids := []\<rparr>)"

definition take_pending_cow_copies :: "kv_manager \<Rightarrow> (nat \<times> nat) list \<times> kv_manager" where
  "take_pending_cow_copies m = (pending_cow_copies m, m\<lparr>pending_cow_copies := []\<rparr>)"

section \<open>Taking blocks back\<close>

definition pop_blocks_for_free :: "string \<Rightarrow> kv_manager \<Rightarrow> nat list \<times> kv_manager" where
  "pop_blocks_for_free rid m =
     (req_blocks m rid,
      m\<lparr>req_to_blocks := AList.delete rid (req_to_blocks m),
        num_cached_block := (num_cached_block m)(rid := None),
        partial_hit_reqs := (partial_hit_reqs m)(rid := None)\<rparr>)"

definition mgr_free :: "string \<Rightarrow> kv_manager \<Rightarrow> block_pool \<Rightarrow> (kv_manager \<times> block_pool) res" where
  "mgr_free rid m p =
     (let (bs, m1) = pop_blocks_for_free rid m
      in bind_res (free_own_blocks (rev bs) p) (\<lambda>p1. Inr (m1, p1)))"

text \<open>The loop of \<^verbatim>\<open>_remove_blocks_in_range\<close> over the indices from \<open>k - 1\<close> down to \<open>first\<close>.\<close>

fun null_range :: "nat \<Rightarrow> nat \<Rightarrow> nat \<Rightarrow> nat list \<Rightarrow> nat list \<Rightarrow> nat list \<times> nat list" where
  "null_range null first 0 bs freed = (bs, freed)"
| "null_range null first (Suc k) bs freed =
     (if k < first \<or> bs ! k = null then (bs, freed)
      else null_range null first k (bs[k := null]) (freed @ [bs ! k]))"

definition remove_blocks_in_range :: "string \<Rightarrow> nat \<Rightarrow> nat \<Rightarrow> kv_manager \<Rightarrow> block_pool \<Rightarrow> (kv_manager \<times> block_pool) res" where
  "remove_blocks_in_range rid first_block last_block m p =
     (if map_of (req_to_blocks m) rid = None \<or> first_block \<ge> last_block then Inr (m, p)
      else let bs = req_blocks m rid;
               (bs', freed) = null_range (null_block p) first_block (min last_block (length bs)) bs []
           in if freed = [] then Inr (set_blocks rid bs' m, p)
              else bind_res (free_own_blocks freed p) (\<lambda>p1. Inr (set_blocks rid bs' m, p1)))"

text \<open>The base method, and the override for reference sliding windows, which frees the gap between the
  prompt and the window.\<close>

definition base_remove_skipped_blocks :: "string \<Rightarrow> nat \<Rightarrow> kv_manager \<Rightarrow> block_pool \<Rightarrow> (kv_manager \<times> block_pool) res" where
  "base_remove_skipped_blocks rid processed m p =
     (let num_skipped = get_num_skipped_tokens m processed
      in if num_skipped \<le> 0 then Inr (m, p)
         else let m1 = open_req rid m
              in remove_blocks_in_range rid 0
                   (min (num_skipped div mgr_block_size m) (length (req_blocks m1 rid))) m1 p)"

definition remove_skipped_blocks :: "string \<Rightarrow> nat \<Rightarrow> nat option \<Rightarrow> kv_manager \<Rightarrow> block_pool \<Rightarrow> (kv_manager \<times> block_pool) res" where
  "remove_skipped_blocks rid processed num_prompt m p =
     (case (mgr_kind m, num_prompt) of
        (RSWA w, Some n) \<Rightarrow>
          let window_start = max n (processed - w)
          in remove_blocks_in_range rid (cdivn n (mgr_block_size m)) (window_start div mgr_block_size m) m p
      | (CircularBuffer, _) \<Rightarrow> Inr (m, p)
      | _ \<Rightarrow> base_remove_skipped_blocks rid processed m p)"

fun common_prefix :: "block_pool \<Rightarrow> nat \<Rightarrow> nat list \<Rightarrow> nat" where
  "common_prefix p n [] = 0"
| "common_prefix p n (b # bs) = (if ref_cnt (blk p b) = int n then Suc (common_prefix p n bs) else 0)"

definition get_num_common_prefix_blocks :: "string \<Rightarrow> kv_manager \<Rightarrow> block_pool \<Rightarrow> nat \<times> kv_manager" where
  "get_num_common_prefix_blocks rid m p =
     (case mgr_kind m of
        SlidingWindow w e \<Rightarrow> (0, m)
      | ChunkedLocal c \<Rightarrow> (0, m)
      | CircularBuffer \<Rightarrow> (0, m)
      | CrossAttention \<Rightarrow> (0, m)
      | _ \<Rightarrow> let m1 = open_req rid m
             in (common_prefix p (length (req_to_blocks m1)) (req_blocks m1 rid), m1))"

section \<open>Every reference is accounted for\<close>

text \<open>
  \<open>held m b\<close> counts the references manager \<open>m\<close> has on block \<open>b\<close>: entries of block tables and
  endpoints of pending copies. \<open>accounted ext m p\<close> says that the reference counts of the pool are
  these plus \<open>ext\<close>, the references of everyone else.
\<close>

definition occ :: "kv_manager \<Rightarrow> nat \<Rightarrow> nat" where
  "occ m b = count_list (concat (map snd (req_to_blocks m))) b"

definition held :: "kv_manager \<Rightarrow> nat \<Rightarrow> nat" where
  "held m b = occ m b + count_list (map fst (pending_cow_copies m) @ map snd (pending_cow_copies m)) b"

definition mgr_wf :: "nat \<Rightarrow> kv_manager \<Rightarrow> bool" where
  "mgr_wf n m \<longleftrightarrow> 0 < mgr_block_size m \<and> distinct (map fst (req_to_blocks m)) \<and>
     (\<forall>b. 0 < held m b \<longrightarrow> b < n) \<and>
     (\<forall>rid i src. partial_hit_reqs m rid = Some (i, src) \<longrightarrow>
        i < length (req_blocks m rid) \<and> req_blocks m rid ! i = src \<and> src \<noteq> 0)"

definition accounted :: "(nat \<Rightarrow> nat) \<Rightarrow> kv_manager \<Rightarrow> block_pool \<Rightarrow> bool" where
  "accounted ext m p \<longleftrightarrow> mgr_wf (length (blocks p)) m \<and> null_block p = 0 \<and>
     (\<forall>b < length (blocks p). b \<noteq> 0 \<longrightarrow> rc p b = int (ext b + held m b))"

lemma count_concat_update:
  "distinct (map fst al) \<Longrightarrow>
     count_list (concat (map snd (AList.update k v al))) b + count_list (case map_of al k of None \<Rightarrow> [] | Some u \<Rightarrow> u) b =
     count_list (concat (map snd al)) b + count_list v b"
  by (induction al) auto

lemma count_concat_delete:
  "distinct (map fst al) \<Longrightarrow>
     count_list (concat (map snd (AList.delete k al))) b + count_list (case map_of al k of None \<Rightarrow> [] | Some u \<Rightarrow> u) b =
     count_list (concat (map snd al)) b"
proof (induction al)
  case (Cons x al)
  show ?case
  proof (cases "fst x = k")
    case True
    with Cons.prems have "map_of al k = None" by (auto simp: map_of_eq_None_iff)
    then show ?thesis using Cons True by (cases x) auto
  next
    case False
    then show ?thesis using Cons by (cases x) auto
  qed
qed simp

lemma occ_set_blocks:
  "distinct (map fst (req_to_blocks m)) \<Longrightarrow>
     occ (set_blocks rid bs m) b + count_list (req_blocks m rid) b = occ m b + count_list bs b"
  unfolding occ_def set_blocks_def req_blocks_def using count_concat_update by simp

lemma set_blocks_sel [simp]:
  "req_blocks (set_blocks rid bs m) x = (if x = rid then bs else req_blocks m x)"
  "partial_hit_reqs (set_blocks rid bs m) = partial_hit_reqs m"
  "pending_cow_copies (set_blocks rid bs m) = pending_cow_copies m"
  "num_cached_block (set_blocks rid bs m) = num_cached_block m"
  "mgr_block_size (set_blocks rid bs m) = mgr_block_size m"
  "mgr_kind (set_blocks rid bs m) = mgr_kind m"
  "mgr_enable_caching (set_blocks rid bs m) = mgr_enable_caching m"
  "record_new_block_ids (set_blocks rid bs m) = record_new_block_ids m"
  by (auto simp: set_blocks_def req_blocks_def update_conv')

lemma set_blocks_distinct: "distinct (map fst (req_to_blocks m)) \<Longrightarrow> distinct (map fst (req_to_blocks (set_blocks rid bs m)))"
  by (simp add: set_blocks_def AList.distinct_update)

text \<open>The effect of each pool operation on the reference counts, in one form.\<close>

lemma get_new_blocks_refs:
  assumes "pool_inv p free" and "get_new_blocks n p = Inr (bs, p')"
  shows "pool_inv p' (drop n free)" and "same_config p p'" and "bs = take n free" and "n \<le> length free"
    and "j < length (blocks p) \<Longrightarrow> rc p' j = rc p j + int (count_list bs j)"
    and "distinct bs" and "b \<in> set bs \<Longrightarrow> b < length (blocks p) \<and> b \<noteq> 0"
proof -
  show n: "n \<le> length free" using get_new_blocks_short [OF assms(1), of n] assms(2) by force
  have R: "refs_ok p free {}" using assms(1) by (simp add: pool_inv_def)
  from get_new_blocks_spec [OF assms(1) n] assms(2) have
    P: "bs = take n free" "pool_inv p' (drop n free)" "same_config p p'"
    "\<And>j. j < length (blocks p) \<Longrightarrow> if j \<in> set (take n free) then rc p' j = 1 else rc p' j = rc p j"
    by (metis Pair_inject sum.inject(2))+
  show "bs = take n free" "pool_inv p' (drop n free)" "same_config p p'" by (fact P)+
  show d: "distinct bs" using refs_okD(2) [OF R] P(1) by simp
  show "rc p' j = rc p j + int (count_list bs j)" if "j < length (blocks p)"
    using P(4) [OF that] refs_okD(6) [OF R, of j] count_list_distinct [OF d, of j] P(1)
    by (auto dest: in_set_takeD)
  show "b < length (blocks p) \<and> b \<noteq> 0" if "b \<in> set bs"
    using that P(1) refs_okD(4,5) [OF R, of b] by (auto dest: in_set_takeD)
qed

lemma touch_refs:
  assumes "pool_inv p free" and "\<forall>i \<in> set bs. i < length (blocks p)" and "touch bs p = Inr p'"
  shows "pool_inv p' (filter (\<lambda>i. i \<notin> set bs) free)" and "same_config p p'"
    and "j < length (blocks p) \<Longrightarrow> rc p' j = rc p j + int (count_list bs j)"
proof -
  have R: "refs_ok p free {}" using assms(1) by (simp add: pool_inv_def)
  from touch_spec [OF R assms(2)] assms(3) have T: "refs_ok p' (filter (\<lambda>i. i \<notin> set bs) free) {}" "refs_only p p'"
    "\<forall>j < length (blocks p). rc p' j = rc p j + int (count_list bs j)" by auto
  show "pool_inv p' (filter (\<lambda>i. i \<notin> set bs) free)" using pool_inv_refs_only [OF assms(1) T(2,1)] .
  show "same_config p p'" using refs_only_config [OF T(2)] .
  show "j < length (blocks p) \<Longrightarrow> rc p' j = rc p j + int (count_list bs j)" using T(3) by blast
qed

lemma free_blocks_refs:
  assumes "pool_inv p free" and "releasable p bs"
  shows "\<exists>p' free'. free_own_blocks bs p = Inr p' \<and> pool_inv p' free' \<and> same_config p p' \<and>
    (\<forall>j < length (blocks p). rc p' j = rc p j - int (count_list bs j))"
  using free_own_blocks_spec [OF assms] refs_only_config by metis

lemma set_ref_cnt_refs:
  assumes "pool_inv p free" and "i < length (blocks p)" and "0 < rc p i" and "i \<noteq> 0"
  shows "pool_inv (set_ref_cnt i (rc p i + 1) p) free" and "same_config p (set_ref_cnt i (rc p i + 1) p)"
    and "rc (set_ref_cnt i (rc p i + 1) p) j = rc p j + (if j = i then 1 else 0)"
proof -
  let ?p = "set_ref_cnt i (rc p i + 1) p"
  have R: "refs_ok p free {}" using assms(1) by (simp add: pool_inv_def)
  have "i \<notin> set free" using refs_okD(6) [OF R, of i] assms(3) by auto
  then have "refs_ok ?p free {}" using refs_ok_set_ref_cnt [OF R assms(2), of "rc p i + 1" "{}"] assms(3) by simp
  then show "pool_inv ?p free" using pool_inv_refs_only [OF assms(1) refs_only_set_ref_cnt] by blast
  show "same_config p ?p" using refs_only_config [OF refs_only_set_ref_cnt] .
  show "rc ?p j = rc p j + (if j = i then 1 else 0)" using assms(2) by simp
qed

lemma accounted_wf: "accounted ext m p \<Longrightarrow> mgr_wf (length (blocks p)) m"
  by (simp add: accounted_def)

lemma accounted_null: "accounted ext m p \<Longrightarrow> null_block p = 0"
  by (simp add: accounted_def)

text \<open>The rule all operations go through: the pool's counts and the manager's references change alike.\<close>

lemma accounted_step:
  assumes "accounted ext m p" and "same_config p p'" and "mgr_wf (length (blocks p)) m'"
    and "\<And>b. b < length (blocks p) \<Longrightarrow> b \<noteq> 0 \<Longrightarrow> rc p' b - rc p b = int (held m' b) - int (held m b)"
  shows "accounted ext m' p'"
proof -
  have "length (blocks p') = length (blocks p)" "null_block p' = null_block p" using assms(2) by (simp_all add: same_config_def)
  moreover have "rc p' b = int (ext b + held m' b)" if "b < length (blocks p)" "b \<noteq> 0" for b
    using assms(1) assms(4) [OF that] that by (auto simp: accounted_def)
  ultimately show ?thesis using assms(1,3) by (simp add: accounted_def)
qed

lemma held_fields [simp]:
  "held (m\<lparr>num_cached_block := x\<rparr>) = held m" "held (m\<lparr>new_block_ids := y\<rparr>) = held m"
  "held (m\<lparr>partial_hit_reqs := z\<rparr>) = held m" "held (record_ids c ids m) = held m"
  "req_blocks (m\<lparr>num_cached_block := x\<rparr>) = req_blocks m" "req_blocks (m\<lparr>new_block_ids := y\<rparr>) = req_blocks m"
  "req_blocks (m\<lparr>partial_hit_reqs := z\<rparr>) = req_blocks m" "req_blocks (record_ids c ids m) = req_blocks m"
  "req_blocks (m\<lparr>pending_cow_copies := u\<rparr>) = req_blocks m"
  by (simp_all add: fun_eq_iff held_def occ_def req_blocks_def record_ids_def)

lemma wf_fields [simp]:
  "mgr_wf n (m\<lparr>num_cached_block := x\<rparr>) = mgr_wf n m" "mgr_wf n (m\<lparr>new_block_ids := y\<rparr>) = mgr_wf n m"
  "mgr_wf n (record_ids c ids m) = mgr_wf n m"
  by (simp_all add: mgr_wf_def record_ids_def)

lemma held_set_blocks:
  assumes "mgr_wf n m"
  shows "int (held (set_blocks rid bs m) b) = int (held m b) + int (count_list bs b) - int (count_list (req_blocks m rid) b)"
  using occ_set_blocks [of m rid bs b] assms by (simp add: held_def mgr_wf_def)

lemma count_req_le: "mgr_wf n m \<Longrightarrow> count_list (req_blocks m rid) b \<le> held m b"
  using occ_set_blocks [of m rid "[]" b] by (simp add: held_def mgr_wf_def)

lemma req_blocks_bound: "mgr_wf n m \<Longrightarrow> b \<in> set (req_blocks m rid) \<Longrightarrow> b < n"
  using count_req_le [of n m rid b] count_list_0_iff [of "req_blocks m rid" b] by (auto simp: mgr_wf_def)

lemma partialD:
  assumes "mgr_wf n m" and "partial_hit_reqs m rid = Some (i, src)"
  shows "i < length (req_blocks m rid)" and "req_blocks m rid ! i = src" and "src \<noteq> 0"
  using assms unfolding mgr_wf_def by blast+

lemma wf_set_blocks:
  assumes "mgr_wf n m" and "\<forall>b \<in> set bs. b < n"
    and "\<And>i src. partial_hit_reqs m rid = Some (i, src) \<Longrightarrow> i < length bs \<and> bs ! i = src"
  shows "mgr_wf n (set_blocks rid bs m)"
proof -
  have "b < n" if "0 < held (set_blocks rid bs m) b" for b
  proof (cases "b \<in> set bs")
    case False
    then have "int (held (set_blocks rid bs m) b) \<le> int (held m b)" using held_set_blocks [OF assms(1)] by simp
    then show ?thesis using that assms(1) by (simp add: mgr_wf_def)
  qed (use assms(2) in blast)
  moreover have "i < length (req_blocks (set_blocks rid bs m) x) \<and> req_blocks (set_blocks rid bs m) x ! i = src \<and> src \<noteq> 0"
    if "partial_hit_reqs m x = Some (i, src)" for x i src
    using that assms(1,3) by (auto simp: mgr_wf_def)
  ultimately show ?thesis using assms(1) set_blocks_distinct unfolding mgr_wf_def by simp
qed

lemma wf_partial:
  assumes "mgr_wf n m" and "i < length (req_blocks m rid)" and "req_blocks m rid ! i = src" and "src \<noteq> 0"
  shows "mgr_wf n (m\<lparr>partial_hit_reqs := (partial_hit_reqs m)(rid \<mapsto> (i, src))\<rparr>)"
  using assms by (auto simp: mgr_wf_def)

lemma wf_no_partial: "mgr_wf n m \<Longrightarrow> mgr_wf n (m\<lparr>partial_hit_reqs := (partial_hit_reqs m)(rid := None)\<rparr>)"
  by (auto simp: mgr_wf_def)

lemma open_req_sel [simp]:
  "req_blocks (open_req rid m) = req_blocks m" "partial_hit_reqs (open_req rid m) = partial_hit_reqs m"
  "pending_cow_copies (open_req rid m) = pending_cow_copies m" "num_cached_block (open_req rid m) = num_cached_block m"
  "mgr_block_size (open_req rid m) = mgr_block_size m" "mgr_kind (open_req rid m) = mgr_kind m"
  "mgr_enable_caching (open_req rid m) = mgr_enable_caching m" "record_new_block_ids (open_req rid m) = record_new_block_ids m"
  by (auto simp: open_req_def fun_eq_iff)

lemma open_req_held: "mgr_wf n m \<Longrightarrow> held (open_req rid m) b = held m b"
  using held_set_blocks [of n m rid "req_blocks m rid" b] by (simp add: open_req_def)

lemma open_req_wf: "mgr_wf n m \<Longrightarrow> mgr_wf n (open_req rid m)"
  unfolding open_req_def by (rule wf_set_blocks) (auto simp: req_blocks_bound, auto simp: mgr_wf_def)

lemma accounted_open: "accounted ext m p \<Longrightarrow> accounted ext (open_req rid m) p"
  using open_req_wf open_req_held by (auto simp: accounted_def)

text \<open>Appending fresh blocks to a table.\<close>

lemma append_new_blocks:
  assumes "pool_inv p free" and A: "accounted ext m p" and "get_new_blocks n p = Inr (bs, p')"
  shows "accounted ext (set_blocks rid (req_blocks m rid @ bs) m) p'" and "pool_inv p' (drop n free)"
    and "same_config p p'"
proof -
  note G = get_new_blocks_refs [OF assms(1,3)] and W = accounted_wf [OF A]
  show "pool_inv p' (drop n free)" "same_config p p'" by (fact G)+
  have "mgr_wf (length (blocks p)) (set_blocks rid (req_blocks m rid @ bs) m)"
  proof (rule wf_set_blocks [OF W])
    show "\<forall>b \<in> set (req_blocks m rid @ bs). b < length (blocks p)" using req_blocks_bound [OF W] G(7) by auto
    show "i < length (req_blocks m rid @ bs) \<and> (req_blocks m rid @ bs) ! i = src"
      if "partial_hit_reqs m rid = Some (i, src)" for i src
      using partialD [OF W that] by (simp add: nth_append)
  qed
  then show "accounted ext (set_blocks rid (req_blocks m rid @ bs) m) p'"
    using accounted_step [OF A G(2)] G(5) held_set_blocks [OF W] by simp
qed

lemma accounted_record [simp]:
  "accounted ext (record_ids c ids m) p = accounted ext m p"
  "accounted ext (m\<lparr>num_cached_block := x\<rparr>) p = accounted ext m p"
  "accounted ext (m\<lparr>new_block_ids := y\<rparr>) p = accounted ext m p"
  by (simp_all add: accounted_def)

lemma allocate_external_accounted:
  assumes "pool_inv p free" and A: "accounted ext m p"
    and "allocate_external_computed_blocks rid nl ne rz m p = Inr (m', p')"
  shows "accounted ext m' p' \<and> (\<exists>free'. pool_inv p' free') \<and> same_config p p'"
proof -
  let ?m = "open_req rid m" and ?sk = "get_num_skipped_tokens m (nl + ne)"
  define x where "x = (if ?sk > 0 then min (int (nl + ne) - int ?sk) (int ne) else int ne)"
  let ?new = "get_new_blocks (cdivn (nl + ne) (mgr_block_size m) - length (req_blocks ?m rid)) p"
  have run: "allocate_external_computed_blocks rid nl ne rz m p = (if x \<le> 0 then Inr (m, p)
      else bind_res ?new (\<lambda>(bs, p1). Inr (record_ids (record_new_block_ids m \<and> rz) bs
        (set_blocks rid (req_blocks ?m rid @ bs) ?m), p1)))"
    unfolding allocate_external_computed_blocks_def Let_def x_def by (rule refl)
  show ?thesis
  proof (cases "x \<le> 0")
    case True
    then show ?thesis using assms run by auto
  next
    case False
    then obtain bs where new: "?new = Inr (bs, p')"
      "m' = record_ids (record_new_block_ids m \<and> rz) bs (set_blocks rid (req_blocks ?m rid @ bs) ?m)"
      using assms(3) unfolding run by auto
    from append_new_blocks [OF assms(1) accounted_open [OF A] new(1)] show ?thesis using new(2) by auto
  qed
qed

lemma cdivn_partial: "0 < b \<Longrightarrow> a mod b \<noteq> 0 \<Longrightarrow> cdivn a b = Suc (a div b)"
proof -
  assume b: "0 < b" and m: "a mod b \<noteq> 0"
  define k r where "k = a div b" and "r = a mod b"
  have a: "a = k * b + r" and r: "0 < r" "r < b" using b m by (simp_all add: k_def r_def)
  have "cdivn a b \<le> Suc k" "\<not> cdivn a b \<le> k" using cdivn_le_iff [OF b] r by (simp_all add: a)
  then show ?thesis by (simp add: k_def)
qed

text \<open>What a lookup hands over: valid blocks, one for every started block of the local hit.\<close>

definition hit_shape :: "kv_manager \<Rightarrow> block_pool \<Rightarrow> nat list \<Rightarrow> nat \<Rightarrow> bool" where
  "hit_shape m p new nl \<longleftrightarrow> (\<forall>b \<in> set new. b < length (blocks p)) \<and> length new = cdivn nl (mgr_block_size m) \<and>
     (new \<noteq> [] \<longrightarrow> last new \<noteq> 0)"

abbreviation skipped_blocks :: "kv_manager \<Rightarrow> nat \<Rightarrow> nat" where
  "skipped_blocks m n \<equiv> get_num_skipped_tokens m n div mgr_block_size m"

lemma drop_if [simp]: "(if 0 < s then drop s xs else xs) = drop s xs"
  by simp

lemma add_local_eq:
  assumes "accounted ext m p"
  shows "add_local_computed_blocks rid new nl ne m p =
     (if req_blocks m rid \<noteq> [] then Inl AssertionError
      else let s = skipped_blocks m (nl + ne); hits = drop s new; bs = replicate s 0 @ hits
           in bind_res (if mgr_enable_caching m then touch hits p else py_assert (hits = []) (Inr p)) (\<lambda>p1.
                Inr (if has_partial_local_hit m hits nl
                     then (set_blocks rid bs (open_req rid m))
                            \<lparr>num_cached_block := (num_cached_block m)(rid \<mapsto> nl div mgr_block_size m),
                             partial_hit_reqs := (partial_hit_reqs m)(rid \<mapsto> (nl div mgr_block_size m, last hits))\<rparr>
                     else (set_blocks rid bs (open_req rid m))\<lparr>num_cached_block := (num_cached_block m)(rid \<mapsto> length bs)\<rparr>, p1)))"
  unfolding add_local_computed_blocks_def Let_def drop_if accounted_null [OF assms]
  by (auto intro!: bind_res_cong)

lemma add_local_accounted:
  assumes P: "pool_inv p free" and A: "accounted ext m p" and H: "hit_shape m p new nl"
    and run: "add_local_computed_blocks rid new nl ne m p = Inr (m', p')"
  shows "accounted ext m' p' \<and> (\<exists>free'. pool_inv p' free') \<and> same_config p p'"
proof -
  define s where "s = skipped_blocks m (nl + ne)"
  define hits where "hits = drop s new"
  define bs where "bs = replicate s 0 @ hits"
  define m1 where "m1 = set_blocks rid bs (open_req rid m)"
  note W = accounted_wf [OF A]
  have e: "req_blocks m rid = []" and
    t: "(if mgr_enable_caching m then touch hits p else py_assert (hits = []) (Inr p)) = Inr p'" and
    m': "m' = (if has_partial_local_hit m hits nl
       then m1\<lparr>num_cached_block := (num_cached_block m)(rid \<mapsto> nl div mgr_block_size m),
               partial_hit_reqs := (partial_hit_reqs m)(rid \<mapsto> (nl div mgr_block_size m, last hits))\<rparr>
       else m1\<lparr>num_cached_block := (num_cached_block m)(rid \<mapsto> length bs)\<rparr>)"
    using run unfolding add_local_eq [OF A] Let_def s_def [symmetric] hits_def [symmetric] bs_def [symmetric] m1_def [symmetric]
    by (auto split: if_splits)
  have hb: "\<forall>b \<in> set hits. b < length (blocks p)" using H by (auto simp: hit_shape_def hits_def dest: in_set_dropD)
  have T: "(\<exists>free'. pool_inv p' free') \<and> same_config p p' \<and> (\<forall>j < length (blocks p). rc p' j = rc p j + int (count_list hits j))"
  proof (cases "mgr_enable_caching m")
    case True
    then have "touch hits p = Inr p'" using t by simp
    from touch_refs [OF P hb this] show ?thesis by blast
  next
    case False
    then show ?thesis using t P by auto
  qed
  have n0: "0 < length (blocks p)" using P refs_okD(11) [of p free "{}"] unfolding pool_inv_def by blast
  have none: "partial_hit_reqs m rid = None"
    using partialD(1) [OF W, of rid] e by (cases "partial_hit_reqs m rid") auto
  have W1: "mgr_wf (length (blocks p)) m1" unfolding m1_def
    by (rule wf_set_blocks [OF open_req_wf [OF W]]) (use hb n0 none in \<open>auto simp: bs_def\<close>)
  have r1: "req_blocks m1 x = (if x = rid then bs else req_blocks m x)" for x by (simp add: m1_def)
  have h1: "int (held m1 b) = int (held m b) + int (count_list bs b)" for b
    using held_set_blocks [OF open_req_wf [OF W], of rid bs rid b] open_req_held [OF W] e by (simp add: m1_def)
  have part: "nl div mgr_block_size m < length bs \<and> bs ! (nl div mgr_block_size m) = last hits \<and> last hits \<noteq> 0"
    if "has_partial_local_hit m hits nl"
  proof -
    from that have ne: "hits \<noteq> []" and md: "nl mod mgr_block_size m \<noteq> 0" by (auto simp: has_partial_local_hit_def)
    have "length new = Suc (nl div mgr_block_size m)"
      using H cdivn_partial [OF _ md] W by (simp add: hit_shape_def mgr_wf_def)
    moreover have "length bs = length new" using ne by (simp add: bs_def hits_def)
    moreover have "last hits = last new" "new \<noteq> []" using ne by (auto simp: hits_def last_drop)
    moreover have "last bs = last hits" "bs \<noteq> []" using ne by (auto simp: bs_def)
    ultimately show ?thesis using H by (simp add: hit_shape_def last_conv_nth)
  qed
  have p1: "partial_hit_reqs m1 = partial_hit_reqs m" by (simp add: m1_def)
  have "mgr_wf (length (blocks p)) m'"
  proof (cases "has_partial_local_hit m hits nl")
    case True
    let ?m = "m1\<lparr>num_cached_block := (num_cached_block m)(rid \<mapsto> nl div mgr_block_size m)\<rparr>"
    have "mgr_wf (length (blocks p)) (?m\<lparr>partial_hit_reqs := (partial_hit_reqs ?m)(rid \<mapsto> (nl div mgr_block_size m, last hits))\<rparr>)"
      by (rule wf_partial) (use W1 part [OF True] in \<open>simp_all add: r1\<close>)
    then show ?thesis unfolding m' using True by (simp add: p1)
  next
    case False
    then show ?thesis unfolding m' using W1 by simp
  qed
  moreover have "held m' = held m1" unfolding m' by simp
  moreover have "count_list bs b = count_list hits b" if "b \<noteq> 0" for b
    using that by (simp add: bs_def count_list_0_iff)
  ultimately have "accounted ext m' p'" using accounted_step [OF A, of p' m'] T h1 by simp
  then show ?thesis using T by blast
qed

lemma count_update:
  "i < length xs \<Longrightarrow> count_list (xs[i := c]) b + (if xs ! i = b then 1 else 0) = count_list xs b + (if c = b then 1 else 0)"
proof (induction xs arbitrary: i)
  case (Cons x xs)
  show ?case
  proof (cases i)
    case (Suc j)
    then show ?thesis using Cons.IH [of j] Cons.prems by (auto split: if_splits)
  qed simp
qed simp

lemma redirect_partial_hit_accounted:
  assumes P: "pool_inv p free" and A: "accounted ext m p" and run: "redirect_partial_hit rid m p = Inr (cows, m', p')"
  shows "accounted ext m' p' \<and> (\<exists>free'. pool_inv p' free' \<and> length free' = length free - length cows) \<and> same_config p p' \<and>
    length (req_blocks m' rid) = length (req_blocks m rid) \<and> mgr_block_size m' = mgr_block_size m \<and>
    partial_hit_reqs m' rid = None"
proof (cases "partial_hit_reqs m rid")
  case None
  then show ?thesis using P A run by (auto simp: redirect_partial_hit_def)
next
  case (Some x)
  obtain i src where x: "x = (i, src)" by (cases x)
  note W = accounted_wf [OF A] and pd = partialD [OF accounted_wf [OF A] Some [unfolded x]]
  define m0 where "m0 = m\<lparr>partial_hit_reqs := (partial_hit_reqs m)(rid := None)\<rparr>"
  from run Some x obtain cow p1 m2 p2 where
    g: "get_one_new_block p = Inr (cow, p1)" and c: "apply_cow rid i src cow m0 p1 = Inr (m2, p2)"
    and out: "cows = [cow]" "m' = record_ids True [cow] m2" "p' = p2"
    by (auto simp: redirect_partial_hit_def Let_def m0_def)
  from g obtain bs where g1: "get_new_blocks 1 p = Inr (bs, p1)" "py_nth bs 0 = Inr cow"
    by (auto simp: get_one_new_block_def)
  note G = get_new_blocks_refs [OF P g1(1)]
  have cow: "cow \<in> set bs" "bs = [cow]"
    using g1(2) G(3,4) by (auto simp: py_nth_def split: if_splits) (cases free; simp)+
  have W0: "mgr_wf (length (blocks p)) (open_req rid m0)" unfolding m0_def by (intro open_req_wf wf_no_partial W)
  have sel: "req_blocks m0 = req_blocks m" "pending_cow_copies m0 = pending_cow_copies m"
    "held (open_req rid m0) b = held m b" for b
    using open_req_held [OF wf_no_partial [OF W]] by (simp_all add: m0_def)
  let ?bs = "(req_blocks m rid)[i := cow]" and ?m1 = "set_blocks rid ((req_blocks m rid)[i := cow]) (open_req rid m0)"
  have m2: "m2 = ?m1\<lparr>pending_cow_copies := pending_cow_copies m @ [(src, cow)]\<rparr>" and p2: "p2 = set_ref_cnt cow (rc p1 cow + 1) p1"
    using c by (auto simp: apply_cow_def Let_def m0_def)
  have len: "length (blocks p1) = length (blocks p)" using G(2) by (simp add: same_config_def)
  have cb: "cow < length (blocks p)" "cow \<noteq> 0" using G(7) cow(1) by auto
  have R: "refs_ok p free {}" using P by (simp add: pool_inv_def)
  have "cow \<in> set free" using cow(1) G(3) by (auto dest: in_set_takeD)
  then have rc1: "rc p1 cow = 1" using G(5) [OF cb(1)] cow(2) refs_okD(6) [OF R, of cow] by simp
  note S = set_ref_cnt_refs [OF G(1) _ _ cb(2)]
  have wf1: "mgr_wf (length (blocks p)) ?m1"
    by (rule wf_set_blocks [OF W0]) (use req_blocks_bound [OF W] cb(1) in \<open>auto dest: set_update_subset_insert [THEN subsetD] simp: m0_def\<close>)
  have h1: "int (held ?m1 b) = int (held m b) + int (count_list ?bs b) - int (count_list (req_blocks m rid) b)" for b
    using held_set_blocks [OF W0, of rid ?bs b] by (simp add: sel)
  have h2: "held m2 b = held ?m1 b + (if b = src then 1 else 0) + (if b = cow then 1 else 0)" for b
    by (auto simp: m2 held_def occ_def sel m0_def)
  have wf2: "mgr_wf (length (blocks p)) m2"
  proof -
    have "src < length (blocks p)" using req_blocks_bound [OF W, of src rid] pd(1,2) by auto
    then have "b < length (blocks p)" if "0 < held m2 b" for b
      using that wf1 cb(1) unfolding h2 mgr_wf_def by (auto split: if_splits)
    then show ?thesis using wf1 by (simp add: mgr_wf_def m2)
  qed
  have "accounted ext m2 p2"
  proof (rule accounted_step [OF A _ wf2])
    show "same_config p p2" unfolding p2 using G(2) S(2) same_config_trans cb(1) rc1 by (simp add: len)
    show "rc p2 b - rc p b = int (held m2 b) - int (held m b)" if "b < length (blocks p)" "b \<noteq> 0" for b
    proof -
      have "rc p2 b = rc p b + (if b = cow then 2 else 0)"
        unfolding p2 using S(3) [of b] G(5) [OF that(1)] cb(1) rc1 by (simp add: len cow(2))
      then show ?thesis using h1 [of b] h2 [of b] count_update [OF pd(1), of cow b] pd(2) by (auto split: if_splits)
    qed
  qed
  moreover have "pool_inv p2 (drop 1 free)" "same_config p p2"
    unfolding p2 using S(1,2) G(2) same_config_trans cb(1) rc1 by (simp_all add: len)
  moreover have "partial_hit_reqs m2 rid = None" "length (req_blocks m2 rid) = length (req_blocks m rid)"
    "mgr_block_size m2 = mgr_block_size m" by (simp_all add: m2 m0_def)
  ultimately show ?thesis unfolding out by (auto simp: record_ids_def)
qed

lemma allocate_new_accounted:
  assumes P: "pool_inv p free" and A: "accounted ext m p" and run: "allocate_new_blocks rid ntoks m p = Inr (out, m', p')"
  shows "accounted ext m' p' \<and> (\<exists>free'. pool_inv p' free') \<and> same_config p p'"
proof -
  from run obtain cows m1 p1 where r: "redirect_partial_hit rid m p = Inr (cows, m1, p1)"
    by (auto simp: allocate_new_blocks_def)
  from redirect_partial_hit_accounted [OF P A r] obtain free1 where
    1: "accounted ext m1 p1" "pool_inv p1 free1" "same_config p p1" by blast
  let ?m = "open_req rid m1"
  have run2: "(if cdivn ntoks (mgr_block_size ?m) \<le> length (req_blocks ?m rid) then Inr (cows, ?m, p1)
      else bind_res (get_new_blocks (cdivn ntoks (mgr_block_size ?m) - length (req_blocks ?m rid)) p1) (\<lambda>(bs, p2).
        Inr (cows @ bs, record_ids (record_new_block_ids ?m) bs (set_blocks rid (req_blocks ?m rid @ bs) ?m), p2))) = Inr (out, m', p')"
    using run r by (simp add: allocate_new_blocks_def Let_def)
  show ?thesis
  proof (cases "cdivn ntoks (mgr_block_size ?m) \<le> length (req_blocks ?m rid)")
    case True
    then show ?thesis using run2 1 accounted_open [OF 1(1)] by auto
  next
    case False
    with run2 obtain bs where
      new: "get_new_blocks (cdivn ntoks (mgr_block_size ?m) - length (req_blocks ?m rid)) p1 = Inr (bs, p')"
      "m' = record_ids (record_new_block_ids ?m) bs (set_blocks rid (req_blocks ?m rid @ bs) ?m)"
      by (auto simp del: open_req_sel)
    from append_new_blocks [OF 1(2) accounted_open [OF 1(1)] new(1)] show ?thesis
      using new(2) same_config_trans [OF 1(3)] by auto
  qed
qed

text \<open>Giving back blocks that leave a table.\<close>

lemma releasable_held:
  assumes "accounted ext m p" and "\<And>b. count_list bs b \<le> held m b"
  shows "releasable p bs"
proof -
  have "b < length (blocks p) \<and> (b \<noteq> 0 \<longrightarrow> int (count_list bs b) \<le> rc p b)" if "b \<in> set bs" for b
  proof -
    have "0 < count_list bs b" using that count_list_0_iff [of bs b] by auto
    then have "0 < held m b" using assms(2) [of b] by linarith
    then have "b < length (blocks p)" using assms(1) by (simp add: accounted_def mgr_wf_def)
    moreover have "rc p b = int (ext b + held m b)" if "b \<noteq> 0"
      using assms(1) that calculation by (simp add: accounted_def)
    ultimately show ?thesis using assms(2) [of b] by auto
  qed
  then show ?thesis by (simp add: releasable_def)
qed

lemma release_accounted:
  assumes "pool_inv p free" and A: "accounted ext m p" and "mgr_wf (length (blocks p)) m'"
    and "\<And>b. b \<noteq> 0 \<Longrightarrow> held m' b + count_list bs b = held m b" and "\<And>b. count_list bs b \<le> held m b"
  shows "\<exists>p'. free_own_blocks bs p = Inr p' \<and> accounted ext m' p' \<and> (\<exists>free'. pool_inv p' free') \<and> same_config p p'"
proof -
  from free_blocks_refs [OF assms(1) releasable_held [OF A assms(5)]] obtain p' free' where
    p': "free_own_blocks bs p = Inr p'" "pool_inv p' free'" "same_config p p'"
    "\<forall>j < length (blocks p). rc p' j = rc p j - int (count_list bs j)" by blast
  have "rc p' b - rc p b = int (held m' b) - int (held m b)" if "b < length (blocks p)" "b \<noteq> 0" for b
    using p'(4) assms(4) [OF that(2)] that(1) by force
  then show ?thesis using accounted_step [OF A p'(3) assms(3)] p' by blast
qed

lemma pop_held:
  assumes "mgr_wf n m" and "pop_blocks_for_free rid m = (bs, m')"
  shows "held m' b + count_list bs b = held m b" and "mgr_wf n m'"
    and "req_blocks m' x = (if x = rid then [] else req_blocks m x)"
proof -
  have e: "bs = req_blocks m rid" "req_to_blocks m' = AList.delete rid (req_to_blocks m)"
    "partial_hit_reqs m' = (partial_hit_reqs m)(rid := None)" "pending_cow_copies m' = pending_cow_copies m"
    "mgr_block_size m' = mgr_block_size m"
    using assms(2) by (auto simp: pop_blocks_for_free_def)
  show r: "req_blocks m' x = (if x = rid then [] else req_blocks m x)" for x
    by (simp add: req_blocks_def e(2) AList.delete_conv)
  show h: "held m' b + count_list bs b = held m b" for b
    using count_concat_delete [of "req_to_blocks m" rid b] assms(1)
    by (simp add: held_def occ_def e req_blocks_def mgr_wf_def)
  have "b < n" if "0 < held m' b" for b using that h [of b] assms(1) by (simp add: mgr_wf_def)
  then show "mgr_wf n m'"
    using assms(1) r AList.distinct_delete by (auto simp: mgr_wf_def e)
qed

lemma mgr_free_accounted:
  assumes "pool_inv p free" and A: "accounted ext m p"
  shows "\<exists>m' p'. mgr_free rid m p = Inr (m', p') \<and> accounted ext m' p' \<and> (\<exists>free'. pool_inv p' free') \<and> same_config p p' \<and>
    req_blocks m' rid = [] \<and> (\<forall>x. x \<noteq> rid \<longrightarrow> req_blocks m' x = req_blocks m x)"
proof -
  obtain bs m' where pop: "pop_blocks_for_free rid m = (bs, m')" by (metis surj_pair)
  note H = pop_held [OF accounted_wf [OF A] pop]
  have c: "count_list (rev bs) b = count_list bs b" for b by (simp add: count_list_rev)
  from release_accounted [OF assms H(2), of "rev bs"] obtain p' where
    "free_own_blocks (rev bs) p = Inr p'" "accounted ext m' p'" "\<exists>free'. pool_inv p' free'" "same_config p p'"
    using H(1) c by (metis le_add2)
  then show ?thesis using pop H(3) by (simp add: mgr_free_def)
qed

lemma null_range_spec:
  assumes "k \<le> length bs" and "null_range null first k bs freed = (bs', freed')"
  shows "\<exists>j \<le> k. bs' = take j bs @ replicate (k - j) null @ drop k bs \<and> freed' = freed @ rev (drop j (take k bs)) \<and>
    null \<notin> set (drop j (take k bs)) \<and> (j < k \<longrightarrow> first \<le> j) \<and> (first < j \<longrightarrow> bs ! (j - 1) = null)"
  using assms
proof (induction k arbitrary: bs freed)
  case 0
  then show ?case by simp
next
  case (Suc k)
  show ?case
  proof (cases "k < first \<or> bs ! k = null")
    case True
    then have "bs' = bs" "freed' = freed" using Suc.prems(2) by auto
    then show ?thesis using True by (intro exI [of _ "Suc k"]) auto
  next
    case False
    let ?bs = "bs[k := null]"
    have k: "k \<le> length ?bs" and r: "null_range null first k ?bs (freed @ [bs ! k]) = (bs', freed')"
      using Suc.prems False by simp_all
    from Suc.IH [OF k r] obtain j where j: "j \<le> k" "bs' = take j ?bs @ replicate (k - j) null @ drop k ?bs"
      "freed' = (freed @ [bs ! k]) @ rev (drop j (take k ?bs))" "null \<notin> set (drop j (take k ?bs))"
      "j < k \<longrightarrow> first \<le> j" "first < j \<longrightarrow> ?bs ! (j - 1) = null" by blast
    have t: "take k ?bs = take k bs" "take j ?bs = take j bs" using j(1) by simp_all
    have "drop k ?bs = null # drop (Suc k) bs" using Suc.prems(1) by (simp add: Cons_nth_drop_Suc [symmetric])
    moreover have "drop j (take (Suc k) bs) = drop j (take k bs) @ [bs ! k]"
      using Suc.prems(1) j(1) by (simp add: take_Suc_conv_app_nth)
    moreover have "replicate (Suc k - j) null = replicate (k - j) null @ [null]"
      using j(1) by (simp add: Suc_diff_le replicate_append_same)
    moreover have "?bs ! (j - 1) = bs ! (j - 1)" if "first < j" using that j(1) by simp
    ultimately show ?thesis using j t False by (intro exI [of _ j]) auto
  qed
qed

lemma remove_range_spec:
  assumes P: "pool_inv p free" and A: "accounted ext m p" and "partial_hit_reqs m rid = None"
  shows "\<exists>m' p'. remove_blocks_in_range rid first lst m p = Inr (m', p') \<and> accounted ext m' p' \<and>
    (\<exists>free'. pool_inv p' free') \<and> same_config p p' \<and> (\<forall>x. x \<noteq> rid \<longrightarrow> req_blocks m' x = req_blocks m x) \<and>
    length (req_blocks m' rid) = length (req_blocks m rid) \<and>
    (\<forall>i < length (req_blocks m rid). req_blocks m' rid ! i = req_blocks m rid ! i \<or>
       (first \<le> i \<and> i < lst \<and> req_blocks m' rid ! i = 0))"
proof (cases "map_of (req_to_blocks m) rid = None \<or> first \<ge> lst")
  case True
  then show ?thesis using P A by (auto simp: remove_blocks_in_range_def)
next
  case False
  note W = accounted_wf [OF A] and null = accounted_null [OF A]
  let ?bs = "req_blocks m rid" and ?k = "min lst (length (req_blocks m rid))"
  obtain bs' freed where nr: "null_range 0 first ?k ?bs [] = (bs', freed)" by (metis surj_pair)
  from null_range_spec [OF _ nr] obtain j where j: "j \<le> ?k" "bs' = take j ?bs @ replicate (?k - j) 0 @ drop ?k ?bs"
    "freed = rev (drop j (take ?k ?bs))" "j < ?k \<longrightarrow> first \<le> j" by auto
  have split: "?bs = take j ?bs @ drop j (take ?k ?bs) @ drop ?k ?bs"
    using j(1) by (metis append.assoc append_take_drop_id min.absorb1 take_take)
  have cnt: "count_list bs' b + count_list freed b = count_list ?bs b" if "b \<noteq> 0" for b
  proof -
    have "count_list ?bs b = count_list (take j ?bs) b + count_list (drop j (take ?k ?bs)) b + count_list (drop ?k ?bs) b"
      by (subst split) simp
    then show ?thesis using that by (simp add: j(2,3) count_list_rev count_list_0_iff)
  qed
  have fr: "count_list freed b \<le> count_list ?bs b" for b by (subst split) (simp add: j(3) count_list_rev)
  have "set bs' \<subseteq> insert 0 (set ?bs)" unfolding j(2) by (auto dest: in_set_takeD in_set_dropD)
  moreover have "0 < length (blocks p)" using P refs_okD(11) [of p free "{}"] unfolding pool_inv_def by blast
  ultimately have W': "mgr_wf (length (blocks p)) (set_blocks rid bs' m)"
    by (intro wf_set_blocks [OF W]) (use req_blocks_bound [OF W] assms(3) in auto)
  have h: "held (set_blocks rid bs' m) b + count_list freed b = held m b" if "b \<noteq> 0" for b
    using held_set_blocks [OF W, of rid bs' b] cnt [OF that] count_req_le [OF W, of rid b] by linarith
  have shape: "length bs' = length ?bs"
    "\<forall>i < length ?bs. bs' ! i = ?bs ! i \<or> (first \<le> i \<and> i < lst \<and> bs' ! i = 0)"
  proof -
    show "length bs' = length ?bs" using j(1) by (simp add: j(2))
    show "\<forall>i < length ?bs. bs' ! i = ?bs ! i \<or> (first \<le> i \<and> i < lst \<and> bs' ! i = 0)"
      using j(1,4) by (auto simp: j(2) nth_append)
  qed
  have "\<exists>p'. (if freed = [] then Inr p else free_own_blocks freed p) = Inr p' \<and> accounted ext (set_blocks rid bs' m) p' \<and>
      (\<exists>free'. pool_inv p' free') \<and> same_config p p'"
  proof (cases "freed = []")
    case True
    then have "held (set_blocks rid bs' m) b = held m b" if "b \<noteq> 0" for b using h [OF that] by simp
    then show ?thesis using True accounted_step [OF A same_config_refl W'] P by auto
  next
    case False
    from release_accounted [OF P A W' h] fr count_req_le [OF W] show ?thesis using False le_trans by (simp, blast)
  qed
  then obtain p' where p': "(if freed = [] then Inr p else free_own_blocks freed p) = Inr p'"
    "accounted ext (set_blocks rid bs' m) p'" "\<exists>free'. pool_inv p' free'" "same_config p p'" by blast
  have "remove_blocks_in_range rid first lst m p = Inr (set_blocks rid bs' m, p')"
    using False nr null p'(1) by (auto simp: remove_blocks_in_range_def split: if_splits)
  then show ?thesis using p' shape by (intro exI [of _ "set_blocks rid bs' m"] exI [of _ p']) simp
qed

end
