(* ===== verification/PrefixCaching.thy ===== *)
theory PrefixCaching
  imports SingleTypeManager
begin

text \<open>
  Prefix caching in the single-type managers
  (\<^verbatim>\<open>src/vllm/v1/core/single_type_kv_cache_manager.py\<close>): which full blocks of a request are
  registered under their hashes, and the search for the longest cached prefix for full, sliding
  window and chunked local attention. The lemmas show that every block a search returns is cached
  under the hash of the right prefix, that the hit has an admissible length, and that the blocks the
  sparse mask of a sliding window keeps are those a later hit needs.
\<close>

section \<open>Which blocks a sliding window keeps\<close>

text \<open>A window has at least one token.\<close>

definition contiguous_blocks_for_hit :: "nat \<Rightarrow> nat \<Rightarrow> bool \<Rightarrow> nat" where
  "contiguous_blocks_for_hit window block_size use_eagle =
     (let blocks = cdivn (window - 1) block_size in if use_eagle then blocks + 1 else blocks)"

text \<open>\<^verbatim>\<open>for i in range(lo, hi): mask[i - start] = True\<close>, on a mask for the blocks from \<open>start\<close> on.\<close>

definition mark_range :: "nat \<Rightarrow> nat \<Rightarrow> nat \<Rightarrow> bool list \<Rightarrow> bool list" where
  "mark_range start lo hi msk = map (\<lambda>(i, b). b \<or> lo \<le> i \<and> i < hi) (enumerate start msk)"

definition mark_segments :: "nat \<Rightarrow> nat \<Rightarrow> nat \<Rightarrow> nat \<Rightarrow> bool list \<Rightarrow> bool list" where
  "mark_segments start shift per_segment need msk =
     map (\<lambda>(i, b). b \<or> i \<ge> shift \<and> (i - shift) mod per_segment \<ge> per_segment - need) (enumerate start msk)"

definition mark_final_segment :: "nat \<Rightarrow> nat \<Rightarrow> bool \<Rightarrow> nat \<Rightarrow> nat \<Rightarrow> nat option \<Rightarrow> bool list \<Rightarrow> bool list" where
  "mark_final_segment start end_block use_eagle per_segment need final_end msk =
     (case final_end of
        None \<Rightarrow> msk
      | Some fe \<Rightarrow>
          if use_eagle then msk
          else let size = fe mod per_segment
               in if size = 0 then msk
                  else mark_range start (max start (max (fe - size) (fe - need))) (min end_block fe) msk)"

definition mark_boundary :: "nat \<Rightarrow> nat \<Rightarrow> nat \<Rightarrow> nat \<Rightarrow> nat \<Rightarrow> nat \<Rightarrow> nat \<Rightarrow> bool list \<Rightarrow> bool list" where
  "mark_boundary start end_block alignment block_size shift need boundary msk =
     (let e = boundary div alignment * alignment div block_size + shift
      in mark_range start (max start (e - need)) (min end_block e) msk)"

definition swa_reachable_block_mask :: "nat \<Rightarrow> nat \<Rightarrow> nat option \<Rightarrow> nat \<Rightarrow> nat \<Rightarrow> bool \<Rightarrow> nat option \<Rightarrow> nat list \<Rightarrow>
    nat option \<Rightarrow> bool list option" where
  "swa_reachable_block_mask start end_block alignment_tokens window block_size use_eagle retention boundaries final_end =
     (case alignment_tokens of
        None \<Rightarrow> None
      | Some alignment \<Rightarrow>
          if alignment mod block_size \<noteq> 0 then None
          else let need = contiguous_blocks_for_hit window block_size use_eagle;
                   shift = (if use_eagle then 1 else 0);
                   msk = replicate (end_block - start) False;
                   segment = (case retention of None \<Rightarrow> Some alignment
                     | Some n \<Rightarrow> if n = 0 then None else Some n)
               in case segment of
                    Some st \<Rightarrow>
                      let per_segment = st div block_size
                      in if need \<ge> per_segment then None
                         else let msk1 = mark_final_segment start end_block use_eagle per_segment need final_end
                                (mark_segments start shift per_segment need msk)
                              in Some (if retention = None then msk1
                                   else fold (mark_boundary start end_block alignment block_size shift need) boundaries msk1)
                  | None \<Rightarrow> Some (fold (mark_boundary start end_block alignment block_size shift need) boundaries msk))"

definition reachable_block_mask :: "kv_manager \<Rightarrow> nat \<Rightarrow> nat \<Rightarrow> nat option \<Rightarrow> nat list \<Rightarrow> bool list option" where
  "reachable_block_mask m start end_block retention boundaries =
     (case mgr_kind m of
        SlidingWindow w e \<Rightarrow> swa_reachable_block_mask start end_block (Some (cache_hit_alignment_tokens m)) w
          (mgr_block_size m) (mgr_use_eagle m) retention boundaries None
      | _ \<Rightarrow> None)"

section \<open>Registering the blocks of a request\<close>

definition base_cache_blocks :: "hash_env \<Rightarrow> request \<Rightarrow> nat \<Rightarrow> nat option \<Rightarrow> nat list \<Rightarrow> kv_manager \<Rightarrow> block_pool \<Rightarrow>
    (request \<times> kv_manager \<times> block_pool) res" where
  "base_cache_blocks env r ntoks retention replay_boundaries m p =
     (if \<not> prefix_cacheable m then Inr (r, m, p)
      else let rid = request_id r;
               num_cached = (case num_cached_block m rid of None \<Rightarrow> 0 | Some n \<Rightarrow> n);
               num_full = ntoks div mgr_block_size m
           in if num_cached \<ge> num_full then Inr (r, m, p)
              else let boundaries = replay_boundaries @
                         (if shared_prefix_boundary r \<noteq> 0 then [shared_prefix_boundary r] else []);
                       msk = reachable_block_mask m num_cached num_full retention boundaries;
                       m1 = open_req rid m
                   in bind_res (cache_full_blocks env r (req_blocks m1 rid) num_cached num_full (mgr_block_size m)
                                 (mgr_group_id m) msk p)
                        (\<lambda>(r', p'). Inr (r', m1\<lparr>num_cached_block := (num_cached_block m1)(rid \<mapsto> num_full)\<rparr>, p')))"

text \<open>The tail of the prompt that ends inside a block, for full attention.\<close>

definition cache_partial_tail_block :: "hash_env \<Rightarrow> request \<Rightarrow> nat \<Rightarrow> kv_manager \<Rightarrow> block_pool \<Rightarrow>
    (request \<times> kv_manager \<times> block_pool) res" where
  "cache_partial_tail_block env r ntoks m p =
     (let limit = (if mgr_use_eagle m then num_prompt_tokens r else num_prompt_tokens r - 1);
          boundary = limit div hash_block_size p * hash_block_size p
      in if boundary = 0 \<or> boundary > ntoks \<or> boundary mod mgr_block_size m = 0 then Inr (r, m, p)
         else let m1 = open_req (request_id r) m;
                  bs = req_blocks m1 (request_id r);
                  idx = boundary div mgr_block_size m
              in if idx \<ge> length bs then Inr (r, m1, p)
                 else bind_res (cache_partial_block env r (bs ! idx) boundary (mgr_group_id m) (mgr_block_size m) False p)
                        (\<lambda>(_, r', p'). Inr (r', m1, p')))"

definition mgr_cache_blocks :: "hash_env \<Rightarrow> request \<Rightarrow> nat \<Rightarrow> nat option \<Rightarrow> nat list \<Rightarrow> kv_manager \<Rightarrow> block_pool \<Rightarrow>
    (request \<times> kv_manager \<times> block_pool) res" where
  "mgr_cache_blocks env r ntoks retention replay_boundaries m p =
     (case mgr_kind m of
        CircularBuffer \<Rightarrow> Inr (r, m, p)
      | CrossAttention \<Rightarrow> Inl ValueError
      | SlidingWindow w e \<Rightarrow> base_cache_blocks env r ntoks retention replay_boundaries m p
      | ChunkedLocal c \<Rightarrow> base_cache_blocks env r ntoks retention replay_boundaries m p
      | _ \<Rightarrow> bind_res (base_cache_blocks env r ntoks retention replay_boundaries m p) (\<lambda>(r1, m1, p1).
               if mgr_block_size m1 = hash_block_size p1 then Inr (r1, m1, p1)
               else cache_partial_tail_block env r1 ntoks m1 p1))"

section \<open>The longest cached prefix\<close>

text \<open>\<^verbatim>\<open>computed_blocks\<close> is one list per group; \<^verbatim>\<open>if not cached_block\<close> also holds for an empty list.\<close>

definition lookup :: "block_pool \<Rightarrow> nat list \<Rightarrow> bytes \<Rightarrow> nat list option res" where
  "lookup p gids h = bind_res (get_cached_block p h gids) (\<lambda>c. Inr (case c of Some (b # bs) \<Rightarrow> Some (b # bs) | _ \<Rightarrow> None))"

definition append_each :: "nat list list \<Rightarrow> nat list \<Rightarrow> nat list list" where
  "append_each computed cached = map (\<lambda>(c, b). c @ [b]) (zip computed cached)"

definition num_computed :: "nat list list \<Rightarrow> nat res" where
  "num_computed computed = bind_res (py_nth computed 0) (\<lambda>c. Inr (length c))"

fun full_blocks_loop :: "block_pool \<Rightarrow> nat list \<Rightarrow> block_hash_list \<Rightarrow> nat list \<Rightarrow> nat list list \<Rightarrow> nat list list res" where
  "full_blocks_loop p gids hl [] computed = Inr computed"
| "full_blocks_loop p gids hl (i # is) computed =
     bind_res (hashes_get hl i) (\<lambda>h. bind_res (lookup p gids h) (\<lambda>c.
       case c of None \<Rightarrow> Inr computed | Some bs \<Rightarrow> full_blocks_loop p gids hl is (append_each computed bs)))"

text \<open>The probe of the interior boundaries, from high to low; \<open>None\<close> when none is cached.\<close>

fun partial_probe :: "block_pool \<Rightarrow> nat list \<Rightarrow> block_hash_list \<Rightarrow> nat list \<Rightarrow> (nat \<times> nat list) option res" where
  "partial_probe p gids hl [] = Inr None"
| "partial_probe p gids hl (i # is) =
     bind_res (hashes_get hl i) (\<lambda>h. bind_res (lookup p gids h) (\<lambda>c.
       case c of Some bs \<Rightarrow> Inr (Some (i, bs)) | None \<Rightarrow> partial_probe p gids hl is))"

definition partial_phase :: "block_pool \<Rightarrow> nat list \<Rightarrow> block_hash_list \<Rightarrow> nat \<Rightarrow> nat \<Rightarrow> nat \<Rightarrow> nat \<Rightarrow> nat list list \<Rightarrow>
    (nat list list \<times> nat) res" where
  "partial_phase p gids hl block_size alignment max_length n computed =
     (let scale = block_size div alignment; first = n * scale;
          last_idx = min (first + scale - 1) (min (max_length div alignment) (hashes_len hl))
      in bind_res (partial_probe p gids hl (rev [first..<last_idx])) (\<lambda>tail.
           Inr (case tail of
                  None \<Rightarrow> (computed, n * block_size)
                | Some (i, bs) \<Rightarrow> (append_each computed bs, (i + 1) * alignment))))"

definition trim_hit :: "bool \<Rightarrow> nat \<Rightarrow> nat \<Rightarrow> nat list list \<times> nat \<Rightarrow> nat list list \<times> nat" where
  "trim_hit drop_eagle_block block_size alignment s =
     (let len1 = (if drop_eagle_block \<and> snd s > 0 then snd s - min alignment block_size else snd s);
          len2 = len1 - len1 mod alignment
      in (map (take (cdivn len2 block_size)) (fst s), len2))"

definition full_find_longest_cache_hit :: "block_hash_list \<Rightarrow> nat \<Rightarrow> nat list \<Rightarrow> block_pool \<Rightarrow> nat \<Rightarrow> bool \<Rightarrow> nat \<Rightarrow>
    (nat list list \<times> nat) res" where
  "full_find_longest_cache_hit hashes max_length gids p block_size drop_eagle_block alignment =
     bind_res (resolve_block_hashes hashes (hash_block_size p) block_size True (Some alignment)) (\<lambda>hl.
       let fine = (alignment < block_size \<and> block_size mod alignment = 0)
       in bind_res
            (if fine then (case hl of
                 RawHashes hs \<Rightarrow> bind_res (BlockHashListWithBlockSize hs alignment block_size) (\<lambda>v. Inr (ViewHashes v))
               | ViewHashes v \<Rightarrow> Inl AssertionError)
             else Inr hl)
            (\<lambda>full_hl.
              bind_res (full_blocks_loop p gids full_hl [0..<min (max_length div block_size) (hashes_len full_hl)]
                          (replicate (length gids) [])) (\<lambda>computed.
                bind_res (num_computed computed) (\<lambda>n.
                  bind_res (if fine then partial_phase p gids hl block_size alignment max_length n computed
                            else Inr (computed, n * block_size))
                    (\<lambda>s. Inr (trim_hit drop_eagle_block block_size alignment s))))))"

text \<open>Sliding window: from right to left until enough contiguous blocks are cached. The loop works on
  the indices below \<open>i\<close>; the result says whether a match was found.\<close>

fun swa_loop :: "block_pool \<Rightarrow> nat list \<Rightarrow> block_hash_list \<Rightarrow> nat \<Rightarrow> nat \<Rightarrow> bool \<Rightarrow> nat \<Rightarrow> nat \<Rightarrow> nat \<Rightarrow> nat list list \<Rightarrow>
    (bool \<times> nat \<times> nat list list) res" where
  "swa_loop p gids hl block_size alignment drop_eagle_block need 0 cnt computed = Inr (False, cnt, computed)"
| "swa_loop p gids hl block_size alignment drop_eagle_block need (Suc i) cnt computed =
     bind_res (hashes_get hl i) (\<lambda>h. bind_res (lookup p gids h) (\<lambda>c.
       case c of
         None \<Rightarrow> swa_loop p gids hl block_size alignment drop_eagle_block need i 0 computed
       | Some bs \<Rightarrow>
           if cnt = 0 \<and> block_size \<noteq> alignment \<and> (if drop_eagle_block then i else i + 1) * block_size mod alignment \<noteq> 0
           then swa_loop p gids hl block_size alignment drop_eagle_block need i cnt computed
           else let computed1 = map (\<lambda>(xs, b). xs[i := b]) (zip computed bs)
                in if cnt + 1 \<ge> need then Inr (True, cnt + 1, map (take (i + (cnt + 1))) computed1)
                   else swa_loop p gids hl block_size alignment drop_eagle_block need i (cnt + 1) computed1))"

definition first_len :: "nat list list \<Rightarrow> nat" where
  "first_len computed = (case computed of [] \<Rightarrow> 0 | c # _ \<Rightarrow> length c)"

function pop_to_alignment :: "nat \<Rightarrow> nat \<Rightarrow> nat list list \<Rightarrow> nat list list" where
  "pop_to_alignment block_size alignment computed =
     (if block_size \<noteq> alignment \<and> first_len computed * block_size mod alignment \<noteq> 0
      then pop_to_alignment block_size alignment (map butlast computed) else computed)"
  by pat_completeness auto
termination
proof (relation "measure (\<lambda>(b, a, c). first_len c)", goal_cases)
  case (2 block_size alignment computed)
  then have "first_len computed \<noteq> 0" by (metis mod_0 mult_0)
  then show ?case by (cases computed) (auto simp: first_len_def)
qed simp

declare pop_to_alignment.simps [simp del]

definition swa_find_longest_cache_hit :: "block_hash_list \<Rightarrow> nat \<Rightarrow> nat list \<Rightarrow> block_pool \<Rightarrow> nat \<Rightarrow> nat \<Rightarrow> bool \<Rightarrow> nat \<Rightarrow>
    (nat list list \<times> nat) res" where
  "swa_find_longest_cache_hit hashes max_length gids p window block_size drop_eagle_block alignment =
     bind_res (resolve_block_hashes hashes (hash_block_size p) block_size False (Some alignment)) (\<lambda>hl.
       let need = contiguous_blocks_for_hit window block_size drop_eagle_block;
           n = max_length div block_size
       in bind_res (swa_loop p gids hl block_size alignment drop_eagle_block need n 0
                      (replicate (length gids) (replicate n (null_block p))))
            (\<lambda>(match_found, cnt, computed).
              let computed1 = (if match_found then computed
                    else pop_to_alignment block_size alignment (map (take cnt) computed))
              in bind_res (num_computed computed1) (\<lambda>k.
                   let computed2 = (if drop_eagle_block \<and> k > 0
                         then pop_to_alignment block_size alignment (map butlast computed1) else computed1)
                   in Inr (computed2, first_len computed2 * block_size))))"

definition chunked_find_longest_cache_hit :: "block_hash_list \<Rightarrow> nat \<Rightarrow> nat list \<Rightarrow> block_pool \<Rightarrow> nat \<Rightarrow> nat \<Rightarrow> bool \<Rightarrow> nat \<Rightarrow>
    (nat list list \<times> nat) res" where
  "chunked_find_longest_cache_hit hashes max_length gids p chunk block_size drop_eagle_block alignment =
     py_assert (\<not> drop_eagle_block) (py_assert (block_size = alignment)
       (bind_res (resolve_block_hashes hashes (hash_block_size p) block_size False (Some alignment)) (\<lambda>hl.
         let start_idx = (if max_length > 0 then max_length div chunk * chunk else 0);
             start_block = start_idx div block_size
         in bind_res (full_blocks_loop p gids hl [start_block..<max_length div block_size]
                        (replicate (length gids) (replicate start_block (null_block p)))) (\<lambda>computed.
              bind_res (num_computed computed) (\<lambda>k. Inr (computed, k * block_size))))))"

section \<open>Columns of blocks\<close>

lemma below_div: "i < n div h \<Longrightarrow> (i + 1) * h \<le> (n :: nat)"
  by (metis Suc_eq_plus1 Suc_leI div_times_less_eq_dividend le_trans mult_le_mono1)

lemma cdivn_eqI: "0 < b \<Longrightarrow> n * b < a \<Longrightarrow> a \<le> (n + 1) * b \<Longrightarrow> cdivn a b = Suc n"
  using cdivn_le_iff [of b a n] cdivn_le_iff [of b a "n + 1"] by simp

text \<open>One list per group, all of length \<open>n\<close>, whose \<open>i\<close>-th block satisfies \<open>Q i\<close> for its group.\<close>

definition columns :: "(nat \<Rightarrow> nat \<Rightarrow> nat \<Rightarrow> bool) \<Rightarrow> nat list \<Rightarrow> nat \<Rightarrow> nat list list \<Rightarrow> bool" where
  "columns Q gids n computed \<longleftrightarrow> list_all2 (\<lambda>g c. length c = n \<and> (\<forall>i < n. Q i g (c ! i))) gids computed"

lemma columns_len: "columns Q gids n computed \<Longrightarrow> length computed = length gids"
  by (simp add: columns_def list_all2_lengthD)

lemma columns_first: "columns Q gids n computed \<Longrightarrow> gids \<noteq> [] \<Longrightarrow> first_len computed = n \<and> num_computed computed = Inr n"
  unfolding columns_def first_len_def num_computed_def py_nth_def by (cases gids; cases computed) auto

lemma columns_replicate: "(\<And>i g. i < n \<Longrightarrow> Q i g b) \<Longrightarrow> columns Q gids n (replicate (length gids) (replicate n b))"
  by (simp add: columns_def list_all2_conv_all_nth)

lemma columns_append_each:
  assumes "columns Q gids n computed" and "list_all2 (Q n) gids bs"
  shows "columns Q gids (Suc n) (append_each computed bs)"
  using assms unfolding columns_def append_each_def
  by (auto simp: list_all2_conv_all_nth nth_append less_Suc_eq)

lemma columns_take:
  assumes "columns Q gids n computed" and "k \<le> n"
  shows "columns Q gids k (map (take k) computed)"
  using assms unfolding columns_def by (auto simp: list_all2_conv_all_nth)

lemma columns_mono:
  assumes "columns Q gids n computed" and "\<And>i g b. i < n \<Longrightarrow> g \<in> set gids \<Longrightarrow> Q i g b \<Longrightarrow> R i g b"
  shows "columns R gids n computed"
  using assms unfolding columns_def list_all2_conv_all_nth by (metis nth_mem)

lemma columns_butlast: "columns Q gids n computed \<Longrightarrow> map butlast computed = map (take (n - 1)) computed"
  unfolding columns_def list_all2_conv_all_nth
  by (rule nth_equalityI) (auto simp: butlast_conv_take)

definition cached_at :: "block_pool \<Rightarrow> (nat \<Rightarrow> bytes) \<Rightarrow> nat \<Rightarrow> nat \<Rightarrow> nat \<Rightarrow> bool" where
  "cached_at p val i g b \<longleftrightarrow> cached_under p (val i) g b"

definition misses :: "block_pool \<Rightarrow> nat list \<Rightarrow> bytes \<Rightarrow> bool" where
  "misses p gids h \<longleftrightarrow> (\<exists>g \<in> set gids. \<forall>b. \<not> cached_under p h g b)"

definition groups_ok :: "block_pool \<Rightarrow> nat list \<Rightarrow> bool" where
  "groups_ok p gids \<longleftrightarrow> index_ok p \<and> gids \<noteq> [] \<and> (\<forall>g \<in> set gids. g < 2 ^ 32)"

lemma lookup_spec:
  assumes "groups_ok p gids"
  obtains (miss) "lookup p gids h = Inr None" and "misses p gids h"
  | (hit) bs where "lookup p gids h = Inr (Some bs)" and "list_all2 (cached_under p h) gids bs" and "\<not> misses p gids h"
proof -
  from get_cached_block_spec [of p gids h] assms obtain x where
    x: "get_cached_block p h gids = Inr x" "x = None \<longleftrightarrow> misses p gids h"
    "\<forall>bs. x = Some bs \<longrightarrow> list_all2 (cached_under p h) gids bs"
    by (auto simp: groups_ok_def misses_def)
  show thesis
  proof (cases x)
    case None
    then show ?thesis using miss x by (simp add: lookup_def)
  next
    case (Some bs)
    then have "list_all2 (cached_under p h) gids bs" using x(3) by blast
    moreover then have "bs \<noteq> []" using assms by (auto simp: groups_ok_def)
    ultimately show ?thesis using hit Some x by (cases bs) (simp_all add: lookup_def)
  qed
qed

section \<open>Full attention\<close>

lemma full_blocks_loop_spec:
  assumes G: "groups_ok p gids" and "columns Q gids n computed" and "n \<le> N"
    and val: "\<And>i. n \<le> i \<Longrightarrow> i < N \<Longrightarrow> hashes_get hl i = Inr (val i)"
    and Q: "\<And>i g b. n \<le> i \<Longrightarrow> cached_under p (val i) g b \<Longrightarrow> Q i g b"
  shows "\<exists>k computed'. full_blocks_loop p gids hl [n..<N] computed = Inr computed' \<and> n \<le> k \<and> k \<le> N \<and>
    columns Q gids k computed' \<and> (k < N \<longrightarrow> misses p gids (val k)) \<and> (\<forall>i. n \<le> i \<and> i < k \<longrightarrow> \<not> misses p gids (val i))"
  using assms(2-)
proof (induction "N - n" arbitrary: n computed)
  case 0
  then show ?case by auto
next
  case (Suc d)
  then have n: "n < N" by simp
  have v: "hashes_get hl n = Inr (val n)" using Suc.prems(3) n by simp
  show ?case
  proof (cases rule: lookup_spec [OF G, of "val n", case_names miss hit])
    case miss
    then have "full_blocks_loop p gids hl [n..<N] computed = Inr computed" using n v by (simp add: upt_conv_Cons)
    then show ?thesis using Suc.prems(1) n miss by (intro exI [of _ n] exI [of _ computed]) auto
  next
    case (hit bs)
    have "list_all2 (Q n) gids bs" using hit(2) Suc.prems(4) by (auto elim: list_all2_mono)
    then have c: "columns Q gids (Suc n) (append_each computed bs)" by (rule columns_append_each [OF Suc.prems(1)])
    have "d = N - Suc n" using Suc.hyps(2) by simp
    from Suc.hyps(1) [OF this c] Suc.prems(3,4) n obtain k computed' where
      k: "full_blocks_loop p gids hl [Suc n..<N] (append_each computed bs) = Inr computed'" "Suc n \<le> k" "k \<le> N"
      "columns Q gids k computed'" "k < N \<longrightarrow> misses p gids (val k)" "\<forall>i. Suc n \<le> i \<and> i < k \<longrightarrow> \<not> misses p gids (val i)"
      by auto
    have "full_blocks_loop p gids hl [n..<N] computed = Inr computed'" using n v hit(1) k(1) by (simp add: upt_conv_Cons)
    moreover have "\<forall>i. n \<le> i \<and> i < k \<longrightarrow> \<not> misses p gids (val i)" using k(6) hit(3) by (metis Suc_leI le_neq_implies_less)
    ultimately show ?thesis using k by (intro exI [of _ k] exI [of _ computed']) simp
  qed
qed

lemma partial_probe_spec:
  assumes G: "groups_ok p gids" and val: "\<And>i. i \<in> set is \<Longrightarrow> hashes_get hl i = Inr (val i)"
  shows "\<exists>x. partial_probe p gids hl is = Inr x \<and>
    (case x of None \<Rightarrow> \<forall>i \<in> set is. misses p gids (val i)
     | Some (i, bs) \<Rightarrow> i \<in> set is \<and> list_all2 (cached_under p (val i)) gids bs)"
  using val
proof (induction "is")
  case (Cons i "is")
  then have v: "hashes_get hl i = Inr (val i)" by simp
  show ?case
  proof (cases rule: lookup_spec [OF G, of "val i", case_names miss hit])
    case miss
    from Cons obtain x where x: "partial_probe p gids hl is = Inr x"
      "case x of None \<Rightarrow> \<forall>i \<in> set is. misses p gids (val i) | Some (i, bs) \<Rightarrow> i \<in> set is \<and> list_all2 (cached_under p (val i)) gids bs"
      by auto
    then show ?thesis using v miss by (intro exI [of _ x]) (auto split: option.splits)
  next
    case (hit bs)
    then show ?thesis using v by (intro exI [of _ "Some (i, bs)"]) simp
  qed
qed simp

text \<open>A block that serves the tokens up to \<open>e\<close> of block \<open>i\<close>: cached under the hash of a prefix of the
  request that ends inside the block and not before \<open>e\<close>.\<close>

definition serves :: "hash_env \<Rightarrow> block_pool \<Rightarrow> request \<Rightarrow> nat \<Rightarrow> nat \<Rightarrow> nat \<Rightarrow> nat \<Rightarrow> nat \<Rightarrow> bool" where
  "serves env p r block_size e i g b \<longleftrightarrow> (\<exists>k. min e ((i + 1) * block_size) \<le> (k + 1) * hash_block_size p \<and>
     (k + 1) * hash_block_size p \<le> (i + 1) * block_size \<and> (k + 1) * hash_block_size p \<le> num_tokens r \<and>
     cached_under p (request_chain env (hash_block_size p) r k) g b)"

lemma serves_full:
  assumes "0 < sf" and "i < num_tokens r div (hash_block_size p * sf)"
    and "cached_under p (request_chain env (hash_block_size p) r ((i + 1) * sf - 1)) g b"
  shows "serves env p r (hash_block_size p * sf) e i g b"
proof -
  have "(i + 1) * sf - 1 + 1 = (i + 1) * sf" using assms(1) by simp
  then have e: "((i + 1) * sf - 1 + 1) * hash_block_size p = (i + 1) * (hash_block_size p * sf)"
    by (metis mult.assoc mult.commute)
  have "(i + 1) * (hash_block_size p * sf) \<le> num_tokens r"
    using assms(2) by (rule below_div)
  then show ?thesis unfolding serves_def using assms(3) by (intro exI [of _ "(i + 1) * sf - 1"]) (simp only: e, simp)
qed

lemma serves_less: "serves env p r bs e i g b \<Longrightarrow> e' \<le> e \<Longrightarrow> serves env p r bs e' i g b"
  unfolding serves_def by (meson le_trans min.mono order_refl)

text \<open>Trimming keeps a served prefix: \<open>n\<close> blocks reach \<open>len\<close> tokens, in units of \<open>u\<close>.\<close>

lemma trim_hit_spec:
  assumes "columns (serves env p r bs len) gids (cdivn len bs) computed" and "0 < bs" and "0 < alignment"
    and "trim_hit drop_e bs alignment (computed, len) = (computed', len')"
  shows "len' \<le> len" and "alignment dvd len'" and "columns (serves env p r bs len') gids (cdivn len' bs) computed'"
    and "\<not> drop_e \<Longrightarrow> alignment dvd len \<Longrightarrow> len' = len"
    and "drop_e \<Longrightarrow> len' + min alignment bs \<le> len \<or> len' = 0"
proof -
  define l1 where "l1 = (if drop_e \<and> len > 0 then len - min alignment bs else len)"
  have l': "len' = l1 - l1 mod alignment" and c: "computed' = map (take (cdivn len' bs)) computed"
    using assms(4) by (auto simp: trim_hit_def Let_def l1_def)
  show le: "len' \<le> len" unfolding l' l1_def by (auto intro: le_trans diff_le_self)
  show "alignment dvd len'" unfolding l' by (rule dvd_minus_mod)
  have "columns (serves env p r bs len) gids (cdivn len' bs) computed'"
    unfolding c by (rule columns_take [OF assms(1) cdivn_mono [OF assms(2) le]])
  then show "columns (serves env p r bs len') gids (cdivn len' bs) computed'"
    by (rule columns_mono) (use serves_less [OF _ le] in blast)
  show "len' = len" if "\<not> drop_e" "alignment dvd len" using that by (simp add: l' l1_def dvd_imp_mod_0)
  show "len' + min alignment bs \<le> len \<or> len' = 0" if "drop_e"
  proof -
    have "len' \<le> l1" by (simp add: l')
    then show ?thesis using that unfolding l1_def by (cases "0 < len") auto
  qed
qed

lemma resolve_dense:
  "\<not> (a < b \<and> b mod a = 0) \<Longrightarrow> resolve_block_hashes hl h b True (Some a) = resolve_block_hashes hl h b False (Some a)"
  by (auto simp: resolve_block_hashes_def split: block_hash_list.split)

lemma full_hit_dense:
  assumes G: "groups_ok p gids" and cur: "hashes_current env (hash_block_size p) r"
    and pos: "0 < hash_block_size p" "0 < sf" "0 < alignment"
    and al: "\<not> (alignment < bs \<and> bs mod alignment = 0)" and bs: "bs = hash_block_size p * sf"
  shows "\<exists>computed k len computed'. trim_hit drop_e bs alignment (computed, k * bs) = (computed', len) \<and>
    full_find_longest_cache_hit (RawHashes (block_hashes r)) max_length gids p bs drop_e alignment = Inr (computed', len) \<and>
    columns (serves env p r bs (k * bs)) gids k computed \<and> k \<le> max_length div bs \<and> k \<le> num_tokens r div bs \<and>
    (k < max_length div bs \<and> k < num_tokens r div bs \<longrightarrow>
       misses p gids (request_chain env (hash_block_size p) r ((k + 1) * sf - 1)))"
proof -
  let ?h = "hash_block_size p"
  let ?val = "\<lambda>i. request_chain env ?h r ((i + 1) * sf - 1)" and ?N = "min (max_length div bs) (num_tokens r div bs)"
  from resolve_values [OF pos(1,2) cur, of "Some alignment"] obtain hl where
    hl: "resolve_block_hashes (RawHashes (block_hashes r)) ?h bs True (Some alignment) = Inr hl"
    "hashes_len hl = num_tokens r div bs" "\<And>i. i < num_tokens r div bs \<Longrightarrow> hashes_get hl i = Inr (?val i)"
    unfolding bs [symmetric] using resolve_dense [OF al] by metis
  let ?Q = "\<lambda>i g b. i < num_tokens r div bs \<longrightarrow> cached_under p (?val i) g b"
  have c0: "columns ?Q gids 0 (replicate (length gids) [])" by (simp add: columns_def list_all2_conv_all_nth)
  from full_blocks_loop_spec [OF G c0, of ?N hl ?val] hl(3) obtain k computed where
    k: "full_blocks_loop p gids hl [0..<?N] (replicate (length gids) []) = Inr computed" "k \<le> ?N"
    "columns ?Q gids k computed" "k < ?N \<longrightarrow> misses p gids (?val k)" by auto
  have n: "num_computed computed = Inr k" using columns_first [OF k(3)] G by (simp add: groups_ok_def)
  obtain computed' len where t: "trim_hit drop_e bs alignment (computed, k * bs) = (computed', len)" by (metis surj_pair)
  have run: "full_find_longest_cache_hit (RawHashes (block_hashes r)) max_length gids p bs drop_e alignment = Inr (computed', len)"
    unfolding full_find_longest_cache_hit_def Let_def using al hl(1,2) k(1) n t by auto
  have "columns (serves env p r bs (k * bs)) gids k computed"
    by (rule columns_mono [OF k(3)]) (use k(2) serves_full [OF pos(2)] in \<open>auto simp: bs\<close>)
  then show ?thesis using t run k(2,4) by (intro exI [of _ computed] exI [of _ k] exI [of _ len] exI [of _ computed']) auto
qed


text \<open>With the alignment equal to the hash block size, the blocks are larger than a hash and the tail
  of the hit may end inside a block.\<close>

lemma raw_values:
  assumes "hashes_current env h r" and "i < num_tokens r div h"
  shows "hashes_get (RawHashes (block_hashes r)) i = Inr (request_chain env h r i)"
  using assms by (simp add: hashes_current_def py_nth_def)

lemma partial_phase_spec:
  assumes G: "groups_ok p gids" and cur: "hashes_current env h r" and h: "h = hash_block_size p" "0 < h" and sf: "1 < sf"
    and bs: "bs = h * sf" and n: "columns (serves env p r bs (n * bs)) gids n computed"
    and le: "n \<le> max_length div bs" "n \<le> num_tokens r div bs"
  shows "\<exists>computed' len. partial_phase p gids (RawHashes (block_hashes r)) bs h max_length n computed = Inr (computed', len) \<and>
    n * bs \<le> len \<and> len \<le> max_length \<and> len \<le> num_tokens r \<and> h dvd len \<and>
    columns (serves env p r bs len) gids (cdivn len bs) computed'"
proof -
  have scale: "bs div h = sf" and bs0: "0 < bs" using bs h(2) sf by auto
  let ?hl = "RawHashes (block_hashes r)" and ?top = "min (n * sf + sf - 1) (min (max_length div h) (hashes_len (RawHashes (block_hashes r))))"
  have len: "hashes_len ?hl = num_tokens r div h" using cur by (simp add: hashes_current_def)
  from partial_probe_spec [OF G raw_values [OF cur], of "rev [n * sf..<?top]"] len obtain x where
    x: "partial_probe p gids ?hl (rev [n * sf..<?top]) = Inr x"
    "case x of None \<Rightarrow> True | Some (i, bs) \<Rightarrow> i \<in> set [n * sf..<?top] \<and> list_all2 (cached_under p (request_chain env h r i)) gids bs"
    by (fastforce split: option.splits)
  have run: "partial_phase p gids ?hl bs h max_length n computed = Inr (case x of None \<Rightarrow> (computed, n * bs)
      | Some (i, bs) \<Rightarrow> (append_each computed bs, (i + 1) * h))"
    unfolding partial_phase_def Let_def scale using x(1) by simp
  show ?thesis
  proof (cases x)
    case None
    have "n * bs \<le> max_length" "n * bs \<le> num_tokens r"
      using le bs0 by (simp_all add: less_eq_div_iff_mult_less_eq)
    then show ?thesis using run None n bs bs0 by (intro exI [of _ computed] exI [of _ "n * bs"]) (simp add: cdivn_mult)
  next
    case (Some ib)
    obtain i bl where ib: "ib = (i, bl)" by (metis surj_pair)
    have i: "n * sf \<le> i" "i < n * sf + sf - 1" "i < max_length div h" "i < num_tokens r div h"
      and hit: "list_all2 (cached_under p (request_chain env h r i)) gids bl" using x(2) Some ib len by auto
    have e: "(i + 1) * h \<le> max_length" "(i + 1) * h \<le> num_tokens r"
      using below_div i(3,4) by blast+
    have lo: "n * bs \<le> (i + 1) * h" and hi: "(i + 1) * h \<le> (n + 1) * bs" and lo': "n * bs < (i + 1) * h"
    proof -
      have "(n * sf) * h < (i + 1) * h" using i(1) h(2) by (intro mult_strict_right_mono) auto
      then show "n * bs < (i + 1) * h" by (simp add: bs mult.commute mult.left_commute)
      then show "n * bs \<le> (i + 1) * h" by simp
      have "(i + 1) * h \<le> ((n + 1) * sf) * h" using i(2) by (intro mult_right_mono) auto
      then show "(i + 1) * h \<le> (n + 1) * bs" by (simp add: bs mult.commute mult.left_commute)
    qed
    have cd: "cdivn ((i + 1) * h) bs = Suc n" using lo' hi bs0 by (intro cdivn_eqI) auto
    have old: "columns (serves env p r bs ((i + 1) * h)) gids n computed"
    proof (rule columns_mono [OF n])
      fix j g b assume "j < n" and s: "serves env p r bs (n * bs) j g b"
      then have "(j + 1) * bs \<le> n * bs" by (intro mult_le_mono1) simp
      then have "min (n * bs) ((j + 1) * bs) = (j + 1) * bs" "min ((i + 1) * h) ((j + 1) * bs) = (j + 1) * bs"
        using lo by simp_all
      then show "serves env p r bs ((i + 1) * h) j g b" using s by (simp add: serves_def)
    qed
    have "list_all2 (serves env p r bs ((i + 1) * h) n) gids bl"
      using hit by (rule list_all2_mono) (use e hi in \<open>auto simp: serves_def h(1) intro!: exI [of _ i]\<close>)
    from columns_append_each [OF old this] show ?thesis using run Some ib e lo cd
      by (intro exI [of _ "append_each computed bl"] exI [of _ "(i + 1) * h"]) simp
  qed
qed


lemma full_hit_fine:
  assumes G: "groups_ok p gids" and cur: "hashes_current env (hash_block_size p) r"
    and pos: "0 < hash_block_size p" "1 < sf" and bs: "bs = hash_block_size p * sf"
  shows "\<exists>computed len len0 computed'. trim_hit drop_e bs (hash_block_size p) (computed, len0) = (computed', len) \<and>
    full_find_longest_cache_hit (RawHashes (block_hashes r)) max_length gids p bs drop_e (hash_block_size p) = Inr (computed', len) \<and>
    columns (serves env p r bs len0) gids (cdivn len0 bs) computed \<and> len0 \<le> max_length \<and> len0 \<le> num_tokens r"
proof -
  let ?h = "hash_block_size p"
  let ?val = "\<lambda>i. request_chain env ?h r ((i + 1) * sf - 1)" and ?N = "min (max_length div bs) (num_tokens r div bs)"
  let ?v = "\<lparr>view_hashes = block_hashes r, scale_factor = sf\<rparr>"
  have fine: "?h < bs" "bs mod ?h = 0" "bs div ?h = sf" "bs \<noteq> ?h" using bs pos by auto
  have res: "resolve_block_hashes (RawHashes (block_hashes r)) ?h bs True (Some ?h) = Inr (RawHashes (block_hashes r))"
    using fine by (simp add: resolve_block_hashes_def)
  have view: "BlockHashListWithBlockSize (block_hashes r) ?h bs = Inr ?v"
    using fine by (simp add: BlockHashListWithBlockSize_def)
  have len: "hashes_len (ViewHashes ?v) = num_tokens r div bs" and
    get: "\<And>i. i < num_tokens r div bs \<Longrightarrow> hashes_get (ViewHashes ?v) i = Inr (?val i)"
    using view_values(1,2) [OF _ cur, of sf] pos(2) unfolding bs by auto
  let ?Q = "\<lambda>i g b. i < num_tokens r div bs \<longrightarrow> cached_under p (?val i) g b"
  have c0: "columns ?Q gids 0 (replicate (length gids) [])" by (simp add: columns_def list_all2_conv_all_nth)
  from full_blocks_loop_spec [OF G c0, of ?N "ViewHashes ?v" ?val] get obtain k computed where
    k: "full_blocks_loop p gids (ViewHashes ?v) [0..<?N] (replicate (length gids) []) = Inr computed" "k \<le> ?N"
    "columns ?Q gids k computed" by auto
  have n: "num_computed computed = Inr k" using columns_first [OF k(3)] G by (simp add: groups_ok_def)
  have c: "columns (serves env p r bs (k * bs)) gids k computed"
    by (rule columns_mono [OF k(3)]) (use k(2) pos(2) serves_full [of sf] in \<open>auto simp: bs\<close>)
  from partial_phase_spec [OF G cur refl pos(1,2) bs c, of max_length] k(2) obtain computed1 len0 where
    ph: "partial_phase p gids (RawHashes (block_hashes r)) bs ?h max_length k computed = Inr (computed1, len0)"
    "len0 \<le> max_length" "len0 \<le> num_tokens r" "columns (serves env p r bs len0) gids (cdivn len0 bs) computed1" by auto
  obtain computed' len1 where t: "trim_hit drop_e bs ?h (computed1, len0) = (computed', len1)" by (metis surj_pair)
  have "full_find_longest_cache_hit (RawHashes (block_hashes r)) max_length gids p bs drop_e ?h = Inr (computed', len1)"
    unfolding full_find_longest_cache_hit_def Let_def using fine(1,2) res view len k(1) n ph(1) t by simp
  then show ?thesis using t ph by (intro exI [of _ computed1] exI [of _ len1] exI [of _ len0] exI [of _ computed']) auto
qed


lemma full_hit_spec:
  assumes G: "groups_ok p gids" and cur: "hashes_current env (hash_block_size p) r"
    and pos: "0 < hash_block_size p" "0 < sf" "0 < alignment" and bs: "bs = hash_block_size p * sf"
    and al: "alignment = hash_block_size p \<or> bs dvd alignment"
  shows "\<exists>computed L. full_find_longest_cache_hit (RawHashes (block_hashes r)) max_length gids p bs drop_e alignment = Inr (computed, L) \<and>
    L \<le> max_length \<and> L \<le> num_tokens r \<and> alignment dvd L \<and> columns (serves env p r bs L) gids (cdivn L bs) computed \<and>
    (drop_e \<longrightarrow> L + min alignment bs \<le> max_length \<or> L = 0) \<and>
    (\<not> drop_e \<and> alignment = bs \<longrightarrow> (\<forall>k. k * bs \<le> max_length \<and> k * bs \<le> num_tokens r \<and>
       (\<forall>i < k. \<not> misses p gids (request_chain env (hash_block_size p) r ((i + 1) * sf - 1))) \<longrightarrow> k * bs \<le> L))"
proof (cases "alignment < bs \<and> bs mod alignment = 0")
  case True
  then have a: "alignment = hash_block_size p" "alignment \<noteq> bs" using al pos(3) by (auto dest: dvd_imp_le)
  then have sf: "1 < sf" using pos(2) bs by (cases "sf = 1") auto
  have bs0: "0 < bs" using True by simp
  from full_hit_fine [OF G cur pos(1) sf bs, of drop_e max_length] obtain computed len len0 computed' where
    f: "trim_hit drop_e bs (hash_block_size p) (computed, len0) = (computed', len)"
    "full_find_longest_cache_hit (RawHashes (block_hashes r)) max_length gids p bs drop_e (hash_block_size p) = Inr (computed', len)"
    "columns (serves env p r bs len0) gids (cdivn len0 bs) computed" "len0 \<le> max_length" "len0 \<le> num_tokens r" by blast
  note t = trim_hit_spec [OF f(3) bs0 pos(1) f(1)]
  have "drop_e \<longrightarrow> len + min alignment bs \<le> max_length \<or> len = 0" using t(5) f(4) a(1) by linarith
  then show ?thesis using t(1-3) f a by (intro exI [of _ computed'] exI [of _ len]) simp
next
  case False
  have bs0: "0 < bs" using pos bs by simp
  from full_hit_dense [OF G cur pos False bs, of drop_e max_length] obtain computed k len computed' where
    f: "trim_hit drop_e bs alignment (computed, k * bs) = (computed', len)"
    "full_find_longest_cache_hit (RawHashes (block_hashes r)) max_length gids p bs drop_e alignment = Inr (computed', len)"
    "columns (serves env p r bs (k * bs)) gids k computed" "k \<le> max_length div bs" "k \<le> num_tokens r div bs"
    "k < max_length div bs \<and> k < num_tokens r div bs \<longrightarrow>
       misses p gids (request_chain env (hash_block_size p) r ((k + 1) * sf - 1))" by blast
  have top: "k * bs \<le> max_length" "k * bs \<le> num_tokens r"
    using f(4,5) bs0 by (simp_all add: less_eq_div_iff_mult_less_eq)
  have c: "columns (serves env p r bs (k * bs)) gids (cdivn (k * bs) bs) computed" using f(3) bs0 by simp
  note t = trim_hit_spec [OF c bs0 pos(3) f(1)]
  have "j * bs \<le> len" if "\<not> drop_e" "alignment = bs" and j: "j * bs \<le> max_length" "j * bs \<le> num_tokens r"
    "\<forall>i < j. \<not> misses p gids (request_chain env (hash_block_size p) r ((i + 1) * sf - 1))" for j
  proof -
    have "len = k * bs" using t(4) that(1,2) by simp
    moreover have "j \<le> k"
    proof (rule ccontr)
      assume "\<not> j \<le> k"
      moreover have "j \<le> max_length div bs" "j \<le> num_tokens r div bs" using j bs0 by (simp_all add: less_eq_div_iff_mult_less_eq)
      ultimately show False using f(6) j(3) by auto
    qed
    ultimately show ?thesis by (simp add: mult_le_mono1)
  qed
  moreover have "drop_e \<longrightarrow> len + min alignment bs \<le> max_length \<or> len = 0" using t(5) top(1) by linarith
  ultimately show ?thesis using t(1-3) f(2) top by (intro exI [of _ computed'] exI [of _ len]) auto
qed


section \<open>Sliding window\<close>

text \<open>A block of a sliding window group is a placeholder or cached under the hash of its own block, and
  cached when its index lies in the run of \<open>cnt\<close> blocks from \<open>i\<close> on.\<close>

definition run_block :: "block_pool \<Rightarrow> (nat \<Rightarrow> bytes) \<Rightarrow> nat \<Rightarrow> nat \<Rightarrow> nat \<Rightarrow> nat \<Rightarrow> nat \<Rightarrow> bool" where
  "run_block p val i cnt j g b \<longleftrightarrow> (b = null_block p \<or> cached_under p (val j) g b) \<and>
     (i \<le> j \<and> j < i + cnt \<longrightarrow> cached_under p (val j) g b)"

definition edge_aligned :: "nat \<Rightarrow> nat \<Rightarrow> nat \<Rightarrow> bool" where
  "edge_aligned bs a k \<longleftrightarrow> bs = a \<or> k * bs mod a = 0"

text \<open>A hit of \<open>k\<close> blocks is possible: aligned, and the last \<open>need\<close> blocks before it are cached.\<close>

definition swa_possible :: "block_pool \<Rightarrow> nat list \<Rightarrow> (nat \<Rightarrow> bytes) \<Rightarrow> nat \<Rightarrow> nat \<Rightarrow> nat \<Rightarrow> nat \<Rightarrow> bool" where
  "swa_possible p gids val bs a need k \<longleftrightarrow> edge_aligned bs a k \<and> (\<forall>i. k - need \<le> i \<and> i < k \<longrightarrow> \<not> misses p gids (val i))"

definition swa_state :: "block_pool \<Rightarrow> nat list \<Rightarrow> (nat \<Rightarrow> bytes) \<Rightarrow> nat \<Rightarrow> nat \<Rightarrow> bool \<Rightarrow> nat \<Rightarrow> nat \<Rightarrow> nat \<Rightarrow> nat \<Rightarrow>
    nat list list \<Rightarrow> bool" where
  "swa_state p gids val bs a drop_e need N i cnt computed \<longleftrightarrow>
     columns (run_block p val i cnt) gids N computed \<and> i + cnt \<le> N \<and>
     (cnt = 0 \<or> edge_aligned bs a (if drop_e then i + cnt - 1 else i + cnt)) \<and>
     (\<not> drop_e \<and> 0 < need \<longrightarrow> (\<forall>k \<le> N. swa_possible p gids val bs a need k \<longrightarrow> k \<le> i + cnt))"

lemma columns_update:
  assumes "columns Q gids n computed" and "list_all2 (R i) gids bs" and "i < n"
    and "\<And>j g b. j < n \<Longrightarrow> j \<noteq> i \<Longrightarrow> Q j g b \<Longrightarrow> R j g b"
  shows "columns R gids n (map (\<lambda>(xs, b). xs[i := b]) (zip computed bs))"
  using assms unfolding columns_def by (auto simp: list_all2_conv_all_nth nth_list_update)

lemma swa_state_miss:
  assumes "swa_state p gids val bs a drop_e need N (Suc i) cnt computed" and "misses p gids (val i)" and "cnt = 0 \<or> cnt < need"
  shows "swa_state p gids val bs a drop_e need N i 0 computed"
proof -
  have "columns (run_block p val i 0) gids N computed"
    by (rule columns_mono [where Q = "run_block p val (Suc i) cnt"]) (use assms(1) in \<open>auto simp: swa_state_def run_block_def\<close>)
  moreover have "k \<le> i" if "\<not> drop_e" "0 < need" "k \<le> N" "swa_possible p gids val bs a need k" for k
  proof (rule ccontr)
    assume "\<not> k \<le> i"
    moreover have "k \<le> Suc i + cnt" using assms(1) that by (simp add: swa_state_def)
    ultimately have "k - need \<le> i" "i < k" using assms(3) that(2) by linarith+
    then show False using that(4) assms(2) by (simp add: swa_possible_def)
  qed
  ultimately show ?thesis using assms(1) by (simp add: swa_state_def)
qed

lemma swa_state_skip:
  assumes "swa_state p gids val bs a drop_e need N (Suc i) 0 computed" and "\<not> edge_aligned bs a (if drop_e then i else i + 1)"
  shows "swa_state p gids val bs a drop_e need N i 0 computed"
proof -
  have "columns (run_block p val i 0) gids N computed"
    by (rule columns_mono [where Q = "run_block p val (Suc i) 0"]) (use assms(1) in \<open>auto simp: swa_state_def run_block_def\<close>)
  moreover have "k \<le> i" if "\<not> drop_e" "0 < need" "k \<le> N" "swa_possible p gids val bs a need k" for k
  proof (rule ccontr)
    assume "\<not> k \<le> i"
    moreover have "k \<le> Suc i" using assms(1) that by (auto simp: swa_state_def)
    ultimately have "k = Suc i" by simp
    then show False using that(1,4) assms(2) by (simp add: swa_possible_def)
  qed
  ultimately show ?thesis using assms(1) by (simp add: swa_state_def)
qed

lemma swa_state_hit:
  assumes S: "swa_state p gids val bs a drop_e need N (Suc i) cnt computed" and hit: "list_all2 (cached_under p (val i)) gids bl"
    and al: "cnt \<noteq> 0 \<or> edge_aligned bs a (if drop_e then i else i + 1)"
  shows "swa_state p gids val bs a drop_e need N i (cnt + 1) (map (\<lambda>(xs, b). xs[i := b]) (zip computed bl))"
proof -
  have c: "columns (run_block p val (Suc i) cnt) gids N computed" and i: "i < N" using S by (auto simp: swa_state_def)
  have "list_all2 (run_block p val i (cnt + 1) i) gids bl"
    using hit by (rule list_all2_mono) (simp add: run_block_def)
  then have "columns (run_block p val i (cnt + 1)) gids N (map (\<lambda>(xs, b). xs[i := b]) (zip computed bl))"
    by (rule columns_update [OF c _ i]) (auto simp: run_block_def)
  then show ?thesis using S al by (cases drop_e) (auto simp: swa_state_def)
qed

lemma swa_loop_spec:
  assumes G: "groups_ok p gids" and val: "\<And>i. i < N \<Longrightarrow> hashes_get hl i = Inr (val i)"
    and S: "swa_state p gids val bs a drop_e need N i cnt computed" and cnt: "cnt = 0 \<or> cnt < need"
  shows "\<exists>found c comp. swa_loop p gids hl bs a drop_e need i cnt computed = Inr (found, c, comp) \<and>
    (if found then \<exists>j comp0. swa_state p gids val bs a drop_e need N j c comp0 \<and> comp = map (take (j + c)) comp0 \<and> need \<le> c \<and> 0 < c
     else swa_state p gids val bs a drop_e need N 0 c comp)"
  using S cnt
proof (induction i arbitrary: cnt computed)
  case 0
  then show ?case by (intro exI [of _ False] exI [of _ cnt] exI [of _ computed]) simp
next
  case (Suc i)
  have i: "i < N" using Suc.prems(1) by (simp add: swa_state_def)
  show ?case
  proof (cases rule: lookup_spec [OF G, of "val i", case_names miss hit])
    case miss
    from Suc.IH [OF swa_state_miss [OF Suc.prems(1) miss(2) Suc.prems(2)]] show ?thesis using val [OF i] miss(1) by simp
  next
    case (hit bl)
    show ?thesis
    proof (cases "cnt = 0 \<and> \<not> edge_aligned bs a (if drop_e then i else i + 1)")
      case True
      then have "swa_loop p gids hl bs a drop_e need (Suc i) cnt computed = swa_loop p gids hl bs a drop_e need i 0 computed"
        using val [OF i] hit(1) by (simp add: edge_aligned_def)
      then show ?thesis using Suc.IH [OF swa_state_skip [of p gids val bs a drop_e need N i computed]] Suc.prems(1) True by simp
    next
      case False
      let ?c1 = "map (\<lambda>(xs, b). xs[i := b]) (zip computed bl)"
      have S1: "swa_state p gids val bs a drop_e need N i (cnt + 1) ?c1"
        using False by (intro swa_state_hit [OF Suc.prems(1) hit(2)]) auto
      have run: "swa_loop p gids hl bs a drop_e need (Suc i) cnt computed = (if cnt + 1 \<ge> need
          then Inr (True, cnt + 1, map (take (i + (cnt + 1))) ?c1) else swa_loop p gids hl bs a drop_e need i (cnt + 1) ?c1)"
        using val [OF i] hit(1) False by (auto simp: edge_aligned_def Let_def)
      show ?thesis
      proof (cases "cnt + 1 \<ge> need")
        case True
        then have "swa_loop p gids hl bs a drop_e need (Suc i) cnt computed = Inr (True, cnt + 1, map (take (i + (cnt + 1))) ?c1)"
          using run by simp
        moreover have "\<exists>j comp0. swa_state p gids val bs a drop_e need N j (cnt + 1) comp0 \<and>
            map (take (i + (cnt + 1))) ?c1 = map (take (j + (cnt + 1))) comp0 \<and> need \<le> cnt + 1 \<and> 0 < cnt + 1"
          using S1 True by (intro exI [of _ i] exI [of _ ?c1]) simp
        ultimately show ?thesis by (metis (mono_tags, lifting))
      next
        case False
        then show ?thesis unfolding run using Suc.IH [OF S1] by simp
      qed
    qed
  qed
qed


lemma pop_to_alignment_spec:
  assumes "columns Q gids n computed" and "gids \<noteq> []"
  shows "\<exists>k \<le> n. pop_to_alignment bs a computed = map (take k) computed \<and> columns Q gids k (map (take k) computed) \<and>
    edge_aligned bs a k \<and> (edge_aligned bs a n \<longrightarrow> k = n)"
  using assms(1)
proof (induction n arbitrary: computed rule: less_induct)
  case (less n)
  have f: "first_len computed = n" using columns_first [OF less.prems assms(2)] by simp
  have all: "map (take n) computed = computed"
    using less.prems unfolding columns_def list_all2_conv_all_nth by (intro nth_equalityI) auto
  show ?case
  proof (cases "edge_aligned bs a n")
    case True
    then have "pop_to_alignment bs a computed = computed" using f by (subst pop_to_alignment.simps) (auto simp: edge_aligned_def)
    then show ?thesis using True less.prems all by (intro exI [of _ n]) simp
  next
    case False
    then have n: "n - 1 < n" by (cases n) (auto simp: edge_aligned_def)
    have step: "pop_to_alignment bs a computed = pop_to_alignment bs a (map (take (n - 1)) computed)"
      unfolding columns_butlast [OF less.prems, symmetric] using False f
      by (subst pop_to_alignment.simps) (simp add: edge_aligned_def)
    from less.IH [OF n columns_take [OF less.prems, of "n - 1"]] obtain k where
      k: "k \<le> n - 1" "pop_to_alignment bs a (map (take (n - 1)) computed) = map (take k) (map (take (n - 1)) computed)"
      "columns Q gids k (map (take k) (map (take (n - 1)) computed))" "edge_aligned bs a k" by auto
    have tt: "map (take k) (map (take (n - 1)) computed) = map (take k) computed" using k(1) by (simp add: min_absorb1)
    have "pop_to_alignment bs a computed = map (take k) computed" "columns Q gids k (map (take k) computed)"
      using k(2,3) step unfolding tt by simp_all
    then show ?thesis using k(1,4) False by (intro exI [of _ k]) auto
  qed
qed

text \<open>What the tail of the search makes of the loop's result.\<close>

definition swa_result :: "nat \<Rightarrow> nat \<Rightarrow> bool \<Rightarrow> nat list list \<Rightarrow> nat list list" where
  "swa_result bs a drop_e computed = (if drop_e \<and> first_len computed > 0 then pop_to_alignment bs a (map butlast computed) else computed)"

lemma swa_result_spec:
  assumes c: "columns Q gids n computed" and g: "gids \<noteq> []" and al: "drop_e \<or> edge_aligned bs a n"
  shows "\<exists>k \<le> n. columns Q gids k (swa_result bs a drop_e computed) \<and> edge_aligned bs a k \<and> (\<not> drop_e \<longrightarrow> k = n) \<and>
    (drop_e \<and> 0 < n \<and> edge_aligned bs a (n - 1) \<longrightarrow> k = n - 1) \<and> (drop_e \<longrightarrow> k < n \<or> k = 0)"
proof (cases "drop_e \<and> 0 < n")
  case True
  have f: "first_len computed = n" using columns_first [OF c g] by simp
  have b: "columns Q gids (n - 1) (map butlast computed)"
    unfolding columns_butlast [OF c] by (rule columns_take [OF c]) simp
  from pop_to_alignment_spec [OF b g, of bs a] obtain k where "k \<le> n - 1"
    "pop_to_alignment bs a (map butlast computed) = map (take k) (map butlast computed)"
    "columns Q gids k (map (take k) (map butlast computed))" "edge_aligned bs a k" "edge_aligned bs a (n - 1) \<longrightarrow> k = n - 1" by blast
  then show ?thesis using True f by (intro exI [of _ k]) (auto simp: swa_result_def)
next
  case False
  then have "edge_aligned bs a n" using al by (auto simp: edge_aligned_def)
  then show ?thesis using False c columns_first [OF c g] by (intro exI [of _ n]) (auto simp: swa_result_def)
qed

lemma swa_tail_spec:
  assumes S: "if found then \<exists>j cs0. swa_state p gids val bs a drop_e need N j c cs0 \<and> cs = map (take (j + c)) cs0 \<and> need \<le> c \<and> 0 < c
      else swa_state p gids val bs a drop_e need N 0 c cs"
    and g: "gids \<noteq> []" and need: "need = w + (if drop_e then 1 else 0)"
  defines "cs1 \<equiv> if found then cs else pop_to_alignment bs a (map (take c) cs)"
  shows "\<exists>n k. num_computed cs1 = Inr n \<and> first_len cs1 = n \<and>
    columns (run_block p val (k - w) w) gids k (swa_result bs a drop_e cs1) \<and> k \<le> N \<and> edge_aligned bs a k \<and>
    (drop_e \<longrightarrow> k < N \<or> k = 0) \<and>
    (\<not> drop_e \<and> 0 < w \<longrightarrow> (\<forall>j \<le> N. swa_possible p gids val bs a w j \<longrightarrow> j \<le> k))"
proof (cases found)
  case True
  with S obtain j cs0 where s: "swa_state p gids val bs a drop_e need N j c cs0" "cs = map (take (j + c)) cs0"
    "need \<le> c" "0 < c" by auto
  have c: "columns (run_block p val j c) gids (j + c) cs1"
    using s True columns_take [of _ gids N cs0 "j + c"] by (simp add: cs1_def swa_state_def)
  have al: "edge_aligned bs a (if drop_e then j + c - 1 else j + c)" using s(1,4) by (simp add: swa_state_def)
  from swa_result_spec [OF c g, of drop_e bs a] al s(4) obtain k where
    k: "columns (run_block p val j c) gids k (swa_result bs a drop_e cs1)" "edge_aligned bs a k"
    "k = (if drop_e then j + c - 1 else j + c)" by (auto split: if_splits)
  have "columns (run_block p val (k - w) w) gids k (swa_result bs a drop_e cs1)"
    by (rule columns_mono [OF k(1)]) (use k(3) s(3,4) need in \<open>auto simp: run_block_def split: if_splits\<close>)
  moreover have "k \<le> N" "drop_e \<longrightarrow> k < N \<or> k = 0" using k(3) s(1,4) by (auto simp: swa_state_def)
  moreover have "\<not> drop_e \<and> 0 < w \<longrightarrow> (\<forall>i \<le> N. swa_possible p gids val bs a w i \<longrightarrow> i \<le> k)"
    using k(3) s(1) need by (simp add: swa_state_def)
  ultimately show ?thesis using columns_first [OF c g] k(2) by (intro exI [of _ "j + c"] exI [of _ k]) blast
next
  case False
  then have s: "swa_state p gids val bs a drop_e need N 0 c cs" using S by simp
  have c: "columns (run_block p val 0 c) gids c (map (take c) cs)"
    using s columns_take [of _ gids N cs c] by (simp add: swa_state_def)
  from pop_to_alignment_spec [OF c g, of bs a] False obtain n where
    n: "n \<le> c" "columns (run_block p val 0 c) gids n cs1" "edge_aligned bs a n" "edge_aligned bs a c \<longrightarrow> n = c"
    by (auto simp: cs1_def)
  from swa_result_spec [OF n(2) g, of drop_e bs a] n(3) obtain k where
    k: "k \<le> n" "columns (run_block p val 0 c) gids k (swa_result bs a drop_e cs1)" "edge_aligned bs a k" "\<not> drop_e \<longrightarrow> k = n"
    "drop_e \<longrightarrow> k < n \<or> k = 0" by blast
  have "columns (run_block p val (k - w) w) gids k (swa_result bs a drop_e cs1)"
    by (rule columns_mono [OF k(2)]) (use k(1) n(1) in \<open>auto simp: run_block_def\<close>)
  moreover have nc: "\<not> drop_e \<longrightarrow> n = c" using n s by (auto simp: swa_state_def edge_aligned_def)
  moreover have "c \<le> N" using s by (simp add: swa_state_def)
  then have "k \<le> N" "drop_e \<longrightarrow> k < N \<or> k = 0" using k(1,5) n(1) by auto
  moreover have "\<not> drop_e \<and> 0 < w \<longrightarrow> (\<forall>i \<le> N. swa_possible p gids val bs a w i \<longrightarrow> i \<le> k)"
    using s need nc k(4) by (simp add: swa_state_def)
  ultimately show ?thesis using columns_first [OF n(2) g] k(3) by (intro exI [of _ n] exI [of _ k]) blast
qed


lemma swa_hit_spec:
  fixes window :: nat
  assumes G: "groups_ok p gids" and cur: "hashes_current env (hash_block_size p) r"
    and pos: "0 < hash_block_size p" "0 < sf" and bs: "bs = hash_block_size p * sf" and top: "max_length \<le> num_tokens r"
  defines "val \<equiv> \<lambda>i. request_chain env (hash_block_size p) r ((i + 1) * sf - 1)" and "w \<equiv> cdivn (window - 1) bs"
  shows "\<exists>computed k. swa_find_longest_cache_hit (RawHashes (block_hashes r)) max_length gids p window bs drop_e a = Inr (computed, k * bs) \<and>
    k \<le> max_length div bs \<and> edge_aligned bs a k \<and> columns (run_block p val (k - w) w) gids k computed \<and>
    (drop_e \<longrightarrow> k < max_length div bs \<or> k = 0) \<and>
    (\<not> drop_e \<and> 0 < w \<longrightarrow> (\<forall>j \<le> max_length div bs. swa_possible p gids val bs a w j \<longrightarrow> j \<le> k))"
proof -
  let ?h = "hash_block_size p" and ?n = "max_length div bs" and ?need = "contiguous_blocks_for_hit window bs drop_e"
  from resolve_values [OF pos cur, of "Some a"] obtain hl where
    hl: "resolve_block_hashes (RawHashes (block_hashes r)) ?h bs False (Some a) = Inr hl"
    "\<And>i. i < num_tokens r div bs \<Longrightarrow> hashes_get hl i = Inr (val i)" unfolding bs [symmetric] val_def by metis
  have get: "\<And>i. i < ?n \<Longrightarrow> hashes_get hl i = Inr (val i)" using hl(2) div_le_mono [OF top, of bs] by simp
  have g: "gids \<noteq> []" using G by (simp add: groups_ok_def)
  let ?c0 = "replicate (length gids) (replicate ?n (null_block p))"
  have "swa_state p gids val bs a drop_e ?need ?n ?n 0 ?c0"
    unfolding swa_state_def by (auto intro: columns_replicate simp: run_block_def)
  from swa_loop_spec [OF G get this] obtain found c cs where
    lp: "swa_loop p gids hl bs a drop_e ?need ?n 0 ?c0 = Inr (found, c, cs)"
    and S: "if found then \<exists>j cs0. swa_state p gids val bs a drop_e ?need ?n j c cs0 \<and> cs = map (take (j + c)) cs0 \<and> ?need \<le> c \<and> 0 < c
      else swa_state p gids val bs a drop_e ?need ?n 0 c cs" by blast
  have need: "?need = w + (if drop_e then 1 else 0)" by (simp add: contiguous_blocks_for_hit_def w_def)
  let ?c1 = "if found then cs else pop_to_alignment bs a (map (take c) cs)"
  from swa_tail_spec [OF S g need] obtain n k where
    t: "num_computed ?c1 = Inr n" "first_len ?c1 = n" "columns (run_block p val (k - w) w) gids k (swa_result bs a drop_e ?c1)"
    "k \<le> ?n" "edge_aligned bs a k" "drop_e \<longrightarrow> k < ?n \<or> k = 0"
    "\<not> drop_e \<and> 0 < w \<longrightarrow> (\<forall>j \<le> ?n. swa_possible p gids val bs a w j \<longrightarrow> j \<le> k)" by blast
  have "swa_find_longest_cache_hit (RawHashes (block_hashes r)) max_length gids p window bs drop_e a =
      Inr (swa_result bs a drop_e ?c1, first_len (swa_result bs a drop_e ?c1) * bs)"
    unfolding swa_find_longest_cache_hit_def using hl(1) lp t(1,2) by (simp add: Let_def swa_result_def)
  then show ?thesis using t(3-7) columns_first [OF t(3) g] by (intro exI [of _ "swa_result bs a drop_e ?c1"] exI [of _ k]) simp
qed


section \<open>Properties\<close>

text \<open>The demonstration pool after one block of the demonstration request was registered for group 5.\<close>

lemma demo_cached:
  "\<exists>p. pool_inv p [1, 2, 3] \<and> hash_block_size p = 2 \<and>
     cached_under p (request_chain demo_env 2 (demo_request [1, 2, 3] [[7, 0, 1, 2]]) 0) 5 1"
proof -
  let ?r = "demo_request [1, 2, 3] [[7, 0, 1, 2]]"
  have i: "index_ok demo_pool" using demo_pool(2) by (simp add: pool_inv_def)
  have h: "block_hash (blk demo_pool 1) = None" using hash_list_Nil [OF i, of 1] demo_pool(4,6) by simp
  have cur: "hashes_current demo_env (hash_block_size demo_pool) ?r" using demo_current demo_pool(5) by simp
  obtain r' p' where c: "cache_full_blocks demo_env ?r [1] 0 1 2 5 None demo_pool = Inr (r', p')"
    and k: "\<forall>i. 0 \<le> i \<and> i < 1 \<longrightarrow> cached_under p' (request_chain demo_env (hash_block_size demo_pool) ?r ((i + 1) * 1 - 1)) 5 ([1] ! i)"
  proof -
    have "\<exists>r' p'. cache_full_blocks demo_env ?r [1] 0 1 2 5 None demo_pool = Inr (r', p') \<and>
      (\<forall>i. 0 \<le> i \<and> i < 1 \<longrightarrow> cached_under p' (request_chain demo_env (hash_block_size demo_pool) ?r ((i + 1) * 1 - 1)) 5 ([1] ! i)) \<and>
      (\<forall>b. b \<notin> set (drop 0 [1]) \<longrightarrow> hash_list p' b = hash_list demo_pool b)"
      by (rule cache_full_blocks_total [OF demo_pool(2) cur]) (use h demo_pool(4,5) in simp_all)
    then show thesis using that by blast
  qed
  have s: "index_step demo_pool p'" using cache_full_blocks_index [OF c i] demo_pool(4) by simp
  have "pool_inv p' [1, 2, 3]" by (rule index_step_inv [OF s demo_pool(2)])
  moreover have "hash_block_size p' = 2" using hash_onlyD(5) [of demo_pool p'] s demo_pool(5) by (simp add: index_step_def)
  moreover have "cached_under p' (request_chain demo_env 2 ?r 0) 5 1"
    using k [rule_format, of 0] demo_pool(5) by simp
  ultimately show ?thesis by blast
qed



lemma swa_hit_groups:
  assumes G: "groups_ok p gids"
    and "hashes_current env (hash_block_size p) r" and "0 < hash_block_size p" and "0 < sf" and "max_length \<le> num_tokens r"
    and "bs = hash_block_size p * sf" and "val = (\<lambda>i. request_chain env (hash_block_size p) r ((i + 1) * sf - 1))"
  shows "\<exists>computed k. swa_find_longest_cache_hit (RawHashes (block_hashes r)) max_length gids p window bs drop_e alignment =
      Inr (computed, k * bs) \<and> k * bs \<le> max_length \<and> alignment dvd k * bs \<and>
    (drop_e \<longrightarrow> (k + 1) * bs \<le> max_length \<or> k = 0) \<and>
    columns (\<lambda>i g b. (b = null_block p \<or> cached_under p (val i) g b) \<and>
      (k * bs < (i + 1) * bs + (window - 1) \<longrightarrow> cached_under p (val i) g b)) gids k computed \<and>
    (\<not> drop_e \<and> 1 < window \<longrightarrow> (\<forall>j \<le> max_length div bs. alignment dvd j * bs \<and>
      (\<forall>i < j. j * bs < (i + 1) * bs + (window - 1) \<longrightarrow> \<not> misses p gids (val i)) \<longrightarrow> j \<le> k))"
proof -
  let ?w = "cdivn (window - 1) bs"
  have bs: "0 < bs" using assms by simp
  have in_win: "k - ?w \<le> i \<longleftrightarrow> k * bs < (i + 1) * bs + (window - 1)" if "i < k" for i k
  proof -
    have "k - ?w \<le> i \<longleftrightarrow> \<not> ?w \<le> k - (i + 1)" using that by arith
    also have "\<dots> \<longleftrightarrow> (k - (i + 1)) * bs < window - 1" using cdivn_le_iff [OF bs] by (simp add: not_le)
    also have "\<dots> \<longleftrightarrow> k * bs < (i + 1) * bs + (window - 1)" using mult_le_mono1 [of "i + 1" k bs] that
      by (simp add: diff_mult_distrib less_diff_conv2 add.commute)
    finally show ?thesis .
  qed
  have al: "edge_aligned bs alignment j \<longleftrightarrow> alignment dvd j * bs" for j by (auto simp: edge_aligned_def dvd_eq_mod_eq_0)
  from swa_hit_spec [OF G assms(2-4,6,5), of window drop_e alignment] obtain computed k where
    r: "swa_find_longest_cache_hit (RawHashes (block_hashes r)) max_length gids p window bs drop_e alignment = Inr (computed, k * bs)"
    "k \<le> max_length div bs" "edge_aligned bs alignment k" "columns (run_block p val (k - ?w) ?w) gids k computed"
    "drop_e \<longrightarrow> k < max_length div bs \<or> k = 0" "\<not> drop_e \<and> 0 < ?w \<longrightarrow> (\<forall>j \<le> max_length div bs. swa_possible p gids val bs alignment ?w j \<longrightarrow> j \<le> k)"
    unfolding assms(7) by blast
  have "columns (\<lambda>i g b. (b = null_block p \<or> cached_under p (val i) g b) \<and>
      (k * bs < (i + 1) * bs + (window - 1) \<longrightarrow> cached_under p (val i) g b)) gids k computed"
    by (rule columns_mono [OF r(4)]) (use in_win in \<open>auto simp: run_block_def\<close>)
  moreover have "0 < ?w" if "1 < window" using that cdivn_covers [OF bs, of "window - 1"] by (cases ?w) auto
  moreover have "swa_possible p gids val bs alignment ?w j"
    if "alignment dvd j * bs" "\<forall>i < j. j * bs < (i + 1) * bs + (window - 1) \<longrightarrow> \<not> misses p gids (val i)" for j
    using that in_win by (auto simp: swa_possible_def al)
  moreover have "k * bs \<le> max_length" using r(2) bs by (simp add: less_eq_div_iff_mult_less_eq)
  moreover have "drop_e \<longrightarrow> (k + 1) * bs \<le> max_length \<or> k = 0" using r(5) below_div by blast
  ultimately show ?thesis using r(1,3,6) al by (intro exI [of _ computed] exI [of _ k]) blast
qed


text \<open>C8: the search for a sliding window group always returns. The hit has \<open>k\<close> blocks, ends on the
  alignment and is not longer than asked; a block of the result is the null block or registered under
  the hash of its prefix, and every block with a token in the last \<^verbatim>\<open>window - 1\<close> tokens before the end of
  the hit, which is what the next token attends to, is registered. When the draft model's block is
  dropped, a block before the limit is given up; without that no aligned hit whose window is cached
  is longer.\<close>

theorem swa_hit_correct:
  assumes "pool_inv p free" and "gids \<noteq> []" and "\<forall>g \<in> set gids. g < 2 ^ 32"
    and "hashes_current env (hash_block_size p) r" and "0 < hash_block_size p" and "0 < sf" and "max_length \<le> num_tokens r"
    and "bs = hash_block_size p * sf" and "val = (\<lambda>i. request_chain env (hash_block_size p) r ((i + 1) * sf - 1))"
  shows "\<exists>computed k. swa_find_longest_cache_hit (RawHashes (block_hashes r)) max_length gids p window bs drop_e alignment =
      Inr (computed, k * bs) \<and> k * bs \<le> max_length \<and> alignment dvd k * bs \<and>
    (drop_e \<longrightarrow> (k + 1) * bs \<le> max_length \<or> k = 0) \<and>
    columns (\<lambda>i g b. (b = null_block p \<or> cached_under p (val i) g b) \<and>
      (k * bs < (i + 1) * bs + (window - 1) \<longrightarrow> cached_under p (val i) g b)) gids k computed \<and>
    (\<not> drop_e \<and> 1 < window \<longrightarrow> (\<forall>j \<le> max_length div bs. alignment dvd j * bs \<and>
      (\<forall>i < j. j * bs < (i + 1) * bs + (window - 1) \<longrightarrow> \<not> misses p gids (val i)) \<longrightarrow> j \<le> k))"
  using assms by (intro swa_hit_groups) (simp_all add: groups_ok_def pool_inv_def)

theorem swa_hit_correct_witness:
  "\<exists>p computed. cached_under p (request_chain demo_env 2 (demo_request [1, 2, 3] [[7, 0, 1, 2]]) 0) 5 1 \<and>
     swa_find_longest_cache_hit (RawHashes [[7, 0, 1, 2]]) 3 [5] p 2 2 False 2 = Inr (computed, 2)"
proof -
  obtain p where p: "pool_inv p [1, 2, 3]" "hash_block_size p = 2"
    "cached_under p (request_chain demo_env 2 (demo_request [1, 2, 3] [[7, 0, 1, 2]]) 0) 5 1" using demo_cached by blast
  have cur: "hashes_current demo_env (hash_block_size p) (demo_request [1, 2, 3] [[7, 0, 1, 2]])" using demo_current p(2) by simp
  define val where "val = (\<lambda>i. request_chain demo_env (hash_block_size p) (demo_request [1, 2, 3] [[7, 0, 1, 2]]) ((i + 1) * 1 - 1))"
  have v: "cached_under p (val 0) 5 1" using p(2,3) by (simp add: val_def)
  have "\<exists>computed k. swa_find_longest_cache_hit (RawHashes (block_hashes (demo_request [1, 2, 3] [[7, 0, 1, 2]]))) 3 [5] p 2 2 False 2 =
      Inr (computed, k * 2) \<and> k * 2 \<le> 3 \<and> 2 dvd k * 2 \<and> (False \<longrightarrow> (k + 1) * 2 \<le> 3 \<or> k = 0) \<and>
    columns (\<lambda>i g b. (b = null_block p \<or> cached_under p (val i) g b) \<and>
      (k * 2 < (i + 1) * 2 + (2 - 1) \<longrightarrow> cached_under p (val i) g b)) [5] k computed \<and>
    (\<not> False \<and> 1 < (2 :: nat) \<longrightarrow> (\<forall>j \<le> 3 div 2. 2 dvd j * 2 \<and>
      (\<forall>i < j. j * 2 < (i + 1) * 2 + (2 - 1) \<longrightarrow> \<not> misses p [5] (val i)) \<longrightarrow> j \<le> k))"
    by (rule swa_hit_correct [OF p(1) _ _ cur, of "[5]" 1 3 2 val 2 False 2]) (simp_all add: p(2) val_def)
  then obtain computed k where
    f: "swa_find_longest_cache_hit (RawHashes [[7, 0, 1, 2]]) 3 [5] p 2 2 False 2 = Inr (computed, k * 2)" "k * 2 \<le> 3" and
    m: "\<not> False \<and> 1 < (2 :: nat) \<longrightarrow> (\<forall>j \<le> 3 div 2. 2 dvd j * 2 \<and>
      (\<forall>i < j. j * 2 < (i + 1) * 2 + (2 - 1) \<longrightarrow> \<not> misses p [5] (val i)) \<longrightarrow> j \<le> k)"
    unfolding demo_tokens by (elim exE conjE) (rule that; assumption)
  have "\<not> misses p [5] (val 0)" using v by (auto simp: misses_def)
  then have "1 \<le> k" using m [rule_format, of 1] by simp
  then have "k = 1" using f(2) by simp
  then have "k * 2 = 2" by simp
  then show ?thesis using f(1) p(3) by metis
qed

lemma mark_range_len [simp]: "length (mark_range start lo hi msk) = length msk"
  by (simp add: mark_range_def)

lemma mark_range_nth: "j < length msk \<Longrightarrow> mark_range start lo hi msk ! j \<longleftrightarrow> msk ! j \<or> lo \<le> start + j \<and> start + j < hi"
  by (simp add: mark_range_def nth_enumerate_eq)

lemma mark_segments_nth: "j < length msk \<Longrightarrow>
    mark_segments start shift per need msk ! j \<longleftrightarrow> msk ! j \<or> shift \<le> start + j \<and> per - need \<le> (start + j - shift) mod per"
  by (simp add: mark_segments_def nth_enumerate_eq)

lemma mark_segments_len [simp]: "length (mark_segments start shift per need msk) = length msk"
  by (simp add: mark_segments_def)

lemma mark_boundary_len [simp]: "length (mark_boundary start e a bs shift need b msk) = length msk"
  by (simp add: mark_boundary_def Let_def)

lemma mark_final_len [simp]: "length (mark_final_segment start e ue per need fe msk) = length msk"
  by (simp add: mark_final_segment_def Let_def split: option.split)

lemma fold_mark_len [simp]: "length (fold (mark_boundary start e a bs shift need) bds msk) = length msk"
  by (induction bds arbitrary: msk) auto

lemma fold_mark_nth:
  assumes "j < length msk" and "start + j < e"
  shows "fold (mark_boundary start e a bs shift need) bds msk ! j \<longleftrightarrow> msk ! j \<or>
    (\<exists>b \<in> set bds. b div a * a div bs + shift - need \<le> start + j \<and> start + j < b div a * a div bs + shift)"
  using assms
proof (induction bds arbitrary: msk)
  case (Cons b bds)
  then show ?case by (auto simp: mark_boundary_def Let_def mark_range_nth)
qed simp

text \<open>The blocks that end a segment of \<open>per\<close> blocks.\<close>

lemma segment_tail:
  assumes "0 < per" and "need < per" and "shift \<le> (1::nat)"
  shows "shift \<le> j \<and> per - need \<le> (j - shift) mod per \<longleftrightarrow> (\<exists>q > 0. q * per + shift - need \<le> j \<and> j < q * per + shift)"
proof
  assume l: "shift \<le> j \<and> per - need \<le> (j - shift) mod per"
  define x where "x = j - shift"
  define q where "q = x div per + 1"
  have x: "x = (q - 1) * per + x mod per" "x mod per < per" using assms(1) by (simp_all add: q_def)
  have qp: "q * per = (q - 1) * per + per" by (simp add: q_def)
  have "0 < q" by (simp add: q_def)
  moreover have "j = x + shift" "per - need \<le> x mod per" using l by (simp_all add: x_def)
  then have "q * per + shift - need \<le> j" "j < q * per + shift" using x qp assms(2) by linarith+
  ultimately show "\<exists>q > 0. q * per + shift - need \<le> j \<and> j < q * per + shift" by blast
next
  assume "\<exists>q > 0. q * per + shift - need \<le> j \<and> j < q * per + shift"
  then obtain q where q: "0 < q" "q * per + shift - need \<le> j" "j < q * per + shift" by blast
  obtain q' where q': "q = Suc q'" using q(1) by (cases q) auto
  define d where "d = j - shift - q' * per"
  have s: "shift \<le> j" "q' * per \<le> j - shift" "per - need \<le> d" "d < per" using q assms(2) unfolding q' d_def by auto
  have "j - shift = d + q' * per" using s(2) by (simp add: d_def)
  then have "(j - shift) mod per = d" using s(4) by simp
  then show "shift \<le> j \<and> per - need \<le> (j - shift) mod per" using s by simp
qed


lemma swa_mask_spec:
  assumes "swa_reachable_block_mask start end_block (Some a) window bs ue retention bds None = Some msk"
    and pos: "0 < bs" "0 < a" "bs dvd a"
  defines "need \<equiv> contiguous_blocks_for_hit window bs ue" and "shift \<equiv> (if ue then 1 else 0 :: nat)"
  shows "length msk = end_block - start"
    and "retention = None \<Longrightarrow> start \<le> j \<Longrightarrow> j < end_block \<Longrightarrow>
      msk ! (j - start) \<longleftrightarrow> (\<exists>b. 0 < b \<and> a dvd b \<and> b div bs + shift - need \<le> j \<and> j < b div bs + shift)"
    and "retention \<noteq> None \<Longrightarrow> start \<le> j \<Longrightarrow> j < end_block \<Longrightarrow> b \<in> set bds \<Longrightarrow>
      b div a * a div bs + shift - need \<le> j \<Longrightarrow> j < b div a * a div bs + shift \<Longrightarrow> msk ! (j - start)"
proof -
  let ?m0 = "replicate (end_block - start) False" and ?F = "fold (mark_boundary start end_block a bs shift need) bds"
  let ?S = "\<lambda>st. mark_segments start shift (st div bs) need ?m0"
  have a: "a mod bs = 0" using pos(3) by (rule dvd_imp_mod_0)
  consider (dense) "retention = None" "need < a div bs" "msk = ?S a"
    | (sparse) n where "retention = Some n" "msk = ?F (?S n)" | (only) "retention = Some 0" "msk = ?F ?m0"
    using assms(1) a unfolding swa_reachable_block_mask_def need_def [symmetric] shift_def [symmetric] Let_def
    by (auto simp: mark_final_segment_def split: option.splits if_splits)
  note c = this
  from c show "length msk = end_block - start" by cases simp_all
  show "msk ! (j - start) \<longleftrightarrow> (\<exists>b. 0 < b \<and> a dvd b \<and> b div bs + shift - need \<le> j \<and> j < b div bs + shift)"
    if "retention = None" and j: "start \<le> j" "j < end_block"
    using c
  proof cases
    case dense
    define per where "per = a div bs"
    have ab: "a = per * bs" using a by (simp add: per_def mod_0_imp_dvd)
    have per: "0 < per" "need < per" using dense(2) by (auto simp: per_def)
    have "msk ! (j - start) \<longleftrightarrow> shift \<le> j \<and> per - need \<le> (j - shift) mod per"
      using dense(3) j by (simp add: mark_segments_nth per_def)
    also have "\<dots> \<longleftrightarrow> (\<exists>q > 0. q * per + shift - need \<le> j \<and> j < q * per + shift)"
      by (rule segment_tail [OF per]) (simp add: shift_def)
    also have "\<dots> \<longleftrightarrow> (\<exists>b. 0 < b \<and> a dvd b \<and> b div bs + shift - need \<le> j \<and> j < b div bs + shift)"
    proof
      assume "\<exists>q > 0. q * per + shift - need \<le> j \<and> j < q * per + shift"
      then obtain q where q: "0 < q" "q * per + shift - need \<le> j" "j < q * per + shift" by blast
      have "q * a div bs = q * per" unfolding ab using pos(1) by simp
      then show "\<exists>b. 0 < b \<and> a dvd b \<and> b div bs + shift - need \<le> j \<and> j < b div bs + shift"
        using q pos(2) by (intro exI [of _ "q * a"]) simp
    next
      assume "\<exists>b. 0 < b \<and> a dvd b \<and> b div bs + shift - need \<le> j \<and> j < b div bs + shift"
      then obtain q where q: "0 < q * a" "q * a div bs + shift - need \<le> j" "j < q * a div bs + shift"
        by (metis dvd_def mult.commute)
      have "q * a div bs = q * per" unfolding ab using pos(1) by simp
      then show "\<exists>q > 0. q * per + shift - need \<le> j \<and> j < q * per + shift" using q by (intro exI [of _ q]) simp
    qed
    finally show ?thesis .
  qed (use that in simp_all)
  show "msk ! (j - start)" if "retention \<noteq> None" and j: "start \<le> j" "j < end_block" and b: "b \<in> set bds"
    "b div a * a div bs + shift - need \<le> j" "j < b div a * a div bs + shift"
    using c by cases (use that in \<open>auto simp: fold_mark_nth\<close>)
qed


text \<open>Block \<open>j\<close> holds a token that a hit of \<open>b\<close> tokens needs: one of the last \<^verbatim>\<open>window - 1\<close> tokens before
  the end of the hit or, with a draft model, in the block after it.\<close>

definition needed_for_hit :: "nat \<Rightarrow> nat \<Rightarrow> bool \<Rightarrow> nat \<Rightarrow> nat \<Rightarrow> bool" where
  "needed_for_hit window bs use_eagle b j \<longleftrightarrow>
     b < (j + 1) * bs + (window - 1) \<and> j * bs < b + (if use_eagle then bs else 0)"

lemma needed_for_hit_blocks:
  assumes "0 < bs" and "bs dvd b"
  shows "needed_for_hit window bs ue b j \<longleftrightarrow> b div bs + (if ue then 1 else 0) - contiguous_blocks_for_hit window bs ue \<le> j \<and>
    j < b div bs + (if ue then 1 else 0)"
proof -
  obtain k where b: "b = k * bs" using assms(2) by (metis dvd_def mult.commute)
  have k: "b div bs = k" using b assms(1) by simp
  have "b < (j + 1) * bs + (window - 1) \<longleftrightarrow> k < j + 1 \<or> (k - (j + 1)) * bs < window - 1"
  proof (cases "k < j + 1")
    case True
    then have "k * bs < (j + 1) * bs" using assms(1) by (intro mult_strict_right_mono)
    then show ?thesis using True b by simp
  next
    case False
    then have "(j + 1) * bs \<le> k * bs" by (intro mult_le_mono1) simp
    then show ?thesis using False by (simp add: b diff_mult_distrib less_diff_conv2 add.commute)
  qed
  also have "\<dots> \<longleftrightarrow> k - cdivn (window - 1) bs \<le> j" using cdivn_le_iff [OF assms(1), of "window - 1" "k - (j + 1)"] by linarith
  finally have lo: "b < (j + 1) * bs + (window - 1) \<longleftrightarrow> k - cdivn (window - 1) bs \<le> j" .
  have "j * bs < b + (if ue then bs else 0) \<longleftrightarrow> j * bs < (k + (if ue then 1 else 0)) * bs" using b by (simp add: distrib_right)
  then show ?thesis unfolding needed_for_hit_def k contiguous_blocks_for_hit_def lo using assms(1) by (auto simp: Let_def)
qed

text \<open>C15: the sparse mask of a sliding window group, if there is one, has an entry per block. Without a
  retention interval it keeps exactly the blocks that a hit ending on a multiple of the alignment
  needs, and with one at least the blocks a hit at the aligned replay and shared prefix boundaries
  needs.\<close>

theorem swa_mask_keeps_hits:
  assumes "0 < bs" and "0 < alignment" and "bs dvd alignment"
    and "swa_reachable_block_mask start end_block (Some alignment) window bs use_eagle retention boundaries None = Some msk"
  shows "length msk = end_block - start \<and>
    (\<forall>j. start \<le> j \<and> j < end_block \<longrightarrow>
      (if retention = None then msk ! (j - start) \<longleftrightarrow> (\<exists>b > 0. alignment dvd b \<and> needed_for_hit window bs use_eagle b j)
       else \<forall>b \<in> set boundaries. needed_for_hit window bs use_eagle (b div alignment * alignment) j \<longrightarrow> msk ! (j - start)))"
proof -
  note S = swa_mask_spec [OF assms(4,1,2,3)]
  have n: "needed_for_hit window bs use_eagle b j \<longleftrightarrow> b div bs + (if use_eagle then 1 else 0) -
      contiguous_blocks_for_hit window bs use_eagle \<le> j \<and> j < b div bs + (if use_eagle then 1 else 0)"
    if "alignment dvd b" for b j
    using needed_for_hit_blocks [OF assms(1)] dvd_trans [OF assms(3) that] by blast
  have "msk ! (j - start) \<longleftrightarrow> (\<exists>b > 0. alignment dvd b \<and> needed_for_hit window bs use_eagle b j)"
    if "retention = None" "start \<le> j" "j < end_block" for j
    unfolding S(2) [OF that] using n by blast
  moreover have "msk ! (j - start)" if "retention \<noteq> None" "start \<le> j" "j < end_block" "b \<in> set boundaries"
    "needed_for_hit window bs use_eagle (b div alignment * alignment) j" for j b
    using S(3) [OF that(1-4)] that(5) n [of "b div alignment * alignment" j] by simp
  ultimately show ?thesis using S(1) by simp
qed

theorem swa_mask_keeps_hits_witness:
  "swa_reachable_block_mask 0 8 (Some 8) 3 2 False None [] None = Some [False, False, False, True, False, False, False, True] \<and>
   (\<exists>b > 0. 8 dvd b \<and> needed_for_hit 3 2 False b 7)"
proof -
  have m: "swa_reachable_block_mask 0 8 (Some 8) 3 2 False None [] None = Some [False, False, False, True, False, False, False, True]"
    by code_simp
  from swa_mask_keeps_hits [OF _ _ _ m] have "\<forall>j < 8. [False, False, False, True, False, False, False, True] ! j \<longleftrightarrow>
      (\<exists>b > 0. 8 dvd b \<and> needed_for_hit 3 2 False b j)" by simp
  from this [rule_format, of 7] have "\<exists>b > 0. 8 dvd b \<and> needed_for_hit 3 2 False b 7" by (simp add: nth_Cons')
  with m show ?thesis by blast
qed

lemma cached_under_hash_list:
  assumes "cached_under p h g b" and "hash_list p' b = hash_list p b" and "length (blocks p') = length (blocks p)"
  shows "cached_under p' h g b"
  using assms by (auto simp: cached_under_def)

lemma base_cache_blocks_full:
  assumes "pool_inv p free" and "hashes_current env (hash_block_size p) r" and "0 < hash_block_size p" and "0 < sf"
    and "mgr_kind m = FullAttention" and "prefix_cacheable m" and "mgr_block_size m = hash_block_size p * sf"
    and "mgr_group_id m < 2 ^ 32"
    and "bs = req_blocks m (request_id r)" and "n = ntoks div mgr_block_size m" and "ntoks \<le> num_tokens r" and "n \<le> length bs"
    and "nc = (case num_cached_block m (request_id r) of None \<Rightarrow> 0 | Some c \<Rightarrow> c)" and "nc \<le> n"
    and "distinct bs" and "\<forall>b \<in> set bs. b < length (blocks p)"
    and "\<forall>b \<in> set (drop nc bs). b \<noteq> 0 \<and> block_hash (blk p b) = None"
    and "\<forall>i < nc. cached_under p (request_chain env (hash_block_size p) r ((i + 1) * sf - 1)) (mgr_group_id m) (bs ! i)"
  shows "\<exists>r' m' p'. base_cache_blocks env r ntoks retention bds m p = Inr (r', m', p') \<and> pool_inv p' free \<and>
    hash_block_size p' = hash_block_size p \<and>
    (\<forall>i < n. cached_under p' (request_chain env (hash_block_size p) r ((i + 1) * sf - 1)) (mgr_group_id m) (bs ! i))"
proof -
  let ?g = "mgr_group_id m" and ?chain = "\<lambda>i. request_chain env (hash_block_size p) r ((i + 1) * sf - 1)"
  have dist: "distinct (drop nc bs)" using assms(15) by (rule distinct_drop)
  have new: "\<forall>b \<in> set (drop nc bs). b < length (blocks p) \<and> b \<noteq> 0 \<and> block_hash (blk p b) = None"
    using assms(16,17) by (auto dest: in_set_dropD)
  have len: "n * mgr_block_size m \<le> num_tokens r" using assms(10,11) by (metis div_times_less_eq_dividend le_trans)
  have idx: "index_ok p" using assms(1) by (simp add: pool_inv_def)
  from cache_full_blocks_total [OF assms(1-4,7,14,12) len assms(8) dist new] obtain r' p' where
    c: "cache_full_blocks env r bs nc n (mgr_block_size m) ?g None p = Inr (r', p')"
    "\<forall>i. nc \<le> i \<and> i < n \<longrightarrow> cached_under p' (?chain i) ?g (bs ! i)"
    "\<forall>b. b \<notin> set (drop nc bs) \<longrightarrow> hash_list p' b = hash_list p b" by blast
  have s: "index_step p p'" by (rule cache_full_blocks_index [OF c(1) idx assms(16)])
  have cfg: "hash_block_size p' = hash_block_size p" "length (blocks p') = length (blocks p)"
    using hash_onlyD(5,1) s by (simp_all add: index_step_def)
  have found: "cached_under p' (?chain i) ?g (bs ! i)" if "i < n" for i
  proof (cases "nc \<le> i")
    case False
    have "take nc bs ! i \<in> set (take nc bs)" using False that assms(12) by (intro nth_mem) simp
    then have "bs ! i \<notin> set (drop nc bs)"
      using False set_take_disj_set_drop_if_distinct [OF assms(15), of nc nc] by auto
    then show ?thesis using cached_under_hash_list [OF _ _ cfg(2)] assms(18) False c(3) by simp
  qed (use c(2) that in blast)
  have "\<exists>r' m'. base_cache_blocks env r ntoks retention bds m p = Inr (r', m', p')"
  proof (cases "nc < n")
    case True
    then show ?thesis using c(1) assms(5,6) unfolding base_cache_blocks_def assms(9,10,13)
      by (simp add: Let_def reachable_block_mask_def open_req_def)
  next
    case False
    then have "p' = p" using c(1) by (simp add: cache_full_blocks_def)
    then show ?thesis using False assms(6) unfolding assms(10,13) by (auto simp: base_cache_blocks_def Let_def)
  qed
  then show ?thesis using index_step_inv [OF s assms(1)] cfg(1) found by blast
qed

lemma cached_prefix_hit:
  assumes "pool_inv p free" and "hashes_current env (hash_block_size p) r" and "0 < hash_block_size p" and "0 < sf" and "g < 2 ^ 32"
    and "\<forall>i < n. cached_under p (request_chain env (hash_block_size p) r ((i + 1) * sf - 1)) g (bs ! i)"
    and "n * (hash_block_size p * sf) \<le> num_tokens r" and "n * (hash_block_size p * sf) \<le> max_length"
  shows "\<exists>computed L. full_find_longest_cache_hit (RawHashes (block_hashes r)) max_length [g] p (hash_block_size p * sf)
        False (hash_block_size p * sf) = Inr (computed, L) \<and> n * (hash_block_size p * sf) \<le> L"
proof -
  let ?bs = "hash_block_size p * sf"
  have G: "groups_ok p [g]" using assms(1,5) by (simp add: groups_ok_def pool_inv_def)
  have bs0: "0 < ?bs" using assms(3,4) by simp
  have al: "?bs = hash_block_size p \<or> ?bs dvd ?bs" by simp
  from full_hit_spec [OF G assms(2-4) bs0 refl al, of max_length False] obtain computed L where
    "full_find_longest_cache_hit (RawHashes (block_hashes r)) max_length [g] p ?bs False ?bs = Inr (computed, L)"
    "\<forall>k. k * ?bs \<le> max_length \<and> k * ?bs \<le> num_tokens r \<and>
       (\<forall>i < k. \<not> misses p [g] (request_chain env (hash_block_size p) r ((i + 1) * sf - 1))) \<longrightarrow> k * ?bs \<le> L" by blast
  moreover have "\<forall>i < n. \<not> misses p [g] (request_chain env (hash_block_size p) r ((i + 1) * sf - 1))"
    using assms(6) by (auto simp: misses_def)
  ultimately show ?thesis using assms(7,8) by blast
qed

text \<open>C14: what a full attention manager registers, a later search finds. After the full blocks of a
  request were cached, the pool is still well formed with the same free blocks, and the search for any
  request whose prefix has the same block hashes returns at least those blocks.\<close>

theorem cache_then_hit:
  assumes "pool_inv p free" and "hashes_current env (hash_block_size p) r" and "0 < hash_block_size p" and "0 < sf"
    and "mgr_kind m = FullAttention" and "prefix_cacheable m" and "mgr_block_size m = hash_block_size p * sf"
    and "mgr_group_id m < 2 ^ 32"
    and "bs = req_blocks m (request_id r)" and "n = ntoks div mgr_block_size m" and "ntoks \<le> num_tokens r" and "n \<le> length bs"
    and "nc = (case num_cached_block m (request_id r) of None \<Rightarrow> 0 | Some c \<Rightarrow> c)" and "nc \<le> n"
    and "distinct bs" and "\<forall>b \<in> set bs. b < length (blocks p)"
    and "\<forall>b \<in> set (drop nc bs). b \<noteq> 0 \<and> block_hash (blk p b) = None"
    and "\<forall>i < nc. cached_under p (request_chain env (hash_block_size p) r ((i + 1) * sf - 1)) (mgr_group_id m) (bs ! i)"
    and "hashes_current env (hash_block_size p) r2"
    and "\<forall>i < n * sf. request_chain env (hash_block_size p) r2 i = request_chain env (hash_block_size p) r i"
    and "n * mgr_block_size m \<le> num_tokens r2" and "n * mgr_block_size m \<le> max_length"
  shows "\<exists>r' m' p'. base_cache_blocks env r ntoks retention bds m p = Inr (r', m', p') \<and> pool_inv p' free \<and>
    (\<exists>computed L. full_find_longest_cache_hit (RawHashes (block_hashes r2)) max_length [mgr_group_id m] p' (mgr_block_size m)
        False (mgr_block_size m) = Inr (computed, L) \<and> n * mgr_block_size m \<le> L)"
proof -
  from base_cache_blocks_full [OF assms(1-18), of retention bds] obtain r' m' p' where
    c: "base_cache_blocks env r ntoks retention bds m p = Inr (r', m', p')" "pool_inv p' free"
    "hash_block_size p' = hash_block_size p"
    "\<forall>i < n. cached_under p' (request_chain env (hash_block_size p) r ((i + 1) * sf - 1)) (mgr_group_id m) (bs ! i)" by blast
  have "(i + 1) * sf - 1 < n * sf" if "i < n" for i
    using mult_le_mono1 [of "i + 1" n sf] that assms(4) by (cases "(i + 1) * sf") auto
  then have found: "\<forall>i < n. cached_under p' (request_chain env (hash_block_size p') r2 ((i + 1) * sf - 1)) (mgr_group_id m) (bs ! i)"
    unfolding c(3) using c(4) assms(20) by simp
  have sz: "mgr_block_size m = hash_block_size p' * sf" using assms(7) c(3) by simp
  from cached_prefix_hit [OF c(2) assms(19) [folded c(3)] assms(3) [folded c(3)] assms(4,8) found assms(21) [unfolded sz] assms(22) [unfolded sz]]
  show ?thesis unfolding sz using c(1,2) by (metis (no_types))
qed


definition demo_manager :: kv_manager where
  "demo_manager = set_blocks ''r'' [1] (SingleTypeKVCacheManager FullAttention 2 5 True False None 2 True)"

lemma demo_manager_sel [simp]:
  "mgr_kind demo_manager = FullAttention" "prefix_cacheable demo_manager" "mgr_block_size demo_manager = 2"
  "mgr_group_id demo_manager = 5" "req_blocks demo_manager ''r'' = [1]" "num_cached_block demo_manager = Map.empty"
  by (simp_all add: demo_manager_def SingleTypeKVCacheManager_def set_blocks_def req_blocks_def)

theorem cache_then_hit_witness:
  "\<exists>r' m' p'. base_cache_blocks demo_env (demo_request [1, 2, 3] [[7, 0, 1, 2]]) 3 None [] demo_manager demo_pool = Inr (r', m', p') \<and>
    pool_inv p' [1, 2, 3] \<and>
    (\<exists>computed L. full_find_longest_cache_hit (RawHashes [[7, 0, 1, 2]]) 2 [5] p' 2 False 2 = Inr (computed, L) \<and> 2 \<le> L)"
proof -
  let ?r = "demo_request [1, 2, 3] [[7, 0, 1, 2]]"
  have i: "index_ok demo_pool" using demo_pool(2) by (simp add: pool_inv_def)
  have h: "block_hash (blk demo_pool 1) = None" using hash_list_Nil [OF i, of 1] demo_pool(4,6) by simp
  have cur: "hashes_current demo_env (hash_block_size demo_pool) ?r" using demo_current demo_pool(5) by simp
  have rid: "request_id ?r = ''r''" by (simp add: demo_request_def)
  have "\<exists>r' m' p'. base_cache_blocks demo_env ?r 3 None [] demo_manager demo_pool = Inr (r', m', p') \<and> pool_inv p' [1, 2, 3] \<and>
    (\<exists>computed L. full_find_longest_cache_hit (RawHashes (block_hashes ?r)) 2 [mgr_group_id demo_manager] p' (mgr_block_size demo_manager)
        False (mgr_block_size demo_manager) = Inr (computed, L) \<and> 1 * mgr_block_size demo_manager \<le> L)"
    by (rule cache_then_hit [OF demo_pool(2) cur, where sf = 1 and bs = "[1]" and n = 1 and nc = 0 and ?r2.0 = ?r])
      (use h demo_pool(4,5) cur rid in simp_all)
  then show ?thesis by (simp only: demo_manager_sel demo_tokens mult_1)
qed

end
