(* ===== verification/CacheCoordinator.thy ===== *)
theory CacheCoordinator
  imports PrefixCaching
begin

text \<open>
  The coordinators of the KV cache groups (\<^verbatim>\<open>src/vllm/v1/core/kv_cache_coordinator.py\<close>): one
  single-type manager per group, all on one block pool, and the search for a prefix hit that every
  group can serve. Modelled are the base class and its three subclasses for models without Mamba
  groups. The lemmas show that the fixed point search ends with a hit that is valid for every group,
  and that the references of all managers together are the counts of the pool.
\<close>

section \<open>Methods the subclasses of the manager override\<close>

definition mgr_get_num_blocks_to_allocate :: "string \<Rightarrow> nat \<Rightarrow> nat list \<Rightarrow> nat \<Rightarrow> nat \<Rightarrow> bool \<Rightarrow> kv_manager \<Rightarrow> block_pool \<Rightarrow> nat res" where
  "mgr_get_num_blocks_to_allocate rid ntoks new_computed total_computed num_local cap m p =
     (case mgr_kind m of
        CircularBuffer \<Rightarrow> Inr (if req_blocks m rid \<noteq> [] then 0 else 1)
      | _ \<Rightarrow> get_num_blocks_to_allocate rid ntoks new_computed total_computed num_local cap m p)"

definition mgr_add_local_computed_blocks :: "string \<Rightarrow> nat list \<Rightarrow> nat \<Rightarrow> nat \<Rightarrow> kv_manager \<Rightarrow> block_pool \<Rightarrow> (kv_manager \<times> block_pool) res" where
  "mgr_add_local_computed_blocks rid new_computed num_local num_external m p =
     (case mgr_kind m of
        CircularBuffer \<Rightarrow> Inr (m, p)
      | CrossAttention \<Rightarrow> py_assert (length new_computed = 0) (Inr (m, p))
      | _ \<Rightarrow> add_local_computed_blocks rid new_computed num_local num_external m p)"

definition claim_ring_block :: "string \<Rightarrow> bool \<Rightarrow> kv_manager \<Rightarrow> block_pool \<Rightarrow> (nat list \<times> kv_manager \<times> block_pool) res" where
  "claim_ring_block rid record_for_zeroing m p =
     (let m1 = open_req rid m
      in if req_blocks m1 rid \<noteq> [] then Inr ([], m1, p)
         else bind_res (get_new_blocks 1 p) (\<lambda>(bs, p1).
                Inr (bs, record_ids (record_new_block_ids m \<and> record_for_zeroing) bs
                           (set_blocks rid (req_blocks m1 rid @ bs) m1), p1)))"

definition mgr_allocate_external_computed_blocks :: "string \<Rightarrow> nat \<Rightarrow> nat \<Rightarrow> bool \<Rightarrow> kv_manager \<Rightarrow> block_pool \<Rightarrow> (kv_manager \<times> block_pool) res" where
  "mgr_allocate_external_computed_blocks rid num_local num_external record_for_zeroing m p =
     (case mgr_kind m of
        CircularBuffer \<Rightarrow> bind_res (claim_ring_block rid record_for_zeroing m p) (\<lambda>(_, m1, p1). Inr (m1, p1))
      | CrossAttention \<Rightarrow> Inr (m, p)
      | _ \<Rightarrow> allocate_external_computed_blocks rid num_local num_external record_for_zeroing m p)"

definition mgr_allocate_new_blocks :: "string \<Rightarrow> nat \<Rightarrow> kv_manager \<Rightarrow> block_pool \<Rightarrow> (nat list \<times> kv_manager \<times> block_pool) res" where
  "mgr_allocate_new_blocks rid ntoks m p =
     (case mgr_kind m of
        CircularBuffer \<Rightarrow> claim_ring_block rid True m p
      | _ \<Rightarrow> allocate_new_blocks rid ntoks m p)"

section \<open>The coordinator\<close>

datatype coordinator_class = KVCacheCoordinatorNoPrefixCache | UnitaryKVCacheCoordinator | HybridKVCacheCoordinator

text \<open>Groups that share a specification are looked up together.\<close>

record spec_group =
  sg_kind :: manager_kind
  sg_group_ids :: "nat list"
  sg_use_eagle :: bool

record kv_coordinator =
  coord_class :: coordinator_class
  single_type_managers :: "kv_manager list"
  coord_pool :: block_pool
  eagle_group_ids :: "nat list"
  scheduler_block_size :: nat
  num_reprefillable_tokens :: nat
  retention_interval :: "nat option"
  enable_partial_hash_hits :: bool
  attention_groups :: "spec_group list"

text \<open>A call of every manager in turn; the state the calls share is passed along.\<close>

fun each_manager :: "(nat \<Rightarrow> kv_manager \<Rightarrow> 's \<Rightarrow> ('a \<times> kv_manager \<times> 's) res) \<Rightarrow> nat \<Rightarrow> kv_manager list \<Rightarrow> 's \<Rightarrow>
    ('a list \<times> kv_manager list \<times> 's) res" where
  "each_manager f i [] s = Inr ([], [], s)"
| "each_manager f i (m # ms) s =
     bind_res (f i m s) (\<lambda>(x, m', s'). bind_res (each_manager f (Suc i) ms s') (\<lambda>(xs, ms', s''). Inr (x # xs, m' # ms', s'')))"

definition no_result :: "('b \<times> 's) res \<Rightarrow> (unit \<times> 'b \<times> 's) res" where
  "no_result x = bind_res x (\<lambda>(m, s). Inr ((), m, s))"

definition on_managers :: "(nat \<Rightarrow> kv_manager \<Rightarrow> block_pool \<Rightarrow> ('a \<times> kv_manager \<times> block_pool) res) \<Rightarrow> kv_coordinator \<Rightarrow>
    ('a list \<times> kv_coordinator) res" where
  "on_managers f c =
     bind_res (each_manager f 0 (single_type_managers c) (coord_pool c)) (\<lambda>(xs, ms, p).
       Inr (xs, c\<lparr>single_type_managers := ms, coord_pool := p\<rparr>))"

text \<open>\<^verbatim>\<open>_validate_prefix_cache_retention_interval\<close>\<close>

definition is_sliding :: "manager_kind \<Rightarrow> bool" where
  "is_sliding k = (case k of SlidingWindow w e \<Rightarrow> True | _ \<Rightarrow> False)"

definition validate_prefix_cache_retention_interval :: "int option \<Rightarrow> nat \<Rightarrow> manager_kind list \<Rightarrow> unit res" where
  "validate_prefix_cache_retention_interval retention sched_block_size kinds =
     (case retention of
        None \<Rightarrow> Inr ()
      | Some n \<Rightarrow>
          if \<not> list_ex is_sliding kinds then (if n = 0 then Inr () else Inl ValueError)
          else if n < 0 \<or> n mod int sched_block_size \<noteq> 0 then Inl ValueError else Inr ())"

text \<open>The number of blocks a request still needs, summed over the groups. \<^verbatim>\<open>prefill_end\<close> only matters
  to Mamba groups.\<close>

definition coord_get_num_blocks_to_allocate :: "string \<Rightarrow> nat \<Rightarrow> nat list list \<Rightarrow> nat \<Rightarrow> nat \<Rightarrow> nat \<Rightarrow> bool \<Rightarrow> kv_coordinator \<Rightarrow> nat res" where
  "coord_get_num_blocks_to_allocate rid ntoks new_computed num_encoder total_computed num_local cap c =
     for_res (\<lambda>(i, m) n.
         if mgr_kind m = CrossAttention
         then bind_res (mgr_get_num_blocks_to_allocate rid num_encoder [] 0 0 cap m (coord_pool c)) (\<lambda>k. Inr (n + k))
         else bind_res (py_nth new_computed i) (\<lambda>bs.
                bind_res (mgr_get_num_blocks_to_allocate rid ntoks bs total_computed num_local cap m (coord_pool c)) (\<lambda>k. Inr (n + k))))
       (enumerate 0 (single_type_managers c)) 0"

definition allocate_new_computed_blocks :: "string \<Rightarrow> nat list list \<Rightarrow> nat \<Rightarrow> nat \<Rightarrow> nat list \<Rightarrow> kv_coordinator \<Rightarrow> kv_coordinator res" where
  "allocate_new_computed_blocks rid new_computed num_local num_external skip_zeroing c =
     (if list_ex (\<lambda>m. num_cached_block m rid \<noteq> None) (single_type_managers c)
      then py_assert (list_all (\<lambda>bs. length bs = 0) new_computed) (Inr c)
      else bind_res (on_managers (\<lambda>i m p. bind_res (py_nth new_computed i) (\<lambda>bs.
                no_result (mgr_add_local_computed_blocks rid bs num_local num_external m p))) c) (\<lambda>(_, c1).
             if num_external > 0
             then bind_res (on_managers (\<lambda>i m p.
                    no_result (mgr_allocate_external_computed_blocks rid num_local num_external (i \<notin> set skip_zeroing) m p)) c1)
                    (\<lambda>(_, c2). Inr c2)
             else Inr c1))"

definition coord_allocate_new_blocks :: "string \<Rightarrow> nat \<Rightarrow> nat \<Rightarrow> kv_coordinator \<Rightarrow> (nat list list \<times> kv_coordinator) res" where
  "coord_allocate_new_blocks rid ntoks num_encoder c =
     on_managers (\<lambda>i m p. mgr_allocate_new_blocks rid (if mgr_kind m = CrossAttention then num_encoder else ntoks) m p) c"

text \<open>Prompts have at least one token.\<close>

definition get_replay_boundaries :: "request \<Rightarrow> kv_coordinator \<Rightarrow> nat list" where
  "get_replay_boundaries r c =
     (if eagle_group_ids c = [] then [num_prompt_tokens r - 1]
      else let block = scheduler_block_size c;
               resend = (num_prompt_tokens r - 1) div block * block - block;
               extension = num_prompt_tokens r div block * block - block
           in if resend = extension then [resend] else [min resend extension, max resend extension])"

definition align_cacheable :: "nat \<Rightarrow> kv_coordinator \<Rightarrow> nat" where
  "align_cacheable ntoks c =
     (if enable_partial_hash_hits c then ntoks else ntoks div scheduler_block_size c * scheduler_block_size c)"

definition get_num_cacheable_tokens :: "nat \<Rightarrow> kv_manager \<Rightarrow> kv_coordinator \<Rightarrow> nat" where
  "get_num_cacheable_tokens computed_tokens m c =
     (let finalized = computed_tokens - num_reprefillable_tokens c
      in case coord_class c of
           HybridKVCacheCoordinator \<Rightarrow>
             let cached = align_cacheable computed_tokens c
             in if mgr_use_eagle m \<and> cached > 0
                then min finalized (align_cacheable finalized c + mgr_block_size m) else cached
         | _ \<Rightarrow> finalized)"

definition coord_cache_blocks :: "hash_env \<Rightarrow> request \<Rightarrow> nat \<Rightarrow> kv_coordinator \<Rightarrow> (request \<times> kv_coordinator) res" where
  "coord_cache_blocks env r computed_tokens c =
     (let boundaries = get_replay_boundaries r c
      in bind_res (each_manager (\<lambda>i m (r1, p).
             if \<not> mgr_enable_caching m then Inr ((), m, r1, p)
             else bind_res (mgr_cache_blocks env r1 (get_num_cacheable_tokens computed_tokens m c) (retention_interval c) boundaries m p)
                    (\<lambda>(r2, m', p'). Inr ((), m', r2, p')))
           0 (single_type_managers c) (r, coord_pool c))
         (\<lambda>(_, ms, r', p). Inr (r', c\<lparr>single_type_managers := ms, coord_pool := p\<rparr>)))"

definition coord_emit_cached_block_events :: "hash_env \<Rightarrow> request \<Rightarrow> nat list list \<Rightarrow> kv_coordinator \<Rightarrow> (request \<times> kv_coordinator) res" where
  "coord_emit_cached_block_events env r computed c =
     bind_res (for_res (\<lambda>(i, bs) (r1, p).
         if bs = [] then Inr (r1, p)
         else bind_res (py_nth (single_type_managers c) i) (\<lambda>m.
                emit_cached_block_events env r1 (length bs) (mgr_block_size m) i p))
       (enumerate 0 computed) (r, coord_pool c))
       (\<lambda>(r', p). Inr (r', c\<lparr>coord_pool := p\<rparr>))"

definition coord_reset_prefix_cache :: "kv_coordinator \<Rightarrow> bool \<times> kv_coordinator" where
  "coord_reset_prefix_cache c =
     (if single_type_managers c = [] then (True, c)
      else let (ok, p) = reset_prefix_cache (coord_pool c) in (ok, c\<lparr>coord_pool := p\<rparr>))"

definition coord_free :: "string \<Rightarrow> kv_coordinator \<Rightarrow> kv_coordinator res" where
  "coord_free rid c = bind_res (on_managers (\<lambda>i m p. no_result (mgr_free rid m p)) c) (\<lambda>(_, c1). Inr c1)"

definition coord_pop_blocks_for_free :: "string \<Rightarrow> kv_coordinator \<Rightarrow> nat list \<times> kv_coordinator" where
  "coord_pop_blocks_for_free rid c =
     (let popped = map (pop_blocks_for_free rid) (single_type_managers c)
      in (concat (map fst popped), c\<lparr>single_type_managers := map snd popped\<rparr>))"

definition coord_get_num_common_prefix_blocks :: "string \<Rightarrow> kv_coordinator \<Rightarrow> nat list \<times> kv_coordinator" where
  "coord_get_num_common_prefix_blocks rid c =
     (case coord_class c of
        KVCacheCoordinatorNoPrefixCache \<Rightarrow> (replicate (length (single_type_managers c)) 0, c)
      | _ \<Rightarrow> let ks = map (\<lambda>m. get_num_common_prefix_blocks rid m (coord_pool c)) (single_type_managers c)
             in (map fst ks, c\<lparr>single_type_managers := map snd ks\<rparr>))"

definition coord_remove_skipped_blocks :: "string \<Rightarrow> nat \<Rightarrow> nat option \<Rightarrow> kv_coordinator \<Rightarrow> kv_coordinator res" where
  "coord_remove_skipped_blocks rid processed num_prompt c =
     bind_res (on_managers (\<lambda>i m p. no_result (remove_skipped_blocks rid processed num_prompt m p)) c) (\<lambda>(_, c1). Inr c1)"

definition coord_get_blocks :: "string \<Rightarrow> kv_coordinator \<Rightarrow> nat list list" where
  "coord_get_blocks rid c = map (\<lambda>m. req_blocks m rid) (single_type_managers c)"

section \<open>A hit for every group\<close>

definition is_full_attention_spec :: "manager_kind \<Rightarrow> bool" where
  "is_full_attention_spec k = (case k of FullAttention \<Rightarrow> True | RSWA w \<Rightarrow> True | _ \<Rightarrow> False)"

definition supports_fine_grained_hash_lookup :: "manager_kind \<Rightarrow> bool" where
  "supports_fine_grained_hash_lookup k = is_full_attention_spec k"

definition eagle_proof_margin :: "nat \<Rightarrow> nat \<Rightarrow> bool \<Rightarrow> nat" where
  "eagle_proof_margin block_size hash_bs fine_grained_lookup =
     (if fine_grained_lookup \<and> block_size > hash_bs then hash_bs else block_size)"

text \<open>The class method \<^verbatim>\<open>find_longest_cache_hit\<close> of each manager class.\<close>

definition find_longest_cache_hit :: "manager_kind \<Rightarrow> block_hash_list \<Rightarrow> nat \<Rightarrow> nat list \<Rightarrow> block_pool \<Rightarrow> nat \<Rightarrow> bool \<Rightarrow> nat \<Rightarrow>
    (nat list list \<times> nat) res" where
  "find_longest_cache_hit k hashes max_length gids p block_size drop_eagle_block alignment =
     (case k of
        FullAttention \<Rightarrow> full_find_longest_cache_hit hashes max_length gids p block_size drop_eagle_block alignment
      | RSWA w \<Rightarrow> full_find_longest_cache_hit hashes max_length gids p block_size drop_eagle_block alignment
      | SlidingWindow w e \<Rightarrow> swa_find_longest_cache_hit hashes max_length gids p w block_size drop_eagle_block alignment
      | ChunkedLocal c \<Rightarrow> chunked_find_longest_cache_hit hashes max_length gids p c block_size drop_eagle_block alignment
      | CircularBuffer \<Rightarrow> Inr (map (\<lambda>_. []) gids, 0)
      | CrossAttention \<Rightarrow> Inl NotImplementedError)"

definition cache_hit_alignment :: "kv_coordinator \<Rightarrow> nat" where
  "cache_hit_alignment c = (if enable_partial_hash_hits c then hash_block_size (coord_pool c) else scheduler_block_size c)"

text \<open>
  Splitting the groups by specification. \<open>same_spec i j\<close> says that the specifications of two groups are equal,
  which the manager's kind and block size do not determine.
\<close>

fun add_to_spec_groups :: "(nat \<Rightarrow> nat \<Rightarrow> bool) \<Rightarrow> manager_kind \<Rightarrow> nat \<Rightarrow> bool \<Rightarrow> spec_group list \<Rightarrow> spec_group list" where
  "add_to_spec_groups same_spec k i ue [] = [\<lparr>sg_kind = k, sg_group_ids = [i], sg_use_eagle = ue\<rparr>]"
| "add_to_spec_groups same_spec k i ue (g # gs) =
     (if sg_kind g = k \<and> same_spec (hd (sg_group_ids g)) i
      then g\<lparr>sg_group_ids := sg_group_ids g @ [i], sg_use_eagle := sg_use_eagle g \<or> ue\<rparr> # gs
      else g # add_to_spec_groups same_spec k i ue gs)"

definition set_use_eagle :: "nat list \<Rightarrow> kv_manager list \<Rightarrow> kv_manager list" where
  "set_use_eagle gids ms = map (\<lambda>(i, m). if i \<in> set gids then m\<lparr>mgr_use_eagle := True\<rparr> else m) (enumerate 0 ms)"

definition verify_and_split_kv_cache_groups :: "(nat \<Rightarrow> nat \<Rightarrow> bool) \<Rightarrow> kv_coordinator \<Rightarrow> kv_coordinator res" where
  "verify_and_split_kv_cache_groups same_spec c =
     (let groups = fold (\<lambda>(i, m) gs. if prefix_cacheable m
                then add_to_spec_groups same_spec (mgr_kind m) i (i \<in> set (eagle_group_ids c)) gs else gs)
              (enumerate 0 (single_type_managers c)) [];
          groups' = filter (\<lambda>g. is_full_attention_spec (sg_kind g)) groups @ filter (\<lambda>g. \<not> is_full_attention_spec (sg_kind g)) groups
      in py_assert (groups \<noteq> [])
        (Inr (c\<lparr>attention_groups := groups',
                single_type_managers := set_use_eagle (concat (map sg_group_ids (filter sg_use_eagle groups')))
                  (single_type_managers c)\<rparr>)))"

text \<open>The state of the fixed point search between two groups.\<close>

record hybrid_state =
  curr_hit_length :: nat
  longest_hit_length :: nat
  hit_blocks_by_group :: "nat list option list"
  hit_length_by_group :: "nat list"
  eagle_verified :: "nat list"

definition record_hits :: "nat list \<Rightarrow> nat list list \<Rightarrow> nat \<Rightarrow> hybrid_state \<Rightarrow> hybrid_state" where
  "record_hits gids hits len st =
     fold (\<lambda>(g, bs) s. s\<lparr>hit_blocks_by_group := (hit_blocks_by_group s)[g := Some bs],
                          hit_length_by_group := (hit_length_by_group s)[g := len]\<rparr>) (zip gids hits) st"

definition hybrid_group :: "kv_coordinator \<Rightarrow> bytes list \<Rightarrow> nat \<times> spec_group \<Rightarrow> hybrid_state \<Rightarrow> hybrid_state res" where
  "hybrid_group c hs = (\<lambda>(idx, g) st.
     bind_res (py_nth (sg_group_ids g) 0) (\<lambda>first.
     bind_res (py_nth (single_type_managers c) first) (\<lambda>m.
     bind_res (py_nth (hit_blocks_by_group st) first) (\<lambda>cached.
     bind_res (py_nth (hit_length_by_group st) first) (\<lambda>cached_len.
       if is_full_attention_spec (sg_kind g) \<and> cached \<noteq> None
       then Inr (st\<lparr>curr_hit_length := min (curr_hit_length st) cached_len\<rparr>)
       else let drop_eagle = (sg_use_eagle g \<and> idx \<notin> set (eagle_verified st));
                h = hash_block_size (coord_pool c);
                max_length = (if drop_eagle
                  then min (curr_hit_length st + eagle_proof_margin (mgr_block_size m) h
                              (enable_partial_hash_hits c \<and> supports_fine_grained_hash_lookup (sg_kind g))) (length hs * h)
                  else curr_hit_length st)
            in bind_res (find_longest_cache_hit (sg_kind g) (RawHashes hs) max_length (sg_group_ids g) (coord_pool c)
                          (mgr_block_size m) drop_eagle (cache_hit_alignment c)) (\<lambda>(hits, new_len).
                 let verified = (if drop_eagle then idx # eagle_verified st
                       else if new_len < curr_hit_length st then [] else eagle_verified st);
                     st1 = record_hits (sg_group_ids g) hits new_len st
                 in Inr (st1\<lparr>eagle_verified := verified, curr_hit_length := new_len,
                            longest_hit_length := max (longest_hit_length st) new_len\<rparr>)))))))"

definition hybrid_pass :: "kv_coordinator \<Rightarrow> bytes list \<Rightarrow> hybrid_state \<Rightarrow> hybrid_state res" where
  "hybrid_pass c hs = for_res (hybrid_group c hs) (enumerate 0 (attention_groups c))"

definition is_simple_hybrid :: "kv_coordinator \<Rightarrow> bool" where
  "is_simple_hybrid c \<longleftrightarrow> (case attention_groups c of [g1, g2] \<Rightarrow> is_full_attention_spec (sg_kind g1) | _ \<Rightarrow> False)"

function hybrid_loop :: "kv_coordinator \<Rightarrow> bytes list \<Rightarrow> nat \<Rightarrow> hybrid_state \<Rightarrow> (nat \<times> hybrid_state) res" where
  "hybrid_loop c hs hit_length st =
     bind_res (hybrid_pass c hs (st\<lparr>curr_hit_length := hit_length\<rparr>)) (\<lambda>st1.
       if curr_hit_length st1 \<ge> hit_length then Inr (hit_length, st1)
       else if is_simple_hybrid c then Inr (curr_hit_length st1, st1)
       else hybrid_loop c hs (curr_hit_length st1) st1)"
  by pat_completeness auto
termination
  by (relation "measure (\<lambda>(c, hs, hit_length, st). hit_length)") auto

declare hybrid_loop.simps [simp del]

text \<open>Full attention groups are cut to the final length. None of the managers here keeps a longer hit.\<close>

definition truncate_group :: "kv_coordinator \<Rightarrow> nat \<Rightarrow> spec_group \<Rightarrow> nat list option list \<Rightarrow> nat list option list res" where
  "truncate_group c hit_length g blocks_by_group =
     (if \<not> is_full_attention_spec (sg_kind g) then Inr blocks_by_group
      else bind_res (py_nth (sg_group_ids g) 0) (\<lambda>first. bind_res (py_nth (single_type_managers c) first) (\<lambda>m.
             Inr (fold (\<lambda>i bb. bb[i := map_option (take (cdivn hit_length (mgr_block_size m))) (bb ! i)]) (sg_group_ids g) blocks_by_group))))"

definition hybrid_find_longest_cache_hit :: "bytes list \<Rightarrow> nat \<Rightarrow> kv_coordinator \<Rightarrow> (nat list list \<times> nat \<times> int) res" where
  "hybrid_find_longest_cache_hit hs max_cache_hit_length c =
     (let n = length (single_type_managers c)
      in bind_res (hybrid_loop c hs max_cache_hit_length
             \<lparr>curr_hit_length = max_cache_hit_length, longest_hit_length = 0, hit_blocks_by_group = replicate n None,
              hit_length_by_group = replicate n 0, eagle_verified = []\<rparr>) (\<lambda>(hit_length, st).
           bind_res (for_res (truncate_group c hit_length) (attention_groups c) (hit_blocks_by_group st)) (\<lambda>bb.
             Inr (map (\<lambda>b. case b of None \<Rightarrow> [] | Some bs \<Rightarrow> bs) bb, hit_length,
                  int (longest_hit_length st) - int hit_length))))"

definition coord_find_longest_cache_hit :: "bytes list \<Rightarrow> nat \<Rightarrow> kv_coordinator \<Rightarrow> (nat list list \<times> nat \<times> int) res" where
  "coord_find_longest_cache_hit hs max_cache_hit_length c =
     (case coord_class c of
        KVCacheCoordinatorNoPrefixCache \<Rightarrow> Inr (map (\<lambda>_. []) (single_type_managers c), 0, 0)
      | UnitaryKVCacheCoordinator \<Rightarrow>
          bind_res (py_nth (single_type_managers c) 0) (\<lambda>m.
            bind_res (find_longest_cache_hit (mgr_kind m) (RawHashes hs) max_cache_hit_length [0] (coord_pool c) (mgr_block_size m)
                        (0 \<in> set (eagle_group_ids c)) (mgr_block_size m)) (\<lambda>(hits, len). Inr (hits, len, 0)))
      | HybridKVCacheCoordinator \<Rightarrow> hybrid_find_longest_cache_hit hs max_cache_hit_length c)"


section \<open>The fixed point search\<close>

definition searchable :: "manager_kind \<Rightarrow> bool" where
  "searchable k \<longleftrightarrow> is_full_attention_spec k \<or> is_sliding k"

text \<open>Blocks that serve a hit of \<open>len\<close> tokens for a group of the given kind.\<close>

definition hit_valid :: "hash_env \<Rightarrow> block_pool \<Rightarrow> request \<Rightarrow> manager_kind \<Rightarrow> nat \<Rightarrow> nat list \<Rightarrow> nat \<Rightarrow> nat list list \<Rightarrow> bool" where
  "hit_valid env p r k bs gids len hits \<longleftrightarrow>
     (case k of
        SlidingWindow w e \<Rightarrow> columns (\<lambda>i g b.
          (b = null_block p \<or> cached_under p (request_chain env (hash_block_size p) r ((i + 1) * (bs div hash_block_size p) - 1)) g b) \<and>
          (len < (i + 1) * bs + (w - 1) \<longrightarrow>
            cached_under p (request_chain env (hash_block_size p) r ((i + 1) * (bs div hash_block_size p) - 1)) g b))
          gids (cdivn len bs) hits
      | _ \<Rightarrow> columns (serves env p r bs len) gids (cdivn len bs) hits)"

lemma hit_valid_columns: "hit_valid env p r k bs gids len hits \<Longrightarrow> \<exists>Q. columns Q gids (cdivn len bs) hits"
  by (cases k) (auto simp: hit_valid_def)

lemma find_hit_spec:
  assumes G: "groups_ok p gids" and cur: "hashes_current env (hash_block_size p) r" and h: "0 < hash_block_size p"
    and bs: "0 < bs" "hash_block_size p dvd bs" and a: "0 < a" "bs dvd a" and mx: "max_length \<le> num_tokens r" and k: "searchable k"
  shows "\<exists>hits len. find_longest_cache_hit k (RawHashes (block_hashes r)) max_length gids p bs drop_e a = Inr (hits, len) \<and>
    a dvd len \<and> len \<le> max_length \<and> (drop_e \<longrightarrow> len + bs \<le> max_length \<or> len = 0) \<and> hit_valid env p r k bs gids len hits"
proof -
  obtain sf where sf: "bs = hash_block_size p * sf" using bs(2) by (auto simp: dvd_def)
  have sf0: "0 < sf" and sfd: "bs div hash_block_size p = sf" using sf bs(1) h by auto
  consider (full) "is_full_attention_spec k" | (swa) w e where "k = SlidingWindow w e"
    using k by (cases k) (auto simp: searchable_def is_sliding_def)
  then show ?thesis
  proof cases
    case full
    have m: "min a bs = bs" using dvd_imp_le [OF a(2,1)] by simp
    from full_hit_spec [OF G cur h sf0 a(1) sf, of max_length drop_e] a(2) obtain hits len where
      f: "full_find_longest_cache_hit (RawHashes (block_hashes r)) max_length gids p bs drop_e a = Inr (hits, len)" "len \<le> max_length"
      "a dvd len" "columns (serves env p r bs len) gids (cdivn len bs) hits" "drop_e \<longrightarrow> len + min a bs \<le> max_length \<or> len = 0" by auto
    have "find_longest_cache_hit k (RawHashes (block_hashes r)) max_length gids p bs drop_e a = Inr (hits, len)"
      "hit_valid env p r k bs gids len hits"
      using full f(1,4) by (auto simp: find_longest_cache_hit_def hit_valid_def is_full_attention_spec_def split: manager_kind.splits)
    then show ?thesis using f(2,3,5) m by metis
  next
    case swa
    let ?val = "\<lambda>i. request_chain env (hash_block_size p) r ((i + 1) * sf - 1)"
    have inv: "gids \<noteq> []" "\<forall>g \<in> set gids. g < 2 ^ 32" using G by (auto simp: groups_ok_def)
    from swa_hit_groups [OF G cur h sf0 mx sf refl, of w drop_e a] obtain hits n where
      f: "swa_find_longest_cache_hit (RawHashes (block_hashes r)) max_length gids p w bs drop_e a = Inr (hits, n * bs)"
      "n * bs \<le> max_length" "a dvd n * bs" "drop_e \<longrightarrow> (n + 1) * bs \<le> max_length \<or> n = 0"
      "columns (\<lambda>i g b. (b = null_block p \<or> cached_under p (?val i) g b) \<and>
        (n * bs < (i + 1) * bs + (w - 1) \<longrightarrow> cached_under p (?val i) g b)) gids n hits" by blast
    have "find_longest_cache_hit k (RawHashes (block_hashes r)) max_length gids p bs drop_e a = Inr (hits, n * bs)"
      using f(1) swa by (simp add: find_longest_cache_hit_def)
    moreover have "hit_valid env p r k bs gids (n * bs) hits" using f(5) swa bs(1) by (simp add: hit_valid_def sfd)
    ultimately show ?thesis using f(2-4) by (intro exI [of _ hits] exI [of _ "n * bs"]) auto
  qed
qed


definition group_bs :: "kv_coordinator \<Rightarrow> spec_group \<Rightarrow> nat" where
  "group_bs c g = mgr_block_size (single_type_managers c ! (sg_group_ids g ! 0))"

text \<open>What the constructor of the hybrid coordinator establishes for a model without Mamba groups, on a
  well-formed pool and for a request with current block hashes.\<close>

definition group_ok :: "kv_coordinator \<Rightarrow> spec_group \<Rightarrow> bool" where
  "group_ok c g \<longleftrightarrow> sg_group_ids g \<noteq> [] \<and> distinct (sg_group_ids g) \<and> (\<forall>i \<in> set (sg_group_ids g). i < length (single_type_managers c)) \<and>
     searchable (sg_kind g) \<and> 0 < group_bs c g \<and> hash_block_size (coord_pool c) dvd group_bs c g \<and> group_bs c g dvd scheduler_block_size c"

definition hybrid_ok :: "hash_env \<Rightarrow> kv_coordinator \<Rightarrow> request \<Rightarrow> bool" where
  "hybrid_ok env c r \<longleftrightarrow> index_ok (coord_pool c) \<and> hashes_current env (hash_block_size (coord_pool c)) r \<and>
     0 < hash_block_size (coord_pool c) \<and> 0 < scheduler_block_size c \<and> \<not> enable_partial_hash_hits c \<and>
     length (single_type_managers c) \<le> 2 ^ 32 \<and> (\<forall>g \<in> set (attention_groups c). group_ok c g)"

definition recorded :: "hash_env \<Rightarrow> kv_coordinator \<Rightarrow> request \<Rightarrow> hybrid_state \<Rightarrow> spec_group \<Rightarrow> nat \<Rightarrow> bool" where
  "recorded env c r st g len \<longleftrightarrow> scheduler_block_size c dvd len \<and> (\<forall>i \<in> set (sg_group_ids g). hit_length_by_group st ! i = len) \<and>
     (\<exists>hits. map ((!) (hit_blocks_by_group st)) (sg_group_ids g) = map Some hits \<and>
        hit_valid env (coord_pool c) r (sg_kind g) (group_bs c g) (sg_group_ids g) len hits)"

definition state_ok :: "kv_coordinator \<Rightarrow> hybrid_state \<Rightarrow> bool" where
  "state_ok c st \<longleftrightarrow> length (hit_blocks_by_group st) = length (single_type_managers c) \<and>
     length (hit_length_by_group st) = length (single_type_managers c)"

definition fresh_or_recorded :: "hash_env \<Rightarrow> kv_coordinator \<Rightarrow> request \<Rightarrow> hybrid_state \<Rightarrow> spec_group \<Rightarrow> bool" where
  "fresh_or_recorded env c r st g \<longleftrightarrow> hit_blocks_by_group st ! (sg_group_ids g ! 0) = None \<or> (\<exists>len. recorded env c r st g len)"

definition same_outside :: "nat set \<Rightarrow> hybrid_state \<Rightarrow> hybrid_state \<Rightarrow> bool" where
  "same_outside I st st' \<longleftrightarrow> (\<forall>i. i \<notin> I \<longrightarrow> hit_blocks_by_group st' ! i = hit_blocks_by_group st ! i \<and>
     hit_length_by_group st' ! i = hit_length_by_group st ! i)"

lemma recorded_outside:
  assumes "same_outside I st st'" and "set (sg_group_ids g) \<inter> I = {}"
  shows "recorded env c r st' g len \<longleftrightarrow> recorded env c r st g len"
proof -
  have "\<forall>i \<in> set (sg_group_ids g). hit_blocks_by_group st' ! i = hit_blocks_by_group st ! i \<and>
      hit_length_by_group st' ! i = hit_length_by_group st ! i" using assms by (auto simp: same_outside_def)
  then show ?thesis by (simp add: recorded_def cong: map_cong)
qed

lemma fresh_outside:
  assumes "same_outside I st st'" and "set (sg_group_ids g) \<inter> I = {}" and "sg_group_ids g \<noteq> []"
  shows "fresh_or_recorded env c r st' g \<longleftrightarrow> fresh_or_recorded env c r st g"
proof -
  have "sg_group_ids g ! 0 \<notin> I" using assms(2,3) by (metis disjoint_iff length_greater_0_conv nth_mem)
  then show ?thesis using assms(1) recorded_outside [OF assms(1,2)] by (simp add: fresh_or_recorded_def same_outside_def)
qed

lemma record_hits_spec:
  assumes "distinct gids" and "length hits = length gids" and "\<forall>i \<in> set gids. i < length (hit_blocks_by_group st)"
    and "length (hit_length_by_group st) = length (hit_blocks_by_group st)"
  shows "map ((!) (hit_blocks_by_group (record_hits gids hits len st))) gids = map Some hits \<and>
    (\<forall>i \<in> set gids. hit_length_by_group (record_hits gids hits len st) ! i = len) \<and>
    same_outside (set gids) st (record_hits gids hits len st) \<and>
    length (hit_blocks_by_group (record_hits gids hits len st)) = length (hit_blocks_by_group st) \<and>
    length (hit_length_by_group (record_hits gids hits len st)) = length (hit_length_by_group st)"
  using assms
proof (induction gids arbitrary: hits st)
  case Nil
  then show ?case by (simp add: record_hits_def same_outside_def)
next
  case (Cons g gids)
  obtain b bs where hits: "hits = b # bs" using Cons.prems(2) by (cases hits) auto
  define st1 where "st1 = st\<lparr>hit_blocks_by_group := (hit_blocks_by_group st)[g := Some b],
    hit_length_by_group := (hit_length_by_group st)[g := len]\<rparr>"
  have rec: "record_hits (g # gids) hits len st = record_hits gids bs len st1" by (simp add: record_hits_def hits st1_def)
  have l1: "length (hit_blocks_by_group st1) = length (hit_blocks_by_group st)" "length (hit_length_by_group st1) = length (hit_length_by_group st)"
    by (simp_all add: st1_def)
  have prem: "\<forall>i \<in> set gids. i < length (hit_blocks_by_group st1)" "length (hit_length_by_group st1) = length (hit_blocks_by_group st1)"
    using Cons.prems by (simp_all add: l1)
  have IH: "map ((!) (hit_blocks_by_group (record_hits gids bs len st1))) gids = map Some bs"
    "\<forall>i \<in> set gids. hit_length_by_group (record_hits gids bs len st1) ! i = len" "same_outside (set gids) st1 (record_hits gids bs len st1)"
    "length (hit_blocks_by_group (record_hits gids bs len st1)) = length (hit_blocks_by_group st1)"
    "length (hit_length_by_group (record_hits gids bs len st1)) = length (hit_length_by_group st1)"
    using Cons.IH [OF _ _ prem, of bs] Cons.prems(1,2) hits by auto
  have g: "hit_blocks_by_group (record_hits gids bs len st1) ! g = Some b" "hit_length_by_group (record_hits gids bs len st1) ! g = len"
    using IH(3) Cons.prems by (auto simp: same_outside_def st1_def)
  have "same_outside (set (g # gids)) st (record_hits gids bs len st1)"
    using IH(3) by (auto simp: same_outside_def st1_def)
  then show ?case unfolding rec using IH(1,2,4,5) g l1 hits by simp
qed

lemma recorded_fields [simp]:
  "recorded env c r (st\<lparr>curr_hit_length := x\<rparr>) g len = recorded env c r st g len"
  "recorded env c r (st\<lparr>longest_hit_length := y\<rparr>) g len = recorded env c r st g len"
  "recorded env c r (st\<lparr>eagle_verified := v\<rparr>) g len = recorded env c r st g len"
  "state_ok c (st\<lparr>curr_hit_length := x\<rparr>) = state_ok c st"
  "state_ok c (st\<lparr>longest_hit_length := y\<rparr>) = state_ok c st"
  "state_ok c (st\<lparr>eagle_verified := v\<rparr>) = state_ok c st"
  "same_outside I st (st'\<lparr>curr_hit_length := x\<rparr>) = same_outside I st st'"
  "same_outside I st (st'\<lparr>longest_hit_length := y\<rparr>) = same_outside I st st'"
  "same_outside I st (st'\<lparr>eagle_verified := v\<rparr>) = same_outside I st st'"
  "fresh_or_recorded env c r (st\<lparr>curr_hit_length := x\<rparr>) g = fresh_or_recorded env c r st g"
  by (simp_all add: recorded_def state_ok_def same_outside_def fresh_or_recorded_def)

lemma hybrid_group_spec:
  assumes H: "hybrid_ok env c r" and g: "g \<in> set (attention_groups c)" and S: "state_ok c st"
    and F: "fresh_or_recorded env c r st g" and mx: "curr_hit_length st \<le> num_tokens r"
    and al: "scheduler_block_size c dvd curr_hit_length st \<or> hit_blocks_by_group st ! (sg_group_ids g ! 0) = None"
  shows "\<exists>st' len. hybrid_group c (block_hashes r) (idx, g) st = Inr st' \<and> state_ok c st' \<and> same_outside (set (sg_group_ids g)) st st' \<and>
    recorded env c r st' g len \<and> curr_hit_length st' \<le> curr_hit_length st \<and> curr_hit_length st' \<le> len \<and>
    scheduler_block_size c dvd curr_hit_length st' \<and> (\<not> is_full_attention_spec (sg_kind g) \<longrightarrow> len = curr_hit_length st')"
proof -
  let ?p = "coord_pool c" and ?bs = "group_bs c g" and ?a = "scheduler_block_size c"
  let ?ids = "sg_group_ids g" and ?f = "sg_group_ids g ! 0"
  have O: "group_ok c g" using H g by (simp add: hybrid_ok_def)
  then have ids: "?ids \<noteq> []" "distinct ?ids" "\<forall>i \<in> set ?ids. i < length (single_type_managers c)" "searchable (sg_kind g)" "0 < ?bs"
    "hash_block_size ?p dvd ?bs" "?bs dvd ?a" by (auto simp: group_ok_def)
  have f: "?f < length (single_type_managers c)" using ids(1,3) by (metis length_greater_0_conv nth_mem)
  have nth: "py_nth ?ids 0 = Inr ?f" "py_nth (single_type_managers c) ?f = Inr (single_type_managers c ! ?f)"
    "py_nth (hit_blocks_by_group st) ?f = Inr (hit_blocks_by_group st ! ?f)"
    "py_nth (hit_length_by_group st) ?f = Inr (hit_length_by_group st ! ?f)"
    using ids(1) f S by (simp_all add: py_nth_def state_ok_def)
  show ?thesis
  proof (cases "is_full_attention_spec (sg_kind g) \<and> hit_blocks_by_group st ! ?f \<noteq> None")
    case True
    then obtain len where R: "recorded env c r st g len" using F by (auto simp: fresh_or_recorded_def)
    have l: "hit_length_by_group st ! ?f = len" "?a dvd len" using R ids(1) by (auto simp: recorded_def)
    have "?a dvd min (curr_hit_length st) len" using al True l(2) by (simp add: min_def)
    moreover have "hybrid_group c (block_hashes r) (idx, g) st = Inr (st\<lparr>curr_hit_length := min (curr_hit_length st) len\<rparr>)"
      using nth True l(1) by (simp add: hybrid_group_def)
    ultimately show ?thesis using S R True
      by (intro exI [of _ "st\<lparr>curr_hit_length := min (curr_hit_length st) len\<rparr>"] exI [of _ len]) (simp add: same_outside_def)
  next
    case False
    define dr where "dr \<longleftrightarrow> sg_use_eagle g \<and> idx \<notin> set (eagle_verified st)"
    define ml where "ml = (if dr then min (curr_hit_length st + ?bs) (length (block_hashes r) * hash_block_size ?p) else curr_hit_length st)"
    have cur: "hashes_current env (hash_block_size ?p) r" "0 < hash_block_size ?p" "0 < ?a" and part: "\<not> enable_partial_hash_hits c"
      and G: "groups_ok ?p ?ids" using H ids(1,3) by (auto simp: hybrid_ok_def groups_ok_def)
    have "length (block_hashes r) * hash_block_size ?p \<le> num_tokens r" using cur(1) by (simp add: hashes_current_def)
    then have ml: "ml \<le> num_tokens r" using mx unfolding ml_def by (cases dr) (simp_all add: min.coboundedI2)
    from find_hit_spec [OF G cur(1,2) ids(5,6) cur(3) ids(7) ml ids(4), of dr] obtain hits len where
      r: "find_longest_cache_hit (sg_kind g) (RawHashes (block_hashes r)) ml ?ids ?p ?bs dr ?a = Inr (hits, len)" "?a dvd len" "len \<le> ml"
      "dr \<longrightarrow> len + ?bs \<le> ml \<or> len = 0" "hit_valid env ?p r (sg_kind g) ?bs ?ids len hits" by blast
    have le: "len \<le> curr_hit_length st" using r(3,4) by (auto simp: ml_def split: if_splits)
    have hl: "length hits = length ?ids" using hit_valid_columns [OF r(5)] columns_len by blast
    have in_range: "\<forall>i \<in> set ?ids. i < length (hit_blocks_by_group st)" "length (hit_length_by_group st) = length (hit_blocks_by_group st)"
      using ids(3) S by (auto simp: state_ok_def)
    define st1 where "st1 = record_hits ?ids hits len st"
    note R = record_hits_spec [OF ids(2) hl in_range, of len, folded st1_def]
    define st2 where "st2 = st1\<lparr>eagle_verified := (if dr then idx # eagle_verified st else if len < curr_hit_length st then [] else eagle_verified st),
      curr_hit_length := len, longest_hit_length := max (longest_hit_length st) len\<rparr>"
    have "hybrid_group c (block_hashes r) (idx, g) st = Inr st2"
    proof -
      have nf: "(is_full_attention_spec (sg_kind g) \<and> hit_blocks_by_group st ! ?f \<noteq> None) = False" using False by simp
      have mg: "(if dr then min (curr_hit_length st + eagle_proof_margin ?bs (hash_block_size ?p)
          (enable_partial_hash_hits c \<and> supports_fine_grained_hash_lookup (sg_kind g))) (length (block_hashes r) * hash_block_size ?p)
        else curr_hit_length st) = ml" using part by (simp add: ml_def eagle_proof_margin_def)
      have ca: "cache_hit_alignment c = ?a" using part by (simp add: cache_hit_alignment_def)
      show ?thesis unfolding hybrid_group_def prod.case nth bind_res_simps nf if_False Let_def dr_def [symmetric] group_bs_def [symmetric] mg ca r(1)
        by (simp add: st2_def st1_def)
    qed
    moreover have "state_ok c st2" "same_outside (set ?ids) st st2" "recorded env c r st2 g len"
      using S R r(2,5) unfolding st2_def by (simp_all, auto simp: state_ok_def recorded_def)
    ultimately show ?thesis using le r(2) by (intro exI [of _ st2] exI [of _ len]) (simp add: st2_def)
  qed
qed


lemma same_outside_trans:
  "same_outside I st st1 \<Longrightarrow> same_outside J st1 st2 \<Longrightarrow> same_outside (I \<union> J) st st2"
  by (simp add: same_outside_def)

text \<open>One pass over the groups: every group has a valid hit that reaches the candidate length, and the
  last group, when it is sliding, exactly that length.\<close>

lemma hybrid_pass_spec:
  assumes H: "hybrid_ok env c r" and "set gs \<subseteq> set (attention_groups c)" and "distinct (concat (map sg_group_ids gs))" and "state_ok c st"
    and "\<forall>g \<in> set gs. fresh_or_recorded env c r st g" and "curr_hit_length st \<le> num_tokens r"
    and "scheduler_block_size c dvd curr_hit_length st \<or> (\<forall>g \<in> set gs. hit_blocks_by_group st ! (sg_group_ids g ! 0) = None)"
  shows "\<exists>st'. for_res (hybrid_group c (block_hashes r)) (enumerate idx gs) st = Inr st' \<and> state_ok c st' \<and>
    same_outside (set (concat (map sg_group_ids gs))) st st' \<and> curr_hit_length st' \<le> curr_hit_length st \<and>
    (gs \<noteq> [] \<longrightarrow> scheduler_block_size c dvd curr_hit_length st') \<and>
    (\<forall>g \<in> set gs. \<exists>len. recorded env c r st' g len \<and> curr_hit_length st' \<le> len \<and>
       (\<not> is_full_attention_spec (sg_kind g) \<longrightarrow> len \<le> curr_hit_length st)) \<and>
    (gs \<noteq> [] \<and> \<not> is_full_attention_spec (sg_kind (last gs)) \<longrightarrow> recorded env c r st' (last gs) (curr_hit_length st'))"
  using assms(2-)
proof (induction gs arbitrary: idx st)
  case Nil
  then show ?case by (simp add: same_outside_def)
next
  case (Cons g gs)
  let ?a = "scheduler_block_size c"
  from hybrid_group_spec [OF H, of g st idx] Cons.prems obtain st1 len where
    1: "hybrid_group c (block_hashes r) (idx, g) st = Inr st1" "state_ok c st1" "same_outside (set (sg_group_ids g)) st st1"
    "recorded env c r st1 g len" "curr_hit_length st1 \<le> curr_hit_length st" "curr_hit_length st1 \<le> len" "?a dvd curr_hit_length st1"
    "\<not> is_full_attention_spec (sg_kind g) \<longrightarrow> len = curr_hit_length st1" by auto
  have disj: "set (sg_group_ids g') \<inter> set (sg_group_ids g) = {}" "sg_group_ids g' \<noteq> []" if "g' \<in> set gs" for g'
    using Cons.prems(1,2) that H by (auto simp: hybrid_ok_def group_ok_def)
  have "\<forall>g' \<in> set gs. fresh_or_recorded env c r st1 g'"
    using Cons.prems(4) fresh_outside [OF 1(3) disj] by simp
  with Cons.IH [of st1 "Suc idx"] Cons.prems 1(2,5,7) obtain st' where
    2: "for_res (hybrid_group c (block_hashes r)) (enumerate (Suc idx) gs) st1 = Inr st'" "state_ok c st'"
    "same_outside (set (concat (map sg_group_ids gs))) st1 st'" "curr_hit_length st' \<le> curr_hit_length st1"
    "gs \<noteq> [] \<longrightarrow> ?a dvd curr_hit_length st'"
    "\<forall>g \<in> set gs. \<exists>len. recorded env c r st' g len \<and> curr_hit_length st' \<le> len \<and>
       (\<not> is_full_attention_spec (sg_kind g) \<longrightarrow> len \<le> curr_hit_length st1)"
    "gs \<noteq> [] \<and> \<not> is_full_attention_spec (sg_kind (last gs)) \<longrightarrow> recorded env c r st' (last gs) (curr_hit_length st')" by auto
  have "set (sg_group_ids g) \<inter> set (concat (map sg_group_ids gs)) = {}" using Cons.prems(2) by auto
  then have R: "recorded env c r st' g len" using recorded_outside [OF 2(3)] 1(4) by blast
  have last: "gs = [] \<Longrightarrow> st' = st1" using 2(1) by simp
  have run: "for_res (hybrid_group c (block_hashes r)) (enumerate idx (g # gs)) st = Inr st'" using 1(1) 2(1) by simp
  have out: "same_outside (set (concat (map sg_group_ids (g # gs)))) st st'" using same_outside_trans [OF 1(3) 2(3)] by simp
  have all: "\<exists>len. recorded env c r st' g' len \<and> curr_hit_length st' \<le> len \<and>
      (\<not> is_full_attention_spec (sg_kind g') \<longrightarrow> len \<le> curr_hit_length st)" if "g' \<in> set (g # gs)" for g'
  proof (cases "g' = g")
    case True
    then show ?thesis using R 1(5,6,8) 2(4) by (intro exI [of _ len]) auto
  next
    case False
    then show ?thesis using 2(6) that 1(5) by (meson le_trans set_ConsD)
  qed
  have "?a dvd curr_hit_length st'" using 2(5) 1(7) last by (cases gs) auto
  moreover have "\<not> is_full_attention_spec (sg_kind (last (g # gs))) \<longrightarrow> recorded env c r st' (last (g # gs)) (curr_hit_length st')"
    using 2(7) 1(4,8) last by (cases gs) auto
  ultimately show ?case using run 2(2,4) 1(5) out all by (intro exI [of _ st']) auto
qed

lemma hybrid_loop_spec:
  assumes H: "hybrid_ok env c r" and ne: "attention_groups c \<noteq> []" and d: "distinct (concat (map sg_group_ids (attention_groups c)))"
    and "state_ok c st" and "\<forall>g \<in> set (attention_groups c). fresh_or_recorded env c r st g" and "hit_length \<le> num_tokens r"
    and "scheduler_block_size c dvd hit_length \<or> (\<forall>g \<in> set (attention_groups c). hit_blocks_by_group st ! (sg_group_ids g ! 0) = None)"
  shows "\<exists>len st'. hybrid_loop c (block_hashes r) hit_length st = Inr (len, st') \<and> state_ok c st' \<and> len \<le> hit_length \<and>
    scheduler_block_size c dvd len \<and>
    (\<forall>g \<in> set (attention_groups c). \<exists>l. recorded env c r st' g l \<and> len \<le> l \<and> (\<not> is_full_attention_spec (sg_kind g) \<longrightarrow> l = len))"
  using assms(4-)
proof (induction hit_length arbitrary: st rule: less_induct)
  case (less hit_length)
  let ?st = "st\<lparr>curr_hit_length := hit_length\<rparr>"
  from hybrid_pass_spec [OF H order_refl d, of ?st 0] less.prems obtain st1 where
    1: "hybrid_pass c (block_hashes r) ?st = Inr st1" "state_ok c st1" "curr_hit_length st1 \<le> hit_length"
    "scheduler_block_size c dvd curr_hit_length st1"
    "\<forall>g \<in> set (attention_groups c). \<exists>len. recorded env c r st1 g len \<and> curr_hit_length st1 \<le> len \<and>
       (\<not> is_full_attention_spec (sg_kind g) \<longrightarrow> len \<le> hit_length)"
    "\<not> is_full_attention_spec (sg_kind (last (attention_groups c))) \<longrightarrow> recorded env c r st1 (last (attention_groups c)) (curr_hit_length st1)"
    using ne by (auto simp: hybrid_pass_def)
  have run: "hybrid_loop c (block_hashes r) hit_length st = (if curr_hit_length st1 \<ge> hit_length then Inr (hit_length, st1)
      else if is_simple_hybrid c then Inr (curr_hit_length st1, st1) else hybrid_loop c (block_hashes r) (curr_hit_length st1) st1)"
    by (subst hybrid_loop.simps) (simp add: 1(1))
  consider (fixpoint) "curr_hit_length st1 \<ge> hit_length" | (simple) "curr_hit_length st1 < hit_length" "is_simple_hybrid c"
    | (again) "curr_hit_length st1 < hit_length" "\<not> is_simple_hybrid c" by linarith
  then show ?case
  proof cases
    case fixpoint
    then have e: "curr_hit_length st1 = hit_length" using 1(3) by simp
    then have "\<forall>g \<in> set (attention_groups c). \<exists>l. recorded env c r st1 g l \<and> hit_length \<le> l \<and>
        (\<not> is_full_attention_spec (sg_kind g) \<longrightarrow> l = hit_length)" using 1(5) by (metis le_antisym)
    then show ?thesis using run fixpoint e 1(2,4) by (intro exI [of _ hit_length] exI [of _ st1]) simp
  next
    case simple
    then obtain g1 g2 where gs: "attention_groups c = [g1, g2]" "is_full_attention_spec (sg_kind g1)"
      by (auto simp: is_simple_hybrid_def split: list.splits)
    have "\<exists>l. recorded env c r st1 g l \<and> curr_hit_length st1 \<le> l \<and> (\<not> is_full_attention_spec (sg_kind g) \<longrightarrow> l = curr_hit_length st1)"
      if "g \<in> set (attention_groups c)" for g
    proof (cases "is_full_attention_spec (sg_kind g)")
      case True
      then show ?thesis using 1(5) that by blast
    next
      case False
      then have "g = last (attention_groups c)" using that gs by auto
      then show ?thesis using 1(6) False by (intro exI [of _ "curr_hit_length st1"]) simp
    qed
    then show ?thesis using run simple 1(2-4) by (intro exI [of _ "curr_hit_length st1"] exI [of _ st1]) simp
  next
    case again
    have f: "\<forall>g \<in> set (attention_groups c). fresh_or_recorded env c r st1 g" using 1(5) by (auto simp: fresh_or_recorded_def)
    have n: "curr_hit_length st1 \<le> num_tokens r" using 1(3) less.prems(3) by (rule le_trans)
    from less.IH [OF again(1) 1(2) f n] 1(4) obtain len st' where
      "hybrid_loop c (block_hashes r) (curr_hit_length st1) st1 = Inr (len, st')" "state_ok c st'" "len \<le> curr_hit_length st1"
      "scheduler_block_size c dvd len"
      "\<forall>g \<in> set (attention_groups c). \<exists>l. recorded env c r st' g l \<and> len \<le> l \<and> (\<not> is_full_attention_spec (sg_kind g) \<longrightarrow> l = len)"
      by blast
    then show ?thesis using run again 1(3) by (intro exI [of _ len] exI [of _ st']) simp
  qed
qed


lemma truncate_fold:
  assumes "distinct ids" and "\<forall>i \<in> set ids. i < length bb"
  shows "length (fold (\<lambda>i b. b[i := F (b ! i)]) ids bb) = length bb" and
    "j < length bb \<Longrightarrow> fold (\<lambda>i b. b[i := F (b ! i)]) ids bb ! j = (if j \<in> set ids then F (bb ! j) else bb ! j)"
  using assms
proof (induction ids arbitrary: bb)
  case (Cons i ids)
  { case 1 then show ?case using Cons.IH(1) [of "bb[i := F (bb ! i)]"] by simp
  next case 2 then show ?case using Cons.IH(2) [of "bb[i := F (bb ! i)]"] by (auto simp: nth_list_update) }
qed simp_all

text \<open>What truncation does to the table of hits, for a group of it.\<close>

definition cut :: "kv_coordinator \<Rightarrow> nat \<Rightarrow> spec_group \<Rightarrow> nat list option \<Rightarrow> nat list option" where
  "cut c len g = (if is_full_attention_spec (sg_kind g) then map_option (take (cdivn len (group_bs c g))) else (\<lambda>x. x))"

lemma truncate_spec:
  assumes "\<forall>g \<in> set gs. group_ok c g" and "distinct (concat (map sg_group_ids gs))" and "length bb = length (single_type_managers c)"
  shows "\<exists>bb'. for_res (truncate_group c len) gs bb = Inr bb' \<and> length bb' = length bb \<and>
    (\<forall>g \<in> set gs. \<forall>i \<in> set (sg_group_ids g). bb' ! i = cut c len g (bb ! i)) \<and>
    (\<forall>i < length bb. i \<notin> set (concat (map sg_group_ids gs)) \<longrightarrow> bb' ! i = bb ! i)"
  using assms
proof (induction gs arbitrary: bb)
  case (Cons g gs)
  have O: "sg_group_ids g \<noteq> []" "distinct (sg_group_ids g)" "\<forall>i \<in> set (sg_group_ids g). i < length bb"
    using Cons.prems(1,3) by (auto simp: group_ok_def)
  then have f: "sg_group_ids g ! 0 < length (single_type_managers c)" using Cons.prems(3) by (metis length_greater_0_conv nth_mem)
  define b1 where "b1 = fold (\<lambda>i b. b[i := cut c len g (b ! i)]) (sg_group_ids g) bb"
  have l1: "length b1 = length bb" and n1: "\<And>j. j < length bb \<Longrightarrow> b1 ! j = (if j \<in> set (sg_group_ids g) then cut c len g (bb ! j) else bb ! j)"
    using truncate_fold [OF O(2,3)] by (simp_all add: b1_def)
  have "truncate_group c len g bb = Inr b1"
  proof (cases "is_full_attention_spec (sg_kind g)")
    case True
    then show ?thesis using O(1) f by (simp add: truncate_group_def b1_def cut_def py_nth_def group_bs_def)
  next
    case False
    then have "b1 = bb" using l1 n1 by (intro nth_equalityI) (auto simp: cut_def)
    then show ?thesis using False by (simp add: truncate_group_def)
  qed
  moreover from Cons.IH [of b1] Cons.prems l1 obtain bb' where
    2: "for_res (truncate_group c len) gs b1 = Inr bb'" "length bb' = length bb"
    "\<forall>g \<in> set gs. \<forall>i \<in> set (sg_group_ids g). bb' ! i = cut c len g (b1 ! i)"
    "\<forall>i < length bb. i \<notin> set (concat (map sg_group_ids gs)) \<longrightarrow> bb' ! i = b1 ! i" by auto
  moreover have "bb' ! i = cut c len g' (bb ! i)" if g': "g' \<in> set (g # gs)" and i: "i \<in> set (sg_group_ids g')" for g' i
  proof (cases "i \<in> set (sg_group_ids g)")
    case True
    then have "i \<notin> set (concat (map sg_group_ids gs))" using Cons.prems(2) by auto
    moreover then have "g' = g" using g' i by auto
    ultimately show ?thesis using 2(4) n1 True O(3) by simp
  next
    case False
    then have "g' \<in> set gs" using g' i by auto
    moreover have "i < length bb" using Cons.prems(1,3) g' i by (auto simp: group_ok_def)
    ultimately show ?thesis using 2(3) n1 False i by simp
  qed
  moreover have "bb' ! i = bb ! i" if "i < length bb" "i \<notin> set (concat (map sg_group_ids (g # gs)))" for i
    using 2(4) n1 that by simp
  ultimately show ?case by (intro exI [of _ bb']) simp
qed simp

lemma cut_valid:
  assumes R: "recorded env c r st g l" and le: "len \<le> l" "\<not> is_full_attention_spec (sg_kind g) \<longrightarrow> l = len" and bs: "0 < group_bs c g"
  shows "\<exists>hits. map (\<lambda>i. cut c len g (hit_blocks_by_group st ! i)) (sg_group_ids g) = map Some hits \<and>
    hit_valid env (coord_pool c) r (sg_kind g) (group_bs c g) (sg_group_ids g) len hits"
proof -
  from R obtain hits where h: "map ((!) (hit_blocks_by_group st)) (sg_group_ids g) = map Some hits"
    "hit_valid env (coord_pool c) r (sg_kind g) (group_bs c g) (sg_group_ids g) l hits" by (auto simp: recorded_def)
  have m: "map (\<lambda>i. cut c len g (hit_blocks_by_group st ! i)) (sg_group_ids g) = map (cut c len g) (map Some hits)"
    unfolding h(1) [symmetric] by simp
  show ?thesis
  proof (cases "is_full_attention_spec (sg_kind g)")
    case False
    then show ?thesis using m h(2) le(2) by (intro exI [of _ hits]) (simp add: cut_def)
  next
    case True
    let ?n = "cdivn len (group_bs c g)" and ?S = "serves env (coord_pool c) r (group_bs c g)"
    have hv: "hit_valid env (coord_pool c) r (sg_kind g) (group_bs c g) (sg_group_ids g) x ys \<longleftrightarrow>
        columns (?S x) (sg_group_ids g) (cdivn x (group_bs c g)) ys" for x ys
      using True by (simp add: hit_valid_def is_full_attention_spec_def split: manager_kind.splits)
    have "columns (?S l) (sg_group_ids g) ?n (map (take ?n) hits)"
      using h(2) cdivn_mono [OF bs le(1)] unfolding hv by (rule columns_take)
    then have "columns (?S len) (sg_group_ids g) ?n (map (take ?n) hits)"
      by (rule columns_mono) (use serves_less le(1) in blast)
    then show ?thesis using m True hv by (intro exI [of _ "map (take ?n) hits"]) (simp add: cut_def)
  qed
qed

text \<open>C9: in a model with full attention and sliding window groups, the search for a prefix that all groups can serve ends. Its
  length is no longer than asked and a multiple of the scheduler block size, and what it returns for
  every group is a valid hit of exactly that length: for full attention all its blocks are registered
  under hashes of the request's prefix, and for a sliding window all blocks inside the window are.\<close>

theorem hybrid_hit_consistent:
  assumes "coord_class c = HybridKVCacheCoordinator" and "hybrid_ok env c r" and "attention_groups c \<noteq> []"
    and "distinct (concat (map sg_group_ids (attention_groups c)))" and "max_length \<le> num_tokens r"
  shows "\<exists>blocks len u. coord_find_longest_cache_hit (block_hashes r) max_length c = Inr (blocks, len, u) \<and>
    len \<le> max_length \<and> scheduler_block_size c dvd len \<and> length blocks = length (single_type_managers c) \<and>
    (\<forall>g \<in> set (attention_groups c).
      hit_valid env (coord_pool c) r (sg_kind g) (group_bs c g) (sg_group_ids g) len (map ((!) blocks) (sg_group_ids g)))"
proof -
  let ?n = "length (single_type_managers c)"
  define st where "st = \<lparr>curr_hit_length = max_length, longest_hit_length = 0, hit_blocks_by_group = replicate ?n None,
    hit_length_by_group = replicate ?n 0, eagle_verified = []\<rparr>"
  have O: "\<forall>g \<in> set (attention_groups c). group_ok c g" using assms(2) by (simp add: hybrid_ok_def)
  have none: "hit_blocks_by_group st ! (sg_group_ids g ! 0) = None" if "g \<in> set (attention_groups c)" for g
  proof -
    have "sg_group_ids g ! 0 < ?n" using O that unfolding group_ok_def by (metis length_greater_0_conv nth_mem)
    then show ?thesis by (simp add: st_def)
  qed
  from hybrid_loop_spec [OF assms(2-4), of st max_length] none assms(5) obtain len st' where
    1: "hybrid_loop c (block_hashes r) max_length st = Inr (len, st')" "state_ok c st'" "len \<le> max_length" "scheduler_block_size c dvd len"
    "\<forall>g \<in> set (attention_groups c). \<exists>l. recorded env c r st' g l \<and> len \<le> l \<and> (\<not> is_full_attention_spec (sg_kind g) \<longrightarrow> l = len)"
    by (auto simp: fresh_or_recorded_def state_ok_def st_def)
  from truncate_spec [OF O assms(4), of "hit_blocks_by_group st'" len] 1(2) obtain bb where
    2: "for_res (truncate_group c len) (attention_groups c) (hit_blocks_by_group st') = Inr bb" "length bb = ?n"
    "\<forall>g \<in> set (attention_groups c). \<forall>i \<in> set (sg_group_ids g). bb ! i = cut c len g (hit_blocks_by_group st' ! i)"
    by (auto simp: state_ok_def)
  define blocks where "blocks = map (\<lambda>b. case b of None \<Rightarrow> [] | Some bs \<Rightarrow> bs) bb"
  have run: "coord_find_longest_cache_hit (block_hashes r) max_length c = Inr (blocks, len, int (longest_hit_length st') - int len)"
    using assms(1) 1(1) 2(1) by (simp add: coord_find_longest_cache_hit_def hybrid_find_longest_cache_hit_def Let_def st_def blocks_def)
  have "hit_valid env (coord_pool c) r (sg_kind g) (group_bs c g) (sg_group_ids g) len (map ((!) blocks) (sg_group_ids g))"
    if g: "g \<in> set (attention_groups c)" for g
  proof -
    have ids: "\<forall>i \<in> set (sg_group_ids g). i < ?n" and bs: "0 < group_bs c g" using O g by (auto simp: group_ok_def)
    from 1(5) g cut_valid [OF _ _ _ bs] obtain hits where
      h: "map (\<lambda>i. cut c len g (hit_blocks_by_group st' ! i)) (sg_group_ids g) = map Some hits"
      "hit_valid env (coord_pool c) r (sg_kind g) (group_bs c g) (sg_group_ids g) len hits" by blast
    have e: "map ((!) bb) (sg_group_ids g) = map Some hits" unfolding h(1) [symmetric] using 2(3) g by simp
    have "map (\<lambda>i. case bb ! i of None \<Rightarrow> [] | Some bs \<Rightarrow> bs) (sg_group_ids g) = hits"
      using arg_cong [OF e, of "map (\<lambda>b. case b of None \<Rightarrow> [] | Some bs \<Rightarrow> bs)"] by (simp add: comp_def)
    moreover have "map ((!) blocks) (sg_group_ids g) = map (\<lambda>i. case bb ! i of None \<Rightarrow> [] | Some bs \<Rightarrow> bs) (sg_group_ids g)"
      using ids 2(2) by (simp add: blocks_def)
    ultimately show ?thesis using h(2) by simp
  qed
  then show ?thesis using run 1(3,4) 2(2) by (intro exI [of _ blocks] exI [of _ len]) (simp add: blocks_def)
qed


text \<open>A coordinator with a full attention and a sliding window group, as splitting its groups leaves it.\<close>

definition demo_coordinator :: kv_coordinator where
  "demo_coordinator =
     \<lparr>coord_class = HybridKVCacheCoordinator,
      single_type_managers = [SingleTypeKVCacheManager FullAttention 2 0 True False None 2 True,
        SingleTypeKVCacheManager (SlidingWindow 3 0) 2 1 True False None 2 True],
      coord_pool = demo_pool, eagle_group_ids = [], scheduler_block_size = 2, num_reprefillable_tokens = 0,
      retention_interval = None, enable_partial_hash_hits = False, attention_groups = []\<rparr>"

definition demo_split :: kv_coordinator where
  "demo_split = demo_coordinator\<lparr>attention_groups :=
     [\<lparr>sg_kind = FullAttention, sg_group_ids = [0], sg_use_eagle = False\<rparr>,
      \<lparr>sg_kind = SlidingWindow 3 0, sg_group_ids = [1], sg_use_eagle = False\<rparr>]\<rparr>"

lemma set_use_eagle_Nil [simp]: "set_use_eagle [] ms = ms"
  by (simp add: set_use_eagle_def split_def)

lemma demo_split: "verify_and_split_kv_cache_groups (=) demo_coordinator = Inr demo_split"
  by (simp add: verify_and_split_kv_cache_groups_def demo_coordinator_def demo_split_def SingleTypeKVCacheManager_def
      is_full_attention_spec_def Let_def)

lemma demo_split_sel [simp]:
  "coord_class demo_split = HybridKVCacheCoordinator" "coord_pool demo_split = demo_pool" "scheduler_block_size demo_split = 2"
  "attention_groups demo_split = [\<lparr>sg_kind = FullAttention, sg_group_ids = [0], sg_use_eagle = False\<rparr>,
      \<lparr>sg_kind = SlidingWindow 3 0, sg_group_ids = [1], sg_use_eagle = False\<rparr>]"
  "\<not> enable_partial_hash_hits demo_split" "single_type_managers demo_split = single_type_managers demo_coordinator"
  by (simp_all add: demo_split_def demo_coordinator_def)

theorem hybrid_hit_consistent_witness:
  "\<exists>blocks len u. verify_and_split_kv_cache_groups (=) demo_coordinator = Inr demo_split \<and>
     coord_find_longest_cache_hit [[7, 0, 1, 2]] 3 demo_split = Inr (blocks, len, u) \<and> len \<le> 3 \<and> 2 dvd len"
proof -
  let ?r = "demo_request [1, 2, 3] [[7, 0, 1, 2]]"
  have "hybrid_ok demo_env demo_split ?r"
    using demo_pool(2,5) demo_current
    by (simp add: hybrid_ok_def group_ok_def group_bs_def searchable_def is_full_attention_spec_def is_sliding_def demo_coordinator_def
        SingleTypeKVCacheManager_def pool_inv_def)
  from hybrid_hit_consistent [OF _ this, of 3] show ?thesis using demo_split by auto
qed

end
