(* ===== verification/AllocationBudget.thy ===== *)
theory AllocationBudget
  imports CacheCoordinator
begin

text \<open>
  Calls of all managers on one pool. A locale states what such a call promises: it succeeds when
  the pool has as many free blocks as the call may take, takes no more, and keeps the accounts, so
  that the reference count of every block is the number of its holders. The lemmas of the locale lift
  this to the calls of all managers in turn, and each operation of the managers is an
  interpretation.
\<close>

section \<open>The accounts of all managers\<close>

definition all_held :: "kv_manager list \<Rightarrow> nat \<Rightarrow> nat" where
  "all_held ms b = sum_list (map (\<lambda>m. held m b) ms)"

definition all_accounted :: "(nat \<Rightarrow> nat) \<Rightarrow> kv_manager list \<Rightarrow> block_pool \<Rightarrow> bool" where
  "all_accounted ext ms p \<longleftrightarrow> null_block p = 0 \<and> (\<forall>m \<in> set ms. mgr_wf (length (blocks p)) m) \<and>
     (\<forall>b < length (blocks p). b \<noteq> 0 \<longrightarrow> rc p b = int (ext b + all_held ms b))"

lemma all_held_simps [simp]: "all_held [] b = 0" "all_held (m # ms) b = held m b + all_held ms b"
  by (simp_all add: all_held_def)

lemma all_accounted_head:
  "all_accounted ext (m # ms) p \<Longrightarrow> accounted (\<lambda>b. ext b + all_held ms b) m p"
  by (auto simp: all_accounted_def accounted_def)

lemma all_accounted_tail:
  assumes "all_accounted ext (m # ms) p" and "accounted (\<lambda>b. ext b + all_held ms b) m' p'" and "same_config p p'"
  shows "all_accounted (\<lambda>b. ext b + held m' b) ms p'"
  using assms by (auto simp: all_accounted_def accounted_def same_config_def)

lemma all_accounted_join:
  assumes "all_accounted (\<lambda>b. ext b + held m b) ms p" and "mgr_wf (length (blocks p)) m"
  shows "all_accounted ext (m # ms) p"
  using assms by (auto simp: all_accounted_def)

text \<open>The fields of a manager that only the constructor sets.\<close>

definition static :: "kv_manager \<Rightarrow> kv_manager \<Rightarrow> bool" where
  "static m m' \<longleftrightarrow> mgr_kind m' = mgr_kind m \<and> mgr_block_size m' = mgr_block_size m \<and> mgr_group_id m' = mgr_group_id m \<and>
     mgr_enable_caching m' = mgr_enable_caching m \<and> prefix_cacheable m' = prefix_cacheable m \<and>
     max_admission_blocks_per_request m' = max_admission_blocks_per_request m"

lemma static_refl [simp]: "static m m"
  by (simp add: static_def)

lemma static_trans: "static m m1 \<Longrightarrow> static m1 m2 \<Longrightarrow> static m m2"
  by (simp add: static_def)

lemma static_upd [simp]:
  "static m (set_blocks rid bs m') = static m m'" "static m (open_req rid m') = static m m'" "static m (record_ids b ids m') = static m m'"
  "static m (m'\<lparr>num_cached_block := x\<rparr>) = static m m'" "static m (m'\<lparr>partial_hit_reqs := y\<rparr>) = static m m'"
  "static m (m'\<lparr>pending_cow_copies := z\<rparr>) = static m m'" "static m (m'\<lparr>new_block_ids := u\<rparr>) = static m m'"
  by (simp_all add: static_def set_blocks_def open_req_def record_ids_def)

section \<open>The contract of a call\<close>

fun costs :: "(nat \<Rightarrow> kv_manager \<Rightarrow> nat) \<Rightarrow> nat \<Rightarrow> kv_manager list \<Rightarrow> nat" where
  "costs cost i [] = 0"
| "costs cost i (m # ms) = cost i m + costs cost (Suc i) ms"

locale manager_step =
  fixes f :: "nat \<Rightarrow> kv_manager \<Rightarrow> block_pool \<Rightarrow> ('a \<times> kv_manager \<times> block_pool) res"
    and pre :: "nat \<Rightarrow> kv_manager \<Rightarrow> block_pool \<Rightarrow> bool"
    and cost :: "nat \<Rightarrow> kv_manager \<Rightarrow> nat"
    and post :: "nat \<Rightarrow> kv_manager \<Rightarrow> 'a \<Rightarrow> kv_manager \<Rightarrow> bool"
    and evolves :: "block_pool \<Rightarrow> block_pool \<Rightarrow> bool"
  assumes stable: "pre i m p \<Longrightarrow> evolves p p' \<Longrightarrow> pre i m p'"
    and step: "pool_inv p free \<Longrightarrow> accounted ext m p \<Longrightarrow> pre i m p \<Longrightarrow> cost i m \<le> length free \<Longrightarrow>
      \<exists>x m' p' free'. f i m p = Inr (x, m', p') \<and> pool_inv p' free' \<and> accounted ext m' p' \<and> same_config p p' \<and>
        evolves p p' \<and> length free \<le> length free' + cost i m \<and> post i m x m'"
begin

lemma each_step:
  assumes "pool_inv p free" and "all_accounted ext ms p" and "\<forall>k < length ms. pre (i + k) (ms ! k) p" and "costs cost i ms \<le> length free"
  shows "\<exists>xs ms' p' free'. each_manager f i ms p = Inr (xs, ms', p') \<and> pool_inv p' free' \<and> all_accounted ext ms' p' \<and>
    same_config p p' \<and> length free \<le> length free' + costs cost i ms \<and> length xs = length ms \<and> length ms' = length ms \<and>
    (\<forall>k < length ms. post (i + k) (ms ! k) (xs ! k) (ms' ! k))"
  using assms
proof (induction ms arbitrary: i p free ext)
  case Nil
  then show ?case by auto
next
  case (Cons m ms)
  have pre0: "pre i m p" using Cons.prems(3) by force
  have c: "cost i m \<le> length free" using Cons.prems(4) by simp
  from step [OF Cons.prems(1) all_accounted_head [OF Cons.prems(2)] pre0 c] obtain x m' p1 free1 where
    1: "f i m p = Inr (x, m', p1)" "pool_inv p1 free1" "accounted (\<lambda>b. ext b + all_held ms b) m' p1" "same_config p p1" "evolves p p1"
    "length free \<le> length free1 + cost i m" "post i m x m'" by blast
  have pre1: "\<forall>k < length ms. pre (Suc i + k) (ms ! k) p1"
  proof (intro allI impI)
    fix k assume "k < length ms"
    then have "pre (i + Suc k) ((m # ms) ! Suc k) p" using Cons.prems(3) [rule_format, of "Suc k"] by simp
    then show "pre (Suc i + k) (ms ! k) p1" using stable [OF _ 1(5)] by simp
  qed
  have c1: "costs cost (Suc i) ms \<le> length free1" using Cons.prems(4) 1(6) by simp
  from Cons.IH [OF 1(2) all_accounted_tail [OF Cons.prems(2) 1(3,4)] pre1 c1] obtain xs ms' p' free' where
    2: "each_manager f (Suc i) ms p1 = Inr (xs, ms', p')" "pool_inv p' free'" "all_accounted (\<lambda>b. ext b + held m' b) ms' p'"
    "same_config p1 p'" "length free1 \<le> length free' + costs cost (Suc i) ms" "length xs = length ms" "length ms' = length ms"
    "\<forall>k < length ms. post (Suc i + k) (ms ! k) (xs ! k) (ms' ! k)" by blast
  have cfg: "same_config p p'" using 1(4) 2(4) by (rule same_config_trans)
  have "mgr_wf (length (blocks p')) m'" using 1(3) 2(4) by (simp add: accounted_def same_config_def)
  then have acc: "all_accounted ext (m' # ms') p'" by (rule all_accounted_join [OF 2(3)])
  have "post (i + k) ((m # ms) ! k) ((x # xs) ! k) ((m' # ms') ! k)" if "k < length (m # ms)" for k
    using that 1(7) 2(8) by (cases k) auto
  then show ?case using 1(1,6) 2 cfg acc
    by (intro exI [of _ "x # xs"] exI [of _ "m' # ms'"] exI [of _ p'] exI [of _ free']) auto
qed

end


section \<open>The operations meet the contract\<close>

lemma get_new_blocks_total:
  assumes "pool_inv p free" and "n \<le> length free"
  shows "\<exists>p'. get_new_blocks n p = Inr (take n free, p') \<and> pool_inv p' (drop n free) \<and> same_config p p'"
  using get_new_blocks_spec [OF assms] by metis

text \<open>Freeing a request.\<close>

lemma mgr_free_fields:
  "mgr_free rid m p = Inr (m', p') \<Longrightarrow> static m m' \<and> num_cached_block m' = (num_cached_block m)(rid := None) \<and>
     partial_hit_reqs m' = (partial_hit_reqs m)(rid := None)"
  by (auto simp: mgr_free_def pop_blocks_for_free_def static_def)

definition freed_request :: "string \<Rightarrow> kv_manager \<Rightarrow> kv_manager \<Rightarrow> bool" where
  "freed_request rid m m' \<longleftrightarrow> static m m' \<and> req_blocks m' rid = [] \<and> (\<forall>x. x \<noteq> rid \<longrightarrow> req_blocks m' x = req_blocks m x) \<and>
     num_cached_block m' = (num_cached_block m)(rid := None) \<and> partial_hit_reqs m' = (partial_hit_reqs m)(rid := None)"

lemma free_len_unique: "pool_inv p free \<Longrightarrow> pool_inv p free' \<Longrightarrow> length free = length free'"
  using refs_okD(3) [of p free "{}"] refs_okD(3) [of p free' "{}"] by (auto simp: pool_inv_def)

lemma free_count_mono:
  assumes "pool_inv p free" and "pool_inv p' free'" and "same_config p p'"
    and "\<And>j. j < length (blocks p) \<Longrightarrow> j \<noteq> 0 \<Longrightarrow> rc p j = 0 \<Longrightarrow> rc p' j \<le> 0"
  shows "length free \<le> length free'"
proof -
  have R: "refs_ok p free {}" and R': "refs_ok p' free' {}" using assms(1,2) by (auto simp: pool_inv_def)
  have len: "length (blocks p') = length (blocks p)" using assms(3) by (simp add: same_config_def)
  have "set free \<subseteq> set free'"
  proof
    fix i assume i: "i \<in> set free"
    then have i2: "i < length (blocks p)" "rc p i = 0" "i \<noteq> 0" using refs_okD(4-6) [OF R] by auto
    then have "rc p' i = 0" using assms(4) refs_okD(9) [OF R', of i] len by force
    then show "i \<in> set free'" using refs_okD(10) [OF R', of i] i2 len by simp
  qed
  then show ?thesis using refs_okD(2) [OF R] refs_okD(2) [OF R'] by (metis card_mono distinct_card List.finite_set)
qed

lemma accounted_free_mono:
  assumes "pool_inv p free" and "pool_inv p' free'" and "same_config p p'" and "accounted ext m p" and "accounted ext m' p'"
    and "\<And>b. b \<noteq> 0 \<Longrightarrow> held m' b \<le> held m b"
  shows "length free \<le> length free'"
proof (rule free_count_mono [OF assms(1-3)])
  fix j assume j: "j < length (blocks p)" "j \<noteq> 0" "rc p j = 0"
  have "rc p j = int (ext j + held m j)" "rc p' j = int (ext j + held m' j)"
    using assms(3-5) j(1,2) by (auto simp: accounted_def same_config_def)
  then show "rc p' j \<le> 0" using assms(6) [OF j(2)] j(3) by simp
qed

lemma free_step_contract:
  assumes "pool_inv p free" and A: "accounted ext m p"
  shows "\<exists>x m' p' free'. no_result (mgr_free rid m p) = Inr (x, m', p') \<and> pool_inv p' free' \<and> accounted ext m' p' \<and> same_config p p' \<and>
    length free \<le> length free' \<and> freed_request rid m m'"
proof -
  from mgr_free_accounted [OF assms, of rid] obtain m' p' free' where
    1: "mgr_free rid m p = Inr (m', p')" "accounted ext m' p'" "pool_inv p' free'" "same_config p p'" "req_blocks m' rid = []"
    "\<forall>x. x \<noteq> rid \<longrightarrow> req_blocks m' x = req_blocks m x" by blast
  have m': "m' = snd (pop_blocks_for_free rid m)" using 1(1) by (auto simp: mgr_free_def split: prod.splits)
  have "held m' b \<le> held m b" for b using pop_held(1) [OF accounted_wf [OF A], of rid "fst (pop_blocks_for_free rid m)" m' b] m' by simp
  then have "length free \<le> length free'" using accounted_free_mono [OF assms(1) 1(3,4) A 1(2)] by blast
  then show ?thesis using 1 mgr_free_fields [OF 1(1)]
    by (intro exI [of _ "()"] exI [of _ m'] exI [of _ p'] exI [of _ free']) (simp add: no_result_def freed_request_def)
qed

interpretation free_call: manager_step "\<lambda>i m p. no_result (mgr_free rid m p)" "\<lambda>i m p. True" "\<lambda>i m. 0" "\<lambda>i m x m'. freed_request rid m m'"
    "\<lambda>p p'. True" for rid
  using free_step_contract by unfold_locales auto

text \<open>Dropping the blocks in front of the window.\<close>

lemma remove_range_fields:
  "remove_blocks_in_range rid a b m p = Inr (m', p') \<Longrightarrow> static m m' \<and> num_cached_block m' = num_cached_block m \<and>
     partial_hit_reqs m' = partial_hit_reqs m \<and> pending_cow_copies m' = pending_cow_copies m"
  by (auto simp: remove_blocks_in_range_def Let_def split: prod.splits if_splits)

lemma remove_skipped_fields:
  assumes "remove_skipped_blocks rid pr np m p = Inr (m', p')"
  shows "static m m' \<and> num_cached_block m' = num_cached_block m \<and> partial_hit_reqs m' = partial_hit_reqs m"
proof -
  have base: "static m m' \<and> num_cached_block m' = num_cached_block m \<and> partial_hit_reqs m' = partial_hit_reqs m"
    if "base_remove_skipped_blocks rid pr m p = Inr (m', p')"
    using that remove_range_fields [of rid 0 _ "open_req rid m" p m' p']
    by (auto simp: base_remove_skipped_blocks_def Let_def split: if_splits dest!: remove_range_fields)
      (simp_all add: static_def open_req_def set_blocks_def)
  show ?thesis using assms base unfolding remove_skipped_blocks_def
    by (auto simp: Let_def split: manager_kind.splits option.splits dest: remove_range_fields)
qed


lemma count_nulled:
  assumes "length bs' = length bs" and "\<forall>i < length bs. bs' ! i = bs ! i \<or> bs' ! i = 0" and "b \<noteq> 0"
  shows "count_list bs' b \<le> count_list bs b"
  using assms(1,2)
proof (induction bs' bs rule: list_induct2)
  case (Cons x xs y ys)
  have "\<forall>i < length ys. xs ! i = ys ! i \<or> xs ! i = 0" using Cons.prems by auto
  moreover have "x = y \<or> x = 0" using Cons.prems by auto
  ultimately show ?case using Cons.IH assms(3) by auto
qed simp

lemma remove_range_form:
  "remove_blocks_in_range rid a b m p = Inr (m', p') \<Longrightarrow> m' = m \<or> (\<exists>bs. m' = set_blocks rid bs m)"
  by (auto simp: remove_blocks_in_range_def Let_def split: prod.splits if_splits)

definition nulled_in :: "string \<Rightarrow> nat \<Rightarrow> nat \<Rightarrow> kv_manager \<Rightarrow> kv_manager \<Rightarrow> bool" where
  "nulled_in rid lo hi m m' \<longleftrightarrow> (\<forall>x. x \<noteq> rid \<longrightarrow> req_blocks m' x = req_blocks m x) \<and> length (req_blocks m' rid) = length (req_blocks m rid) \<and>
     (\<forall>i < length (req_blocks m rid). req_blocks m' rid ! i = req_blocks m rid ! i \<or> (lo \<le> i \<and> i < hi \<and> req_blocks m' rid ! i = 0))"

lemma remove_range_contract:
  assumes P: "pool_inv p free" and A: "accounted ext m p" and "partial_hit_reqs m rid = None"
  shows "\<exists>m' p' free'. remove_blocks_in_range rid lo hi m p = Inr (m', p') \<and> pool_inv p' free' \<and> accounted ext m' p' \<and> same_config p p' \<and>
    length free \<le> length free' \<and> nulled_in rid lo hi m m'"
proof -
  from remove_range_spec [OF assms, of lo hi] obtain m' p' free' where
    1: "remove_blocks_in_range rid lo hi m p = Inr (m', p')" "accounted ext m' p'" "pool_inv p' free'" "same_config p p'"
    "nulled_in rid lo hi m m'" unfolding nulled_in_def by blast
  have "held m' b \<le> held m b" if "b \<noteq> 0" for b
    using remove_range_form [OF 1(1)]
  proof (elim disjE exE)
    fix bs assume m': "m' = set_blocks rid bs m"
    then have "count_list bs b \<le> count_list (req_blocks m rid) b" using 1(5) that by (intro count_nulled) (auto simp: nulled_in_def)
    then show ?thesis using held_set_blocks [OF accounted_wf [OF A], of rid bs b] m' by simp
  qed simp
  then have "length free \<le> length free'" using accounted_free_mono [OF P 1(3,4) A 1(2)] by blast
  then show ?thesis using 1 by blast
qed

text \<open>The blocks that \<^verbatim>\<open>remove_skipped_blocks\<close> may take, by index.\<close>

definition removable :: "kv_manager \<Rightarrow> nat \<Rightarrow> nat option \<Rightarrow> nat \<times> nat" where
  "removable m processed num_prompt =
     (case (mgr_kind m, num_prompt) of
        (RSWA w, Some n) \<Rightarrow> (cdivn n (mgr_block_size m), max n (processed - w) div mgr_block_size m)
      | (CircularBuffer, _) \<Rightarrow> (0, 0)
      | _ \<Rightarrow> (0, get_num_skipped_tokens m processed div mgr_block_size m))"

lemma nulled_in_refl [simp]: "nulled_in rid lo hi m m"
  by (simp add: nulled_in_def)

lemma nulled_in_mono: "nulled_in rid lo hi m m' \<Longrightarrow> hi \<le> hi' \<Longrightarrow> nulled_in rid lo hi' m m'"
  by (auto simp: nulled_in_def)

lemma base_remove_contract:
  assumes P: "pool_inv p free" and A: "accounted ext m p" and N: "partial_hit_reqs m rid = None"
  shows "\<exists>m' p' free'. base_remove_skipped_blocks rid pr m p = Inr (m', p') \<and> pool_inv p' free' \<and> accounted ext m' p' \<and> same_config p p' \<and>
    length free \<le> length free' \<and> nulled_in rid 0 (get_num_skipped_tokens m pr div mgr_block_size m) m m'"
proof (cases "get_num_skipped_tokens m pr \<le> 0")
  case True
  then show ?thesis using P A by (auto simp: base_remove_skipped_blocks_def)
next
  case False
  let ?m = "open_req rid m" and ?hi = "min (get_num_skipped_tokens m pr div mgr_block_size m) (length (req_blocks (open_req rid m) rid))"
  have N': "partial_hit_reqs ?m rid = None" using N by simp
  from remove_range_contract [OF P accounted_open [OF A] N', of 0 ?hi] obtain m' p' free' where
    1: "remove_blocks_in_range rid 0 ?hi ?m p = Inr (m', p')" "pool_inv p' free'" "accounted ext m' p'" "same_config p p'"
    "length free \<le> length free'" "nulled_in rid 0 ?hi ?m m'" by blast
  have "nulled_in rid 0 (get_num_skipped_tokens m pr div mgr_block_size m) ?m m'" using 1(6) by (rule nulled_in_mono) simp
  then have "nulled_in rid 0 (get_num_skipped_tokens m pr div mgr_block_size m) m m'" by (simp add: nulled_in_def)
  moreover have "base_remove_skipped_blocks rid pr m p = Inr (m', p')" using 1(1) False by (simp add: base_remove_skipped_blocks_def Let_def)
  ultimately show ?thesis using 1(2-5) by blast
qed

definition window_moved :: "string \<Rightarrow> nat \<Rightarrow> nat option \<Rightarrow> kv_manager \<Rightarrow> kv_manager \<Rightarrow> bool" where
  "window_moved rid pr np m m' \<longleftrightarrow> static m m' \<and> num_cached_block m' = num_cached_block m \<and> partial_hit_reqs m' = partial_hit_reqs m \<and>
     nulled_in rid (fst (removable m pr np)) (snd (removable m pr np)) m m'"

lemma remove_step_contract:
  assumes P: "pool_inv p free" and A: "accounted ext m p" and N: "partial_hit_reqs m rid = None"
  shows "\<exists>x m' p' free'. no_result (remove_skipped_blocks rid pr np m p) = Inr (x, m', p') \<and> pool_inv p' free' \<and> accounted ext m' p' \<and>
    same_config p p' \<and> length free \<le> length free' \<and> window_moved rid pr np m m'"
proof -
  have "\<exists>m' p' free'. remove_skipped_blocks rid pr np m p = Inr (m', p') \<and> pool_inv p' free' \<and> accounted ext m' p' \<and> same_config p p' \<and>
    length free \<le> length free' \<and> nulled_in rid (fst (removable m pr np)) (snd (removable m pr np)) m m'"
  proof (cases "\<exists>w n. mgr_kind m = RSWA w \<and> np = Some n")
    case True
    then obtain w n where k: "mgr_kind m = RSWA w" "np = Some n" by blast
    show ?thesis using remove_range_contract [OF assms, of "cdivn n (mgr_block_size m)" "max n (pr - w) div mgr_block_size m"] k
      by (simp add: remove_skipped_blocks_def removable_def Let_def)
  next
    case False
    show ?thesis
    proof (cases "mgr_kind m = CircularBuffer")
      case True
      then show ?thesis using P A by (auto simp: remove_skipped_blocks_def removable_def)
    next
      case nc: False
      have "remove_skipped_blocks rid pr np m p = base_remove_skipped_blocks rid pr m p"
        "removable m pr np = (0, get_num_skipped_tokens m pr div mgr_block_size m)"
        using False nc by (auto simp: remove_skipped_blocks_def removable_def split: manager_kind.splits option.splits)
      then show ?thesis using base_remove_contract [OF assms, of pr] by simp
    qed
  qed
  then obtain m' p' free' where 1: "remove_skipped_blocks rid pr np m p = Inr (m', p')" "pool_inv p' free'" "accounted ext m' p'"
    "same_config p p'" "length free \<le> length free'" "nulled_in rid (fst (removable m pr np)) (snd (removable m pr np)) m m'" by blast
  show ?thesis using 1 remove_skipped_fields [OF 1(1)]
    by (intro exI [of _ "()"] exI [of _ m'] exI [of _ p'] exI [of _ free']) (simp add: no_result_def window_moved_def)
qed

interpretation remove_call: manager_step "\<lambda>i m p. no_result (remove_skipped_blocks rid pr np m p)" "\<lambda>i m p. partial_hit_reqs m rid = None"
    "\<lambda>i m. 0" "\<lambda>i m x m'. window_moved rid pr np m m'" "\<lambda>p p'. True" for rid pr np
  using remove_step_contract by unfold_locales auto


text \<open>Taking over the blocks of a hit. The pool evolves: no reference is lost.\<close>

definition regular :: "kv_manager \<Rightarrow> bool" where
  "regular m \<longleftrightarrow> mgr_kind m \<noteq> CircularBuffer \<and> mgr_kind m \<noteq> CrossAttention"

definition grows :: "block_pool \<Rightarrow> block_pool \<Rightarrow> bool" where
  "grows p p' \<longleftrightarrow> length (blocks p') = length (blocks p) \<and>
     (\<forall>j < length (blocks p). is_null (blk p' j) = is_null (blk p j) \<and> (j \<noteq> 0 \<longrightarrow> 0 \<le> rc p j \<and> rc p j \<le> rc p' j))"

lemma length_filter_mono: "(\<And>x. x \<in> set xs \<Longrightarrow> P x \<Longrightarrow> Q x) \<Longrightarrow> length (filter P xs) \<le> length (filter Q xs)"
  by (induction xs) auto

lemma grows_evictable:
  assumes "grows p p'" and "\<forall>b \<in> set bs. b < length (blocks p)" and "\<forall>j < length (blocks p). is_null (blk p j) \<longleftrightarrow> j = 0"
  shows "get_num_evictable_blocks p' bs \<le> get_num_evictable_blocks p bs"
proof -
  have "ref_cnt (blk p b) = 0 \<and> \<not> is_null (blk p b)" if "b \<in> set bs" "ref_cnt (blk p' b) = 0 \<and> \<not> is_null (blk p' b)" for b
  proof -
    have b: "b < length (blocks p)" using assms(2) that(1) by blast
    then have n: "\<not> is_null (blk p b)" using assms(1) that(2) by (auto simp: grows_def)
    then have "b \<noteq> 0" using assms(3) b by blast
    then have "0 \<le> rc p b" "rc p b \<le> rc p' b" using assms(1) b by (auto simp: grows_def)
    then show ?thesis using n that(2) by simp
  qed
  then show ?thesis unfolding get_num_evictable_blocks_def by (rule length_filter_mono)
qed

lemma refs_null: "pool_inv p free \<Longrightarrow> j < length (blocks p) \<Longrightarrow> is_null (blk p j) \<longleftrightarrow> j = 0"
  using refs_okD(8) [of p free "{}"] by (simp add: pool_inv_def)

lemma growsI:
  assumes "pool_inv p free" and "pool_inv p' free'" and "same_config p p'" and "\<And>j. j < length (blocks p) \<Longrightarrow> j \<noteq> 0 \<Longrightarrow> rc p j \<le> rc p' j"
  shows "grows p p'"
  using assms refs_null [OF assms(1)] refs_null [OF assms(2)] refs_okD(9) [of p free "{}"] by (auto simp: grows_def same_config_def pool_inv_def)

text \<open>Touching takes at most the evictable blocks off the free list.\<close>

lemma touch_takes:
  assumes "pool_inv p free" and "\<forall>b \<in> set bs. b < length (blocks p)"
  shows "length free \<le> length (filter (\<lambda>i. i \<notin> set bs) free) + get_num_evictable_blocks p bs"
proof -
  have R: "refs_ok p free {}" using assms(1) by (simp add: pool_inv_def)
  have "set (filter (\<lambda>i. i \<in> set bs) free) \<subseteq> set (filter (\<lambda>b. ref_cnt (blk p b) = 0 \<and> \<not> is_null (blk p b)) bs)"
    using refs_okD(4-6,8) [OF R] assms(2) by auto
  then have "card (set (filter (\<lambda>i. i \<in> set bs) free)) \<le> length (filter (\<lambda>b. ref_cnt (blk p b) = 0 \<and> \<not> is_null (blk p b)) bs)"
    by (meson List.finite_set card_length card_mono le_trans)
  moreover have "card (set (filter (\<lambda>i. i \<in> set bs) free)) = length (filter (\<lambda>i. i \<in> set bs) free)"
    using distinct_card [OF distinct_filter [OF refs_okD(2) [OF R]]] .
  ultimately show ?thesis
    using sum_length_filter_compl [of "\<lambda>i. i \<in> set bs" free] by (simp add: get_num_evictable_blocks_def)
qed

definition adopted :: "string \<Rightarrow> nat list \<Rightarrow> nat \<Rightarrow> nat \<Rightarrow> kv_manager \<Rightarrow> kv_manager \<Rightarrow> bool" where
  "adopted rid new nl ne m m' \<longleftrightarrow> static m m' \<and> (\<forall>x. x \<noteq> rid \<longrightarrow> req_blocks m' x = req_blocks m x \<and> partial_hit_reqs m' x = partial_hit_reqs m x) \<and>
     (if regular m then length (req_blocks m' rid) = max (skipped_blocks m (nl + ne)) (length new) \<and>
        (partial_hit_reqs m' rid \<noteq> None \<longrightarrow> has_partial_local_hit m new nl)
      else m' = m)"

lemma add_local_contract:
  assumes P: "pool_inv p free" and A: "accounted ext m p" and H: "hit_shape m p new nl" and e: "req_blocks m rid = []"
    and c: "mgr_enable_caching m \<or> new = []" and N: "partial_hit_reqs m rid = None" and r: "regular m"
  shows "\<exists>m' p' free'. add_local_computed_blocks rid new nl ne m p = Inr (m', p') \<and> pool_inv p' free' \<and> accounted ext m' p' \<and>
    same_config p p' \<and> grows p p' \<and> length free \<le> length free' + get_num_evictable_blocks p (drop (skipped_blocks m (nl + ne)) new) \<and>
    adopted rid new nl ne m m'"
proof -
  define hits where "hits = drop (skipped_blocks m (nl + ne)) new"
  have R: "refs_ok p free {}" using P by (simp add: pool_inv_def)
  have hb: "\<forall>b \<in> set hits. b < length (blocks p)" using H by (auto simp: hit_shape_def hits_def dest: in_set_dropD)
  have "\<exists>p1. (if mgr_enable_caching m then touch hits p else py_assert (hits = []) (Inr p)) = Inr p1 \<and> touch hits p = Inr p1"
    using touch_spec [OF R hb] c by (auto simp: hits_def touch_def)
  then obtain p1 where p1: "(if mgr_enable_caching m then touch hits p else py_assert (hits = []) (Inr p)) = Inr p1" "touch hits p = Inr p1" by blast
  note T = touch_refs [OF P hb p1(2)]
  define m0 where "m0 = set_blocks rid (replicate (skipped_blocks m (nl + ne)) 0 @ hits) (open_req rid m)"
  define m' where "m' = (if has_partial_local_hit m hits nl
      then m0\<lparr>num_cached_block := (num_cached_block m)(rid \<mapsto> nl div mgr_block_size m),
              partial_hit_reqs := (partial_hit_reqs m)(rid \<mapsto> (nl div mgr_block_size m, last hits))\<rparr>
      else m0\<lparr>num_cached_block := (num_cached_block m)(rid \<mapsto> length (replicate (skipped_blocks m (nl + ne)) (0 :: nat) @ hits))\<rparr>)"
  have run: "add_local_computed_blocks rid new nl ne m p = Inr (m', p1)"
    unfolding add_local_eq [OF A] Let_def hits_def [symmetric] m0_def [symmetric] p1(1) bind_res_simps m'_def [symmetric] using e by simp
  have acc: "accounted ext m' p1" using add_local_accounted [OF P A H run] by blast
  have g: "grows p p1" by (rule growsI [OF P T(1,2)]) (use T(3) in auto)
  have le: "length free \<le> length (filter (\<lambda>i. i \<notin> set hits) free) + get_num_evictable_blocks p hits" by (rule touch_takes [OF P hb])
  have "length (req_blocks m' rid) = max (skipped_blocks m (nl + ne)) (length new)" by (simp add: m'_def m0_def hits_def)
  moreover have "partial_hit_reqs m' rid \<noteq> None \<longrightarrow> has_partial_local_hit m new nl"
    using N by (auto simp: m'_def m0_def hits_def has_partial_local_hit_def)
  ultimately have "adopted rid new nl ne m m'" using r by (auto simp: adopted_def m'_def m0_def)
  then show ?thesis using run T(1,2) acc g le by (intro exI [of _ m'] exI [of _ p1] exI [of _ "filter (\<lambda>i. i \<notin> set hits) free"]) (simp add: hits_def)
qed

definition adopt_pre :: "string \<Rightarrow> nat list list \<Rightarrow> nat list \<Rightarrow> nat \<Rightarrow> nat \<Rightarrow> nat \<Rightarrow> kv_manager \<Rightarrow> block_pool \<Rightarrow> bool" where
  "adopt_pre rid new es nl ne i m p \<longleftrightarrow> i < length new \<and> partial_hit_reqs m rid = None \<and>
     (\<forall>j < length (blocks p). is_null (blk p j) \<longleftrightarrow> j = 0) \<and>
     (if regular m then req_blocks m rid = [] \<and> hit_shape m p (new ! i) nl \<and> (mgr_enable_caching m \<or> new ! i = []) \<and>
        get_num_evictable_blocks p (drop (skipped_blocks m (nl + ne)) (new ! i)) \<le> es ! i
      else new ! i = [])"

lemma adopt_stable:
  assumes "adopt_pre rid new es nl ne i m p" and "grows p p'"
  shows "adopt_pre rid new es nl ne i m p'"
proof -
  have "\<forall>j < length (blocks p'). is_null (blk p' j) \<longleftrightarrow> j = 0" using assms by (simp add: adopt_pre_def grows_def)
  moreover have "get_num_evictable_blocks p' (drop (skipped_blocks m (nl + ne)) (new ! i)) \<le> es ! i" if r: "regular m"
  proof -
    have "hit_shape m p (new ! i) nl" using assms(1) r by (simp add: adopt_pre_def)
    then have "\<forall>b \<in> set (drop (skipped_blocks m (nl + ne)) (new ! i)). b < length (blocks p)" by (auto simp: hit_shape_def dest: in_set_dropD)
    from grows_evictable [OF assms(2) this] show ?thesis using assms(1) r unfolding adopt_pre_def by (meson le_trans)
  qed
  ultimately show ?thesis using assms unfolding adopt_pre_def grows_def hit_shape_def by auto
qed

lemma adopt_step_contract:
  assumes P: "pool_inv p free" and A: "accounted ext m p" and pre: "adopt_pre rid new es nl ne i m p"
  shows "\<exists>x m' p' free'. bind_res (py_nth new i) (\<lambda>bs. no_result (mgr_add_local_computed_blocks rid bs nl ne m p)) = Inr (x, m', p') \<and>
    pool_inv p' free' \<and> accounted ext m' p' \<and> same_config p p' \<and> grows p p' \<and> length free \<le> length free' + (if regular m then es ! i else 0) \<and>
    adopted rid (new ! i) nl ne m m'"
proof (cases "regular m")
  case True
  have nth: "py_nth new i = Inr (new ! i)" using pre by (simp add: adopt_pre_def py_nth_def)
  from pre True have q: "hit_shape m p (new ! i) nl" "req_blocks m rid = []" "mgr_enable_caching m \<or> new ! i = []" "partial_hit_reqs m rid = None"
    "get_num_evictable_blocks p (drop (skipped_blocks m (nl + ne)) (new ! i)) \<le> es ! i" by (auto simp: adopt_pre_def)
  from add_local_contract [OF P A q(1-4) True, of ne] obtain m' p' free' where
    1: "add_local_computed_blocks rid (new ! i) nl ne m p = Inr (m', p')" "pool_inv p' free'" "accounted ext m' p'" "same_config p p'" "grows p p'"
    "length free \<le> length free' + get_num_evictable_blocks p (drop (skipped_blocks m (nl + ne)) (new ! i))" "adopted rid (new ! i) nl ne m m'" by blast
  have "mgr_add_local_computed_blocks rid (new ! i) nl ne m p = Inr (m', p')"
    using 1(1) True by (auto simp: mgr_add_local_computed_blocks_def regular_def split: manager_kind.splits)
  then show ?thesis using nth 1(2-5,7) True q(5) 1(6)
    by (intro exI [of _ "()"] exI [of _ m'] exI [of _ p'] exI [of _ free']) (simp add: no_result_def)
next
  case False
  then have "bind_res (py_nth new i) (\<lambda>bs. no_result (mgr_add_local_computed_blocks rid bs nl ne m p)) = Inr ((), m, p)"
    using pre by (auto simp: adopt_pre_def py_nth_def mgr_add_local_computed_blocks_def regular_def no_result_def)
  moreover have "grows p p" by (rule growsI [OF P P]) auto
  ultimately show ?thesis using P A False by (intro exI [of _ "()"] exI [of _ m] exI [of _ p] exI [of _ free]) (simp add: adopted_def)
qed

interpretation adopt_call: manager_step "\<lambda>i m p. bind_res (py_nth new i) (\<lambda>bs. no_result (mgr_add_local_computed_blocks rid bs nl ne m p))"
    "adopt_pre rid new es nl ne" "\<lambda>i m. if regular m then es ! i else 0" "\<lambda>i m x m'. adopted rid (new ! i) nl ne m m'" grows
    for rid new es nl ne
  by unfold_locales (use adopt_stable in blast, use adopt_step_contract in blast)


text \<open>Claiming the single block of a ring, and appending blocks to a table.\<close>

definition extended :: "string \<Rightarrow> nat \<Rightarrow> kv_manager \<Rightarrow> kv_manager \<Rightarrow> bool" where
  "extended rid n m m' \<longleftrightarrow> static m m' \<and> num_cached_block m' = num_cached_block m \<and>
     (\<forall>x. x \<noteq> rid \<longrightarrow> req_blocks m' x = req_blocks m x \<and> partial_hit_reqs m' x = partial_hit_reqs m x) \<and>
     (partial_hit_reqs m' rid = partial_hit_reqs m rid \<or> partial_hit_reqs m' rid = None) \<and>
     length (req_blocks m' rid) = length (req_blocks m rid) + n"

lemma append_contract:
  assumes P: "pool_inv p free" and A: "accounted ext m p" and n: "n \<le> length free"
  shows "\<exists>bs p'. get_new_blocks n p = Inr (bs, p') \<and> length bs = n \<and> pool_inv p' (drop n free) \<and> same_config p p' \<and>
    accounted ext (set_blocks rid (req_blocks (open_req rid m) rid @ bs) (open_req rid m)) p'"
proof -
  from get_new_blocks_total [OF P n] obtain p' where
    1: "get_new_blocks n p = Inr (take n free, p')" "pool_inv p' (drop n free)" "same_config p p'" by blast
  from append_new_blocks(1) [OF P accounted_open [OF A] 1(1)] have "accounted ext (set_blocks rid (req_blocks (open_req rid m) rid @ take n free) (open_req rid m)) p'" .
  then show ?thesis using 1 n by (intro exI [of _ "take n free"] exI [of _ p']) simp
qed

definition ring_cost :: "string \<Rightarrow> kv_manager \<Rightarrow> nat" where
  "ring_cost rid m = (if req_blocks m rid = [] then 1 else 0)"

lemma claim_contract:
  assumes P: "pool_inv p free" and A: "accounted ext m p" and n: "ring_cost rid m \<le> length free"
  shows "\<exists>x m' p' free'. claim_ring_block rid rz m p = Inr (x, m', p') \<and> pool_inv p' free' \<and> accounted ext m' p' \<and> same_config p p' \<and>
    length free \<le> length free' + ring_cost rid m \<and> extended rid (ring_cost rid m) m m'"
proof (cases "req_blocks m rid = []")
  case True
  then have n1: "1 \<le> length free" using n by (simp add: ring_cost_def)
  let ?m = "\<lambda>bs. set_blocks rid (req_blocks (open_req rid m) rid @ bs) (open_req rid m)"
  from append_contract [OF P A n1, of rid] obtain bs p' where
    1: "get_new_blocks 1 p = Inr (bs, p')" "length bs = 1" "pool_inv p' (drop 1 free)" "same_config p p'" "accounted ext (?m bs) p'" by blast
  have "claim_ring_block rid rz m p = Inr (bs, record_ids (record_new_block_ids m \<and> rz) bs (?m bs), p')"
    using True 1(1) by (simp add: claim_ring_block_def Let_def)
  moreover have "extended rid (ring_cost rid m) m (record_ids (record_new_block_ids m \<and> rz) bs (?m bs))"
    using True 1(2) by (simp add: extended_def ring_cost_def record_ids_def)
  ultimately show ?thesis using 1(3-5) True
    by (intro exI [of _ bs] exI [of _ "record_ids (record_new_block_ids m \<and> rz) bs (?m bs)"] exI [of _ p'] exI [of _ "drop 1 free"])
      (simp add: ring_cost_def)
next
  case False
  then have "claim_ring_block rid rz m p = Inr ([], open_req rid m, p)" by (simp add: claim_ring_block_def Let_def)
  then show ?thesis using P accounted_open [OF A, of rid] False
    by (intro exI [of _ "[]"] exI [of _ "open_req rid m"] exI [of _ p] exI [of _ free]) (simp add: extended_def ring_cost_def)
qed

text \<open>Whether a manager allocates for tokens that are computed elsewhere.\<close>

definition external_inside :: "kv_manager \<Rightarrow> nat \<Rightarrow> nat \<Rightarrow> bool" where
  "external_inside m nl ne \<longleftrightarrow> 0 < ne \<and> get_num_skipped_tokens m (nl + ne) < nl + ne"

definition external_cost :: "string \<Rightarrow> nat \<Rightarrow> nat \<Rightarrow> kv_manager \<Rightarrow> nat" where
  "external_cost rid nl ne m =
     (if mgr_kind m = CircularBuffer then ring_cost rid m
      else if regular m \<and> external_inside m nl ne then cdivn (nl + ne) (mgr_block_size m) - length (req_blocks m rid) else 0)"

lemma external_contract:
  assumes P: "pool_inv p free" and A: "accounted ext m p" and r: "regular m" and n: "external_cost rid nl ne m \<le> length free"
  shows "\<exists>m' p' free'. allocate_external_computed_blocks rid nl ne rz m p = Inr (m', p') \<and> pool_inv p' free' \<and> accounted ext m' p' \<and> same_config p p' \<and>
    length free \<le> length free' + external_cost rid nl ne m \<and> extended rid (external_cost rid nl ne m) m m'"
proof (cases "external_inside m nl ne")
  case False
  then have "allocate_external_computed_blocks rid nl ne rz m p = Inr (m, p)"
    by (auto simp: allocate_external_computed_blocks_def external_inside_def Let_def)
  then show ?thesis using P A False r by (intro exI [of _ m] exI [of _ p] exI [of _ free]) (auto simp: extended_def external_cost_def regular_def)
next
  case True
  let ?n = "cdivn (nl + ne) (mgr_block_size m) - length (req_blocks m rid)"
  let ?m = "\<lambda>bs. set_blocks rid (req_blocks (open_req rid m) rid @ bs) (open_req rid m)"
  have c: "external_cost rid nl ne m = ?n" using True r by (simp add: external_cost_def regular_def)
  from append_contract [OF P A n [unfolded c], of rid] obtain bs p' where
    1: "get_new_blocks ?n p = Inr (bs, p')" "length bs = ?n" "pool_inv p' (drop ?n free)" "same_config p p'" "accounted ext (?m bs) p'" by blast
  have "allocate_external_computed_blocks rid nl ne rz m p = Inr (record_ids (record_new_block_ids m \<and> rz) bs (?m bs), p')"
    using True 1(1) by (auto simp: allocate_external_computed_blocks_def external_inside_def Let_def)
  moreover have "extended rid ?n m (record_ids (record_new_block_ids m \<and> rz) bs (?m bs))"
    using 1(2) by (simp add: extended_def record_ids_def)
  ultimately show ?thesis using 1(3-5) unfolding c
    by (intro exI [of _ "record_ids (record_new_block_ids m \<and> rz) bs (?m bs)"] exI [of _ p'] exI [of _ "drop ?n free"]) simp
qed

lemma external_step_contract:
  assumes P: "pool_inv p free" and A: "accounted ext m p" and n: "external_cost rid nl ne m \<le> length free"
  shows "\<exists>x m' p' free'. no_result (mgr_allocate_external_computed_blocks rid nl ne rz m p) = Inr (x, m', p') \<and> pool_inv p' free' \<and>
    accounted ext m' p' \<and> same_config p p' \<and> length free \<le> length free' + external_cost rid nl ne m \<and>
    extended rid (external_cost rid nl ne m) m m'"
proof -
  consider (ring) "mgr_kind m = CircularBuffer" | (cross) "mgr_kind m = CrossAttention" | (reg) "regular m" by (auto simp: regular_def)
  then show ?thesis
  proof cases
    case ring
    then have c: "external_cost rid nl ne m = ring_cost rid m" by (simp add: external_cost_def)
    from claim_contract [OF P A n [unfolded c], of rz] obtain x m' p' free' where
      1: "claim_ring_block rid rz m p = Inr (x, m', p')" "pool_inv p' free'" "accounted ext m' p'" "same_config p p'"
      "length free \<le> length free' + ring_cost rid m" "extended rid (ring_cost rid m) m m'" by blast
    then show ?thesis unfolding c using ring
      by (intro exI [of _ "()"] exI [of _ m'] exI [of _ p'] exI [of _ free']) (simp add: mgr_allocate_external_computed_blocks_def no_result_def)
  next
    case cross
    then show ?thesis using P A
      by (intro exI [of _ "()"] exI [of _ m] exI [of _ p] exI [of _ free])
        (simp add: mgr_allocate_external_computed_blocks_def no_result_def external_cost_def regular_def extended_def)
  next
    case reg
    from external_contract [OF P A reg n, of rz] obtain m' p' free' where
      1: "allocate_external_computed_blocks rid nl ne rz m p = Inr (m', p')" "pool_inv p' free'" "accounted ext m' p'" "same_config p p'"
      "length free \<le> length free' + external_cost rid nl ne m" "extended rid (external_cost rid nl ne m) m m'" by blast
    have "mgr_allocate_external_computed_blocks rid nl ne rz m p = Inr (m', p')"
      using 1(1) reg by (auto simp: mgr_allocate_external_computed_blocks_def regular_def split: manager_kind.splits)
    then show ?thesis using 1(2-6) by (intro exI [of _ "()"] exI [of _ m'] exI [of _ p'] exI [of _ free']) (simp add: no_result_def)
  qed
qed

interpretation external_call: manager_step
    "\<lambda>i m p. no_result (mgr_allocate_external_computed_blocks rid nl ne (i \<notin> set skip) m p)" "\<lambda>i m p. True"
    "\<lambda>i m. external_cost rid nl ne m" "\<lambda>i m x m'. extended rid (external_cost rid nl ne m) m m'" "\<lambda>p p'. True" for rid nl ne skip
  using external_step_contract by unfold_locales auto


text \<open>New blocks for the tokens to compute, after the copy of a partially hit block.\<close>

lemma redirect_total:
  assumes P: "pool_inv p free" and A: "accounted ext m p" and n: "partial_hit_reqs m rid \<noteq> None \<longrightarrow> 0 < length free"
  shows "\<exists>cows m' p'. redirect_partial_hit rid m p = Inr (cows, m', p') \<and> length cows = (if partial_hit_reqs m rid = None then 0 else 1) \<and>
    static m m' \<and> num_cached_block m' = num_cached_block m \<and>
    (\<forall>x. x \<noteq> rid \<longrightarrow> req_blocks m' x = req_blocks m x \<and> partial_hit_reqs m' x = partial_hit_reqs m x)"
proof (cases "partial_hit_reqs m rid")
  case None
  then show ?thesis by (simp add: redirect_partial_hit_def)
next
  case (Some y)
  obtain i src where y: "y = (i, src)" by (cases y)
  note W = accounted_wf [OF A] and pd = partialD [OF accounted_wf [OF A] Some [unfolded y]]
  obtain b fs where free: "free = b # fs" using n Some by (cases free) auto
  from get_new_blocks_total [OF P, of 1] obtain p1 where g: "get_new_blocks 1 p = Inr ([b], p1)" by (auto simp: free)
  note G = get_new_blocks_refs [OF P g]
  have s: "src < length (blocks p)" "src \<in> set (req_blocks m rid)" using req_blocks_bound [OF W, of src rid] pd(1,2) by auto
  have "0 < held m src" using count_req_le [OF W, of rid src] s(2) count_list_0_iff [of "req_blocks m rid" src] by simp
  then have "0 < rc p src" using A s(1) pd(3) by (simp add: accounted_def)
  then have "0 < rc p1 src" using G(5) [OF s(1)] by simp
  moreover have "\<not> is_null (blk p1 src)" using refs_null [OF G(1), of src] s(1) pd(3) G(2) by (simp add: same_config_def)
  ultimately have "\<exists>m' p'. redirect_partial_hit rid m p = Inr ([b], m', p') \<and> static m m' \<and> num_cached_block m' = num_cached_block m \<and>
      (\<forall>x. x \<noteq> rid \<longrightarrow> req_blocks m' x = req_blocks m x \<and> partial_hit_reqs m' x = partial_hit_reqs m x)"
    using Some y g pd(1,2)
    by (simp add: redirect_partial_hit_def get_one_new_block_def py_nth_def apply_cow_def Let_def) (simp add: record_ids_def)
  then show ?thesis using Some by auto
qed

definition new_cost :: "string \<Rightarrow> nat \<Rightarrow> kv_manager \<Rightarrow> nat" where
  "new_cost rid n m =
     (if mgr_kind m = CircularBuffer then ring_cost rid m
      else (if partial_hit_reqs m rid = None then 0 else 1) + (cdivn n (mgr_block_size m) - length (req_blocks m rid)))"

definition covered :: "string \<Rightarrow> nat \<Rightarrow> kv_manager \<Rightarrow> kv_manager \<Rightarrow> bool" where
  "covered rid n m m' \<longleftrightarrow> static m m' \<and> num_cached_block m' = num_cached_block m \<and>
     (\<forall>x. x \<noteq> rid \<longrightarrow> req_blocks m' x = req_blocks m x \<and> partial_hit_reqs m' x = partial_hit_reqs m x) \<and>
     (mgr_kind m = CircularBuffer \<longrightarrow> req_blocks m' rid \<noteq> []) \<and>
     (mgr_kind m \<noteq> CircularBuffer \<longrightarrow> partial_hit_reqs m' rid = None \<and> n \<le> length (req_blocks m' rid) * mgr_block_size m)"

lemma allocate_new_contract:
  assumes P: "pool_inv p free" and A: "accounted ext m p" and k: "mgr_kind m \<noteq> CircularBuffer" and n: "new_cost rid nt m \<le> length free"
  shows "\<exists>x m' p' free'. allocate_new_blocks rid nt m p = Inr (x, m', p') \<and> pool_inv p' free' \<and> accounted ext m' p' \<and> same_config p p' \<and>
    length free \<le> length free' + new_cost rid nt m \<and> covered rid nt m m'"
proof -
  have bs0: "0 < mgr_block_size m" using accounted_wf [OF A] by (simp add: mgr_wf_def)
  have c: "new_cost rid nt m = (if partial_hit_reqs m rid = None then 0 else 1) + (cdivn nt (mgr_block_size m) - length (req_blocks m rid))"
    using k by (simp add: new_cost_def)
  have n0: "partial_hit_reqs m rid \<noteq> None \<longrightarrow> 0 < length free" using n c by auto
  from redirect_total [OF P A n0] obtain cows m1 p1 where
    r: "redirect_partial_hit rid m p = Inr (cows, m1, p1)" "length cows = (if partial_hit_reqs m rid = None then 0 else 1)"
    "static m m1" "num_cached_block m1 = num_cached_block m"
    "\<forall>x. x \<noteq> rid \<longrightarrow> req_blocks m1 x = req_blocks m x \<and> partial_hit_reqs m1 x = partial_hit_reqs m x" by blast
  from redirect_partial_hit_accounted [OF P A r(1)] obtain free1 where
    1: "accounted ext m1 p1" "pool_inv p1 free1" "length free1 = length free - length cows" "same_config p p1"
    "length (req_blocks m1 rid) = length (req_blocks m rid)" "mgr_block_size m1 = mgr_block_size m" "partial_hit_reqs m1 rid = None" by blast
  let ?n = "cdivn nt (mgr_block_size m) - length (req_blocks m rid)"
  let ?m = "\<lambda>bs. set_blocks rid (req_blocks (open_req rid m1) rid @ bs) (open_req rid m1)"
  have n1: "?n \<le> length free1" using n c 1(3) r(2) by simp
  from append_contract [OF 1(2,1) n1, of rid] obtain bs p2 where
    2: "get_new_blocks ?n p1 = Inr (bs, p2)" "length bs = ?n" "pool_inv p2 (drop ?n free1)" "same_config p1 p2" "accounted ext (?m bs) p2" by blast
  have cov: "covered rid nt m m'" if "static m m'" "num_cached_block m' = num_cached_block m1" "\<forall>x. x \<noteq> rid \<longrightarrow> req_blocks m' x = req_blocks m1 x"
    "partial_hit_reqs m' = partial_hit_reqs m1" "cdivn nt (mgr_block_size m) \<le> length (req_blocks m' rid)" for m'
    using that r(4,5) 1(7) k bs0 by (simp add: covered_def cdivn_le_iff)
  show ?thesis
  proof (cases "cdivn nt (mgr_block_size m) \<le> length (req_blocks m rid)")
    case True
    then have "allocate_new_blocks rid nt m p = Inr (cows, open_req rid m1, p1)" using r(1) 1(5,6) by (simp add: allocate_new_blocks_def Let_def)
    moreover have "covered rid nt m (open_req rid m1)" by (rule cov) (use r(3) True 1(5) in simp_all)
    moreover have "length free \<le> length free1 + new_cost rid nt m" using 1(3) r(2) c by simp
    ultimately show ?thesis using 1(2,4) accounted_open [OF 1(1), of rid] by blast
  next
    case False
    have "allocate_new_blocks rid nt m p = Inr (cows @ bs, record_ids (record_new_block_ids (open_req rid m1)) bs (?m bs), p2)"
      using False r(1) 1(5,6) 2(1) by (simp add: allocate_new_blocks_def Let_def)
    moreover have "covered rid nt m (record_ids (record_new_block_ids (open_req rid m1)) bs (?m bs))"
      by (rule cov) (use r(3) 1(5) 2(2) in \<open>auto simp: record_ids_def\<close>)
    moreover have "length free \<le> length (drop ?n free1) + new_cost rid nt m" using 1(3) r(2) c by simp
    ultimately show ?thesis using 2(3,5) same_config_trans [OF 1(4) 2(4)] accounted_record(1) by blast
  qed
qed

definition tokens_for :: "nat \<Rightarrow> nat \<Rightarrow> kv_manager \<Rightarrow> nat" where
  "tokens_for num_encoder ntoks m = (if mgr_kind m = CrossAttention then num_encoder else ntoks)"

lemma new_step_contract:
  assumes P: "pool_inv p free" and A: "accounted ext m p" and n: "new_cost rid (tokens_for enc nt m) m \<le> length free"
  shows "\<exists>x m' p' free'. mgr_allocate_new_blocks rid (if mgr_kind m = CrossAttention then enc else nt) m p = Inr (x, m', p') \<and> pool_inv p' free' \<and>
    accounted ext m' p' \<and> same_config p p' \<and> length free \<le> length free' + new_cost rid (tokens_for enc nt m) m \<and>
    covered rid (tokens_for enc nt m) m m'"
proof (cases "mgr_kind m = CircularBuffer")
  case True
  then have c: "new_cost rid (tokens_for enc nt m) m = ring_cost rid m" by (simp add: new_cost_def)
  from claim_contract [OF P A n [unfolded c], of True] obtain x m' p' free' where
    1: "claim_ring_block rid True m p = Inr (x, m', p')" "pool_inv p' free'" "accounted ext m' p'" "same_config p p'"
    "length free \<le> length free' + ring_cost rid m" "extended rid (ring_cost rid m) m m'" by blast
  have "0 < length (req_blocks m' rid)" using 1(6) by (auto simp: extended_def ring_cost_def split: if_splits)
  then have "covered rid (tokens_for enc nt m) m m'" using 1(6) True by (simp add: covered_def extended_def)
  then show ?thesis unfolding c using 1(1-5) True by (intro exI [of _ x] exI [of _ m'] exI [of _ p'] exI [of _ free']) (simp add: mgr_allocate_new_blocks_def)
next
  case False
  have "mgr_allocate_new_blocks rid (if mgr_kind m = CrossAttention then enc else nt) m p = allocate_new_blocks rid (tokens_for enc nt m) m p"
    using False by (auto simp: mgr_allocate_new_blocks_def tokens_for_def split: manager_kind.splits)
  then show ?thesis using allocate_new_contract [OF P A False n] by simp
qed

interpretation new_call: manager_step "\<lambda>i m p. mgr_allocate_new_blocks rid (if mgr_kind m = CrossAttention then enc else nt) m p" "\<lambda>i m p. True"
    "\<lambda>i m. new_cost rid (tokens_for enc nt m) m" "\<lambda>i m x m'. covered rid (tokens_for enc nt m) m m'" "\<lambda>p p'. True" for rid enc nt
  using new_step_contract by unfold_locales auto

lemma skipped_tokens_le: "skipped_tokens k n \<le> n \<or> (\<exists>e. k = SlidingWindow 0 e)"
  by (cases k) auto

section \<open>No attended token loses its block\<close>

text \<open>Which keys the query at position \<open>q\<close> reads, by kind of attention. For reference sliding windows
  the tokens of the prompt are always visible; a window is measured back from the query.\<close>

fun attends :: "manager_kind \<Rightarrow> nat option \<Rightarrow> nat \<Rightarrow> nat \<Rightarrow> bool" where
  "attends (SlidingWindow w e) np q t \<longleftrightarrow> t \<le> q \<and> q < t + w"
| "attends (ChunkedLocal c) np q t \<longleftrightarrow> t \<le> q \<and> q div c = t div c"
| "attends (RSWA w) (Some n) q t \<longleftrightarrow> t \<le> q \<and> (t < n \<or> q \<le> t + w)"
| "attends _ np q t \<longleftrightarrow> t \<le> q"

lemma attended_kept:
  assumes "attends (mgr_kind m) np q t" and "pr \<le> q" and bs: "0 < mgr_block_size m"
  shows "\<not> (fst (removable m pr np) \<le> t div mgr_block_size m \<and> t div mgr_block_size m < snd (removable m pr np))"
proof
  let ?b = "mgr_block_size m"
  assume r: "fst (removable m pr np) \<le> t div ?b \<and> t div ?b < snd (removable m pr np)"
  have lt: "t < x" if "t div ?b < x div ?b" for x using that bs by (metis div_le_mono leD leI)
  show False
  proof (cases "\<exists>w n. mgr_kind m = RSWA w \<and> np = Some n")
    case True
    then obtain w n where k: "mgr_kind m = RSWA w" "np = Some n" by blast
    have "t < max n (pr - w)" using r lt k by (simp add: removable_def)
    moreover have "n \<le> t"
    proof -
      have "n \<le> t div ?b * ?b" using r k cdivn_le_iff [OF bs, of n "t div ?b"] by (simp add: removable_def)
      also have "\<dots> \<le> t" by simp
      finally show ?thesis .
    qed
    ultimately show False using assms(1,2) k by auto
  next
    case nr: False
    then have "t < get_num_skipped_tokens m pr"
      using r by (intro lt) (auto simp: removable_def split: manager_kind.splits option.splits)
    moreover have "pr div c * c \<le> t" if "q div c = t div c" for c
      using that div_le_mono [OF assms(2), of c] div_times_less_eq_dividend [of t c] by (metis le_trans mult_le_mono1)
    ultimately show False using assms(1,2) by (cases "mgr_kind m") force+
  qed
qed

text \<open>C10: Dropping the blocks in front of the attention window never takes a block that is still needed.
  \<^verbatim>\<open>remove_skipped_blocks\<close> called with the number of processed tokens succeeds, keeps the reference
  counts equal to the holders, loses no free block, and leaves the tables of other requests alone. Every
  entry of the request's table with a token that some query at or after the processed position
  attends to (sliding window, chunk, reference window with its prompt, or all tokens) is the
  same as before.\<close>

theorem remove_skipped_keeps_window:
  assumes "pool_inv p free" and "accounted ext m p" and "partial_hit_reqs m rid = None"
  shows "\<exists>m' p' free'. remove_skipped_blocks rid processed np m p = Inr (m', p') \<and> pool_inv p' free' \<and> accounted ext m' p' \<and>
    length free \<le> length free' \<and> (\<forall>x. x \<noteq> rid \<longrightarrow> req_blocks m' x = req_blocks m x) \<and>
    length (req_blocks m' rid) = length (req_blocks m rid) \<and>
    (\<forall>q t. processed \<le> q \<and> attends (mgr_kind m) np q t \<and> t < length (req_blocks m rid) * mgr_block_size m \<longrightarrow>
       req_blocks m' rid ! (t div mgr_block_size m) = req_blocks m rid ! (t div mgr_block_size m))"
proof -
  have bs: "0 < mgr_block_size m" using accounted_wf [OF assms(2)] by (simp add: mgr_wf_def)
  from remove_step_contract [OF assms, of processed np] obtain x m' p' free' where
    1: "no_result (remove_skipped_blocks rid processed np m p) = Inr (x, m', p')" "pool_inv p' free'" "accounted ext m' p'"
    "length free \<le> length free'" "window_moved rid processed np m m'" by blast
  have run: "remove_skipped_blocks rid processed np m p = Inr (m', p')"
    using 1(1) by (cases "remove_skipped_blocks rid processed np m p") (auto simp: no_result_def)
  have nu: "nulled_in rid (fst (removable m processed np)) (snd (removable m processed np)) m m'" using 1(5) by (simp add: window_moved_def)
  have "req_blocks m' rid ! (t div mgr_block_size m) = req_blocks m rid ! (t div mgr_block_size m)"
    if "processed \<le> q \<and> attends (mgr_kind m) np q t \<and> t < length (req_blocks m rid) * mgr_block_size m" for q t
  proof -
    have "t div mgr_block_size m < length (req_blocks m rid)" using that bs by (simp add: div_less_iff_less_mult)
    then show ?thesis using nu attended_kept [of m np q t processed] that bs unfolding nulled_in_def by blast
  qed
  moreover have "\<forall>x. x \<noteq> rid \<longrightarrow> req_blocks m' x = req_blocks m x" "length (req_blocks m' rid) = length (req_blocks m rid)"
    using nu by (simp_all add: nulled_in_def)
  ultimately show ?thesis using run 1(2-4) by (intro exI [of _ m'] exI [of _ p'] exI [of _ free']) blast
qed

lemma fresh_manager [simp]:
  "held (SingleTypeKVCacheManager k bs g c rec cap sb pc) b = 0" "req_blocks (SingleTypeKVCacheManager k bs g c rec cap sb pc) rid = []"
  "mgr_wf n (SingleTypeKVCacheManager k bs g c rec cap sb pc) \<longleftrightarrow> 0 < bs"
  by (auto simp: SingleTypeKVCacheManager_def held_def occ_def mgr_wf_def req_blocks_def)

text \<open>Three blocks given to a request of a sliding window group.\<close>

definition demo_window :: kv_manager where
  "demo_window = SingleTypeKVCacheManager (SlidingWindow 3 0) 2 1 True False None 2 True"

lemma demo_allocated:
  "\<exists>m p free. pool_inv p free \<and> accounted (\<lambda>_. 0) m p \<and> partial_hit_reqs m ''r'' = None \<and> mgr_kind m = SlidingWindow 3 0 \<and>
     mgr_block_size m = 2 \<and> 3 \<le> length (req_blocks m ''r'')"
proof -
  have a: "accounted (\<lambda>_. 0) demo_window demo_pool"
    using demo_pool(2,4,7) refs_okD(1) [of demo_pool "[1, 2, 3]" "{}"] by (simp add: accounted_def demo_window_def pool_inv_def)
  have n: "new_cost ''r'' 5 demo_window \<le> length [1, 2, 3 :: nat]"
    by (simp add: new_cost_def demo_window_def) (simp add: SingleTypeKVCacheManager_def cdivn_def cdiv_def)
  have k: "mgr_kind demo_window \<noteq> CircularBuffer" by (simp add: demo_window_def SingleTypeKVCacheManager_def)
  from allocate_new_contract [OF demo_pool(2) a k n] obtain m p free where
    1: "pool_inv p free" "accounted (\<lambda>_. 0) m p" "covered ''r'' 5 demo_window m" by blast
  have "mgr_block_size demo_window = 2" "mgr_kind demo_window = SlidingWindow 3 0" by (simp_all add: demo_window_def SingleTypeKVCacheManager_def)
  then show ?thesis using 1 by (intro exI [of _ m] exI [of _ p] exI [of _ free]) (auto simp: covered_def static_def)
qed

theorem remove_skipped_keeps_window_witness:
  "\<exists>m p m' p'. 3 \<le> length (req_blocks m ''r'') \<and> remove_skipped_blocks ''r'' 5 None m p = Inr (m', p') \<and> req_blocks m' ''r'' ! 1 = req_blocks m ''r'' ! 1"
proof -
  obtain m p free where 1: "pool_inv p free" "accounted (\<lambda>_. 0) m p" "partial_hit_reqs m ''r'' = None" "mgr_kind m = SlidingWindow 3 0"
    "mgr_block_size m = 2" "3 \<le> length (req_blocks m ''r'')" using demo_allocated by blast
  from remove_skipped_keeps_window [OF 1(1-3), of 5 None] obtain m' p' where
    2: "remove_skipped_blocks ''r'' 5 None m p = Inr (m', p')"
    "\<forall>q t. 5 \<le> q \<and> attends (mgr_kind m) None q t \<and> t < length (req_blocks m ''r'') * mgr_block_size m \<longrightarrow>
       req_blocks m' ''r'' ! (t div mgr_block_size m) = req_blocks m ''r'' ! (t div mgr_block_size m)" by blast
  have "req_blocks m' ''r'' ! 1 = req_blocks m ''r'' ! 1" using 2(2) [rule_format, of 5 3] 1(4-6) by simp
  then show ?thesis using 1(6) 2(1) by blast
qed

end
