(* ===== verification/KVCacheManager.thy ===== *)
theory KVCacheManager
  imports AllocationBudget
begin

text \<open>
  The KV cache manager the scheduler talks to (\<^verbatim>\<open>src/vllm/v1/core/kv_cache_manager.py\<close>), on top of
  a coordinator: prefix hits of a request, allocation of slots with its admission checks, freeing, and
  the statistics it keeps. Not here are the methods for Mamba groups. The lemmas show that an
  allocation which passes the capacity check never runs out of blocks half way.
\<close>

section \<open>State\<close>

text \<open>Hit statistics. The split of hits by source is for connectors only.\<close>

record prefix_cache_stats =
  stats_reset :: bool
  stats_requests :: nat
  stats_queries :: nat
  stats_hits :: nat
  preempted_requests :: nat
  preempted_queries :: nat
  preempted_hits :: nat

definition PrefixCacheStats :: prefix_cache_stats where
  "PrefixCacheStats = \<lparr>stats_reset = False, stats_requests = 0, stats_queries = 0, stats_hits = 0, preempted_requests = 0,
     preempted_queries = 0, preempted_hits = 0\<rparr>"

definition stats_record :: "nat \<Rightarrow> nat \<Rightarrow> bool \<Rightarrow> prefix_cache_stats \<Rightarrow> prefix_cache_stats" where
  "stats_record ntoks num_hits preempted s =
     (if preempted
      then s\<lparr>preempted_requests := preempted_requests s + 1, preempted_queries := preempted_queries s + ntoks,
             preempted_hits := preempted_hits s + num_hits\<rparr>
      else s\<lparr>stats_requests := stats_requests s + 1, stats_queries := stats_queries s + ntoks, stats_hits := stats_hits s + num_hits\<rparr>)"

text \<open>\<^verbatim>\<open>KVCacheBlocks\<close>: \<open>None\<close> is the one shared empty object, which the manager recognises by identity.\<close>

type_synonym kv_cache_blocks = "nat list list option"

record kv_cache_manager =
  coordinator :: kv_coordinator
  max_model_len :: nat
  km_enable_caching :: bool
  km_enable_kv_cache_events :: bool
  log_stats :: bool
  prefix_cache_stats_of :: "prefix_cache_stats option"
  watermark_blocks :: nat
  kv_cache_event_metadata :: "(string \<times> nat option) list"

abbreviation km_pool :: "kv_cache_manager \<Rightarrow> block_pool" where
  "km_pool km \<equiv> coord_pool (coordinator km)"

abbreviation km_managers :: "kv_cache_manager \<Rightarrow> kv_manager list" where
  "km_managers km \<equiv> single_type_managers (coordinator km)"

text \<open>The constructor, after the coordinator of the groups is built. Truncating a non-negative product to an
  integer is its floor.\<close>

definition KVCacheManager_init :: "kv_coordinator \<Rightarrow> nat \<Rightarrow> bool \<Rightarrow> bool \<Rightarrow> bool \<Rightarrow> rat \<Rightarrow> nat \<Rightarrow> (string \<times> nat option) list \<Rightarrow> kv_cache_manager res" where
  "KVCacheManager_init c model_len caching stats events watermark num_blocks metadata =
     py_assert (watermark \<ge> 0)
       (Inr \<lparr>coordinator = c, max_model_len = model_len, km_enable_caching = caching, km_enable_kv_cache_events = events,
             log_stats = stats, prefix_cache_stats_of = (if stats then Some PrefixCacheStats else None),
             watermark_blocks = nat \<lfloor>watermark * of_nat num_blocks\<rfloor>, kv_cache_event_metadata = metadata\<rparr>)"

definition usage :: "kv_cache_manager \<Rightarrow> rat" where
  "usage km = get_usage (km_pool km)"

definition set_pool :: "block_pool \<Rightarrow> kv_cache_manager \<Rightarrow> kv_cache_manager" where
  "set_pool p km = km\<lparr>coordinator := (coordinator km)\<lparr>coord_pool := p\<rparr>\<rparr>"

text \<open>The lists behind the object. Only HiSparse managers keep a longer hit than the tokens it is used for.\<close>

definition blocks_of :: "kv_cache_manager \<Rightarrow> kv_cache_blocks \<Rightarrow> nat list list" where
  "blocks_of km bs = (case bs of None \<Rightarrow> map (\<lambda>_. []) (km_managers km) | Some b \<Rightarrow> b)"

definition create_kv_cache_blocks :: "nat list list \<Rightarrow> kv_cache_blocks" where
  "create_kv_cache_blocks bs = (if list_ex (\<lambda>b. b \<noteq> []) bs then Some bs else None)"

definition new_empty :: "nat list list \<Rightarrow> nat list list" where
  "new_empty bs = map (\<lambda>_. []) bs"

definition blocks_add :: "nat list list \<Rightarrow> nat list list \<Rightarrow> nat list list" where
  "blocks_add xs ys = map (\<lambda>(x, y). x @ y) (zip xs ys)"

text \<open>Block ids are indices of the pool, so \<^verbatim>\<open>get_block_ids\<close> only selects the groups.\<close>

definition get_block_ids :: "bool \<Rightarrow> nat list option \<Rightarrow> nat list list \<Rightarrow> nat list list option res" where
  "get_block_ids allow_none group_ids bs =
     bind_res (case group_ids of None \<Rightarrow> Inr bs | Some gs \<Rightarrow> map_res (py_nth bs) gs) (\<lambda>groups.
       Inr (if allow_none \<and> list_all (\<lambda>g. length g = 0) groups then None else Some groups))"

definition get_unhashed_block_ids :: "block_pool \<Rightarrow> nat list list \<Rightarrow> nat list res" where
  "get_unhashed_block_ids p bs = py_assert (length bs = 1) (Inr (filter (\<lambda>b. block_hash (blk p b) = None) (hd bs)))"

definition get_unhashed_block_ids_all_groups :: "block_pool \<Rightarrow> nat list list \<Rightarrow> nat list list" where
  "get_unhashed_block_ids_all_groups p bs = map (filter (\<lambda>b. block_hash (blk p b) = None \<and> \<not> is_null (blk p b))) bs"

section \<open>Statistics and hits\<close>

definition make_prefix_cache_stats :: "kv_cache_manager \<Rightarrow> prefix_cache_stats option \<times> kv_cache_manager" where
  "make_prefix_cache_stats km =
     (if \<not> log_stats km then (None, km)
      else (prefix_cache_stats_of km, km\<lparr>prefix_cache_stats_of := Some PrefixCacheStats\<rparr>))"

definition prefix_cache_lookup_enabled :: "request \<Rightarrow> kv_cache_manager \<Rightarrow> bool" where
  "prefix_cache_lookup_enabled r km \<longleftrightarrow> km_enable_caching km \<and> \<not> skip_reading_prefix_cache r"

definition record_prefix_cache_stats :: "request \<Rightarrow> nat \<Rightarrow> kv_cache_manager \<Rightarrow> kv_cache_manager res" where
  "record_prefix_cache_stats r num_hits km =
     (if \<not> log_stats km \<or> \<not> prefix_cache_lookup_enabled r km then Inr km
      else case prefix_cache_stats_of km of
             None \<Rightarrow> Inl AssertionError
           | Some s \<Rightarrow> Inr (km\<lparr>prefix_cache_stats_of := Some (stats_record (num_tokens r) num_hits (num_preemptions r > 0) s)\<rparr>))"

text \<open>\<open>report_full\<close>: the request's \<^verbatim>\<open>kv_cache_report_mode\<close> is \<^verbatim>\<open>"full"\<close>. Requests have at least one token.\<close>

definition get_computed_blocks :: "hash_env \<Rightarrow> bool \<Rightarrow> request \<Rightarrow> kv_cache_manager \<Rightarrow>
    (kv_cache_blocks \<times> nat \<times> int \<times> request \<times> kv_cache_manager) res" where
  "get_computed_blocks env report_full r km =
     (if \<not> prefix_cache_lookup_enabled r km then Inr (None, 0, 0, r, km)
      else bind_res (coord_find_longest_cache_hit (block_hashes r) (num_tokens r - 1) (coordinator km)) (\<lambda>(computed, n, num_uncached).
             bind_res (if n > 0 \<and> km_enable_kv_cache_events km \<and> report_full
                       then coord_emit_cached_block_events env r computed (coordinator km)
                       else Inr (r, coordinator km)) (\<lambda>(r1, c1).
               Inr (create_kv_cache_blocks computed, n, (if num_uncached \<noteq> 0 then int n + num_uncached else 0), r1,
                    km\<lparr>coordinator := c1\<rparr>))))"

section \<open>Slots for a request\<close>

text \<open>The watermark only protects running requests against waiting ones.\<close>

definition admission_watermark :: "request \<Rightarrow> bool \<Rightarrow> kv_cache_manager \<Rightarrow> nat" where
  "admission_watermark r has_scheduled km =
     (if has_scheduled \<and> (status r = WAITING \<or> status r = PREEMPTED) then watermark_blocks km else 0)"

definition allocate_slots :: "hash_env \<Rightarrow> request \<Rightarrow> nat \<Rightarrow> nat \<Rightarrow> kv_cache_blocks \<Rightarrow> nat \<Rightarrow> nat \<Rightarrow> bool \<Rightarrow> nat \<Rightarrow> bool \<Rightarrow> nat \<Rightarrow>
    bool \<Rightarrow> nat list \<Rightarrow> kv_cache_manager \<Rightarrow> (kv_cache_blocks option \<times> request \<times> kv_cache_manager) res" where
  "allocate_slots env r num_new num_new_computed new_computed lookahead num_external delay_cache num_encoder full_sequence_must_fit
       reserved has_scheduled skip_zeroing km =
     (if num_new = 0 \<and> num_external = 0 \<and> num_new_computed = 0 then Inl ValueError
      else let rid = request_id r; c = coordinator km;
               new_list = blocks_of km new_computed;
               num_local = num_computed_tokens r + num_new_computed;
               total = min (num_local + num_external) (max_model_len km);
               watermark = admission_watermark r has_scheduled km
           in bind_res
                (if full_sequence_must_fit
                 then bind_res (coord_get_num_blocks_to_allocate rid (min (num_tokens r) (max_model_len km)) new_list num_encoder
                                  total num_local True c) (\<lambda>n. Inr (int (n + watermark) \<le> get_num_free_blocks (coord_pool c)))
                 else Inr True)
                (\<lambda>fits. if \<not> fits then Inr (None, r, km)
                  else let main_tokens = total + num_new;
                           need_slot = min (main_tokens + lookahead) (max_model_len km)
                       in bind_res (coord_remove_skipped_blocks rid (total - num_in_flight_tokens r) (Some (num_prompt_tokens r)) c) (\<lambda>c1.
                            bind_res (coord_get_num_blocks_to_allocate rid need_slot new_list num_encoder (num_local + num_external)
                                        num_local False c1) (\<lambda>n.
                              if int (n + watermark) > get_num_free_blocks (coord_pool c1) - int reserved
                              then Inr (None, r, km\<lparr>coordinator := c1\<rparr>)
                              else bind_res (if new_computed \<noteq> None \<or> num_external > 0
                                             then allocate_new_computed_blocks rid new_list num_local num_external skip_zeroing c1
                                             else Inr c1) (\<lambda>c2.
                                   bind_res (coord_allocate_new_blocks rid need_slot num_encoder c2) (\<lambda>(new_blocks, c3).
                                     if delay_cache then Inr (Some (create_kv_cache_blocks new_blocks), r, km\<lparr>coordinator := c3\<rparr>)
                                     else bind_res (coord_cache_blocks env r (min (total + num_new) (num_tokens r)) c3) (\<lambda>(r1, c4).
                                            Inr (Some (create_kv_cache_blocks new_blocks), r1, km\<lparr>coordinator := c4\<rparr>))))))))"

section \<open>The other operations\<close>

definition km_free :: "request \<Rightarrow> kv_cache_manager \<Rightarrow> kv_cache_manager res" where
  "km_free r km = bind_res (coord_free (request_id r) (coordinator km)) (\<lambda>c. Inr (km\<lparr>coordinator := c\<rparr>))"

definition km_remove_skipped_blocks :: "string \<Rightarrow> nat \<Rightarrow> nat option \<Rightarrow> kv_cache_manager \<Rightarrow> kv_cache_manager res" where
  "km_remove_skipped_blocks rid processed num_prompt km =
     bind_res (coord_remove_skipped_blocks rid processed num_prompt (coordinator km)) (\<lambda>c. Inr (km\<lparr>coordinator := c\<rparr>))"

definition km_pop_blocks_for_free :: "request \<Rightarrow> kv_cache_manager \<Rightarrow> nat list \<times> kv_cache_manager" where
  "km_pop_blocks_for_free r km =
     (let (bs, c) = coord_pop_blocks_for_free (request_id r) (coordinator km) in (bs, km\<lparr>coordinator := c\<rparr>))"

definition km_evict_blocks :: "nat list \<Rightarrow> kv_cache_manager \<Rightarrow> kv_cache_manager res" where
  "km_evict_blocks ids km = bind_res (evict_blocks ids (km_pool km)) (\<lambda>p. Inr (set_pool p km))"

definition km_reset_prefix_cache :: "kv_cache_manager \<Rightarrow> (bool \<times> kv_cache_manager) res" where
  "km_reset_prefix_cache km =
     (let (ok, c) = coord_reset_prefix_cache (coordinator km); km1 = km\<lparr>coordinator := c\<rparr>
      in if \<not> ok then Inr (False, km1)
         else if log_stats km
              then (case prefix_cache_stats_of km of
                      None \<Rightarrow> Inl AssertionError
                    | Some s \<Rightarrow> Inr (True, km1\<lparr>prefix_cache_stats_of := Some (s\<lparr>stats_reset := True\<rparr>)\<rparr>))
              else Inr (True, km1))"

definition km_get_num_common_prefix_blocks :: "string \<Rightarrow> kv_cache_manager \<Rightarrow> nat list \<times> kv_cache_manager" where
  "km_get_num_common_prefix_blocks rid km =
     (let (ns, c) = coord_get_num_common_prefix_blocks rid (coordinator km) in (ns, km\<lparr>coordinator := c\<rparr>))"

text \<open>Events leave the pool with the kind and window of their group, when the group is known.\<close>

definition annotate_event :: "(string \<times> nat option) list \<Rightarrow> kv_event \<Rightarrow> kv_event \<times> (string \<times> nat option) option" where
  "annotate_event meta e =
     (case e of
        BlockStored _ _ _ _ _ _ _ _ g _ \<Rightarrow> (e, if g < length meta then Some (meta ! g) else None)
      | _ \<Rightarrow> (e, None))"

definition km_take_events :: "kv_cache_manager \<Rightarrow> (kv_event \<times> (string \<times> nat option) option) list \<times> kv_cache_manager" where
  "km_take_events km =
     (let (es, p) = take_events (km_pool km) in (map (annotate_event (kv_cache_event_metadata km)) es, set_pool p km))"

definition km_get_blocks :: "string \<Rightarrow> kv_cache_manager \<Rightarrow> kv_cache_blocks" where
  "km_get_blocks rid km = create_kv_cache_blocks (coord_get_blocks rid (coordinator km))"

definition km_get_block_ids :: "string \<Rightarrow> kv_cache_manager \<Rightarrow> nat list list" where
  "km_get_block_ids rid km = blocks_of km (km_get_blocks rid km)"

definition get_block_ids_for_computed_tokens :: "string \<Rightarrow> nat \<Rightarrow> kv_cache_manager \<Rightarrow> nat list list" where
  "get_block_ids_for_computed_tokens rid ntoks km =
     map (\<lambda>(m, ids). if mgr_kind m = CrossAttention then ids else take (cdivn ntoks (mgr_block_size m)) ids)
       (zip (km_managers km) (km_get_block_ids rid km))"

definition estimate_cached_tokens :: "request \<Rightarrow> kv_cache_manager \<Rightarrow> nat" where
  "estimate_cached_tokens r km =
     (let cached = map (\<lambda>(m, bs). fold (\<lambda>b n. max n (case block_hash_num_tokens (blk (km_pool km) b) of None \<Rightarrow> 0 | Some k \<Rightarrow> k)) bs 0)
            (filter (\<lambda>(m, bs). prefix_cacheable m \<and> mgr_kind m \<noteq> CrossAttention)
              (zip (km_managers km) (km_get_block_ids (request_id r) km)))
      in case cached of [] \<Rightarrow> 0 | n # ns \<Rightarrow> fold min ns n)"

definition km_cache_blocks :: "hash_env \<Rightarrow> request \<Rightarrow> nat \<Rightarrow> kv_cache_manager \<Rightarrow> (request \<times> kv_cache_manager) res" where
  "km_cache_blocks env r ntoks km =
     (if km_enable_caching km
      then bind_res (coord_cache_blocks env r ntoks (coordinator km)) (\<lambda>(r1, c). Inr (r1, km\<lparr>coordinator := c\<rparr>))
      else Inr (r, km))"

text \<open>The two sequences are zipped strictly.\<close>

definition truncate_computed_blocks :: "nat list list \<Rightarrow> nat \<Rightarrow> kv_cache_manager \<Rightarrow> kv_cache_blocks res" where
  "truncate_computed_blocks bs ntoks km =
     bind_res (map_res (\<lambda>(b, m).
         if \<not> prefix_cacheable m then py_assert (b = []) (Inr [])
         else py_assert (ntoks mod mgr_block_size m = 0)
                (let n = ntoks div mgr_block_size m in py_assert (n \<le> length b) (Inr (take n b)))) (zip bs (km_managers km)))
       (\<lambda>ts. if length bs \<noteq> length (km_managers km) then Inl ValueError else Inr (create_kv_cache_blocks ts))"

definition km_take_new_block_ids :: "kv_cache_manager \<Rightarrow> nat list \<times> kv_cache_manager" where
  "km_take_new_block_ids km =
     (concat (map (\<lambda>m. fst (take_new_block_ids m)) (km_managers km)),
      km\<lparr>coordinator := (coordinator km)\<lparr>single_type_managers := map (\<lambda>m. snd (take_new_block_ids m)) (km_managers km)\<rparr>\<rparr>)"

definition record_for_zeroing :: "string \<Rightarrow> nat \<Rightarrow> kv_manager \<Rightarrow> kv_manager res" where
  "record_for_zeroing rid start_token m =
     (if \<not> record_new_block_ids m then Inr m
      else py_assert (start_token mod mgr_block_size m = 0)
             (let m1 = open_req rid m
              in Inr (record_ids True (drop (start_token div mgr_block_size m) (req_blocks m1 rid)) m1)))"

definition record_blocks_for_zeroing :: "string \<Rightarrow> nat \<Rightarrow> kv_cache_manager \<Rightarrow> kv_cache_manager res" where
  "record_blocks_for_zeroing rid start_token km =
     bind_res (map_res (record_for_zeroing rid start_token) (km_managers km)) (\<lambda>ms.
       Inr (km\<lparr>coordinator := (coordinator km)\<lparr>single_type_managers := ms\<rparr>\<rparr>))"

definition take_kv_cache_block_copies :: "kv_cache_manager \<Rightarrow> (nat \<times> nat) list \<times> nat list \<times> kv_cache_manager" where
  "take_kv_cache_block_copies km =
     (let pending = concat (map (\<lambda>m. fst (take_pending_cow_copies m)) (km_managers km))
      in (pending, concat (map (\<lambda>(s, d). [s, d]) pending),
          km\<lparr>coordinator := (coordinator km)\<lparr>single_type_managers := map (\<lambda>m. snd (take_pending_cow_copies m)) (km_managers km)\<rparr>\<rparr>))"

section \<open>What the capacity check counts\<close>

text \<open>The number of blocks the check counts for one manager.\<close>

definition blocks_for :: "kv_manager \<Rightarrow> nat \<Rightarrow> bool \<Rightarrow> nat" where
  "blocks_for m n cap = (case max_admission_blocks_per_request m of
      None \<Rightarrow> cdivn n (mgr_block_size m)
    | Some c \<Rightarrow> if cap then min (cdivn n (mgr_block_size m)) c else cdivn n (mgr_block_size m))"

definition needed :: "string \<Rightarrow> nat \<Rightarrow> nat list list \<Rightarrow> nat \<Rightarrow> nat \<Rightarrow> nat \<Rightarrow> bool \<Rightarrow> block_pool \<Rightarrow> nat \<Rightarrow> kv_manager \<Rightarrow> nat" where
  "needed rid nt new enc tc nl cap p i m =
     (if mgr_kind m = CircularBuffer then ring_cost rid m
      else if mgr_kind m = CrossAttention then blocks_for m enc cap - length (req_blocks m rid)
      else if num_cached_block m rid \<noteq> None then blocks_for m nt cap - length (req_blocks m rid)
      else (blocks_for m nt cap - max (skipped_blocks m tc) (length (new ! i) + length (req_blocks m rid))) +
           (if has_partial_local_hit m (new ! i) nl then 1 else 0) +
           get_num_evictable_blocks p (drop (skipped_blocks m tc - length (req_blocks m rid)) (new ! i)))"

lemma blocks_for_uncapped [simp]: "blocks_for m n False = cdivn n (mgr_block_size m)"
  by (simp add: blocks_for_def split: option.splits)

lemma costs_sum: "costs cost i ms = (\<Sum>k < length ms. cost (i + k) (ms ! k))"
proof (induction ms arbitrary: i)
  case (Cons m ms)
  have "(\<Sum>k < Suc (length ms). cost (i + k) ((m # ms) ! k)) = cost i m + (\<Sum>k < length ms. cost (Suc i + k) (ms ! k))"
    by (simp add: sum.lessThan_Suc_shift del: sum.lessThan_Suc)
  then show ?case using Cons.IH [of "Suc i"] by simp
qed simp

lemma costs_sum0: "costs cost 0 ms = (\<Sum>k < length ms. cost k (ms ! k))"
  by (simp add: costs_sum)

lemma for_res_costs:
  assumes "\<And>k n. k < length ms \<Longrightarrow> f (i + k, ms ! k) n = Inr (n + cost (i + k) (ms ! k))"
  shows "for_res f (enumerate i ms) n = Inr (n + costs cost i ms)"
  using assms
proof (induction ms arbitrary: i n)
  case (Cons m ms)
  have 0: "f (i, m) n = Inr (n + cost i m)" using Cons.prems [of 0] by simp
  have "for_res f (enumerate (Suc i) ms) (n + cost i m) = Inr (n + cost i m + costs cost (Suc i) ms)"
    by (rule Cons.IH) (use Cons.prems [of "Suc _"] in simp)
  then show ?case using 0 by simp
qed simp

lemma predicted_eq:
  assumes "mgr_kind m \<noteq> CrossAttention" and "num_cached_block m rid \<noteq> None \<longrightarrow> mgr_kind m = CircularBuffer \<or> new ! i = []"
  shows "mgr_get_num_blocks_to_allocate rid nt (new ! i) tc nl cap m p = Inr (needed rid nt new enc tc nl cap p i m)"
  using assms
  by (auto simp: mgr_get_num_blocks_to_allocate_def get_num_blocks_to_allocate_def needed_def blocks_for_def ring_cost_def Let_def
      split: manager_kind.splits option.splits)

lemma predicted_cross:
  assumes "mgr_kind m = CrossAttention"
  shows "mgr_get_num_blocks_to_allocate rid enc [] 0 0 cap m p = Inr (needed rid nt new enc tc nl cap p i m)"
  using assms
  by (auto simp: mgr_get_num_blocks_to_allocate_def get_num_blocks_to_allocate_def needed_def blocks_for_def Let_def
      has_partial_local_hit_def get_num_evictable_blocks_def split: option.splits)

lemma predictor_total:
  assumes "length new = length (single_type_managers c)"
    and "\<forall>k < length (single_type_managers c). num_cached_block (single_type_managers c ! k) rid \<noteq> None \<longrightarrow> new ! k = []"
  shows "coord_get_num_blocks_to_allocate rid nt new enc tc nl cap c =
    Inr (costs (needed rid nt new enc tc nl cap (coord_pool c)) 0 (single_type_managers c))"
proof -
  let ?f = "\<lambda>(i, m) n. if mgr_kind m = CrossAttention
         then bind_res (mgr_get_num_blocks_to_allocate rid enc [] 0 0 cap m (coord_pool c)) (\<lambda>k. Inr (n + k))
         else bind_res (py_nth new i) (\<lambda>bs.
                bind_res (mgr_get_num_blocks_to_allocate rid nt bs tc nl cap m (coord_pool c)) (\<lambda>k. Inr (n + k)))"
  let ?ms = "single_type_managers c"
  have "?f (0 + k, ?ms ! k) n = Inr (n + needed rid nt new enc tc nl cap (coord_pool c) (0 + k) (?ms ! k))"
    if k: "k < length ?ms" for k n
  proof (cases "mgr_kind (?ms ! k) = CrossAttention")
    case True
    then show ?thesis using predicted_cross [OF True] by simp
  next
    case False
    have "py_nth new k = Inr (new ! k)" using k assms(1) by (simp add: py_nth_def)
    moreover have "mgr_get_num_blocks_to_allocate rid nt (new ! k) tc nl cap (?ms ! k) (coord_pool c) =
        Inr (needed rid nt new enc tc nl cap (coord_pool c) k (?ms ! k))"
      by (rule predicted_eq [OF False]) (use assms(2) k in blast)
    ultimately show ?thesis using False by simp
  qed
  from for_res_costs [of ?ms ?f 0 "needed rid nt new enc tc nl cap (coord_pool c)" 0, OF this]
  show ?thesis unfolding coord_get_num_blocks_to_allocate_def by simp
qed

section \<open>An allocation that was admitted succeeds\<close>

text \<open>
  The two ways the scheduler calls \<^verbatim>\<open>allocate_slots\<close>: a request without blocks takes over the hits of a
  lookup, or a request with blocks asks for more.
\<close>

definition adoptable :: "string \<Rightarrow> nat list list \<Rightarrow> nat \<Rightarrow> kv_manager list \<Rightarrow> block_pool \<Rightarrow> bool" where
  "adoptable rid new nl ms p \<longleftrightarrow> length new = length ms \<and>
     (\<forall>k < length ms. num_cached_block (ms ! k) rid = None \<and>
        (if regular (ms ! k)
         then req_blocks (ms ! k) rid = [] \<and> hit_shape (ms ! k) p (new ! k) nl \<and> (mgr_enable_caching (ms ! k) \<or> new ! k = [])
         else new ! k = []))"

definition extendable :: "string \<Rightarrow> nat list list \<Rightarrow> nat \<Rightarrow> kv_manager list \<Rightarrow> bool" where
  "extendable rid new n ms \<longleftrightarrow> length new = length ms \<and> (\<forall>k < length ms. new ! k = []) \<and>
     (\<forall>k < length ms. regular (ms ! k) \<longrightarrow> n \<le> length (req_blocks (ms ! k) rid) * mgr_block_size (ms ! k))"


text \<open>Every window has at least the token itself.\<close>

definition window_pos :: "kv_manager \<Rightarrow> bool" where
  "window_pos m \<longleftrightarrow> (\<forall>e. mgr_kind m \<noteq> SlidingWindow 0 e)"

lemma needed_extend:
  assumes "new ! i = []" and "regular m \<longrightarrow> tc \<le> length (req_blocks m rid) * mgr_block_size m" and "window_pos m"
    and "0 < mgr_block_size m" and "partial_hit_reqs m rid = None"
  shows "new_cost rid (tokens_for enc nt m) m = needed rid nt new enc tc nl False p i m"
proof -
  have "skipped_blocks m tc \<le> length (req_blocks m rid)" if "regular m"
  proof -
    have "get_num_skipped_tokens m tc \<le> length (req_blocks m rid) * mgr_block_size m"
      using skipped_tokens_le [of "mgr_kind m" tc] assms(2,3) that by (auto simp: window_pos_def)
    then show ?thesis using assms(4) by (metis div_le_mono nonzero_mult_div_cancel_right not_gr_zero)
  qed
  then show ?thesis using assms
    by (auto simp: new_cost_def needed_def tokens_for_def regular_def has_partial_local_hit_def get_num_evictable_blocks_def max_def)
qed

text \<open>What is left to pay for a manager after the hits are adopted and external tokens have blocks.\<close>

lemma needed_adopt:
  assumes "num_cached_block m rid = None" and "partial_hit_reqs m rid = None"
    and a: "adopted rid (new ! i) nl ne m m2"
    and x: "if ne > 0 then extended rid (external_cost rid nl ne m2) m2 m3 else m3 = m2"
    and r: "if regular m then req_blocks m rid = [] else new ! i = []"
    and le: "nl + ne \<le> nt" and bs: "0 < mgr_block_size m"
  shows "(if regular m then get_num_evictable_blocks p (drop (skipped_blocks m (nl + ne)) (new ! i)) else 0) +
      (if ne > 0 then external_cost rid nl ne m2 else 0) + new_cost rid (tokens_for enc nt m3) m3
    \<le> needed rid nt new enc (nl + ne) nl False p i m"
proof -
  have st: "mgr_kind m2 = mgr_kind m" "mgr_block_size m2 = mgr_block_size m" "mgr_kind m3 = mgr_kind m" "mgr_block_size m3 = mgr_block_size m"
    using a x by (auto simp: adopted_def extended_def static_def split: if_splits)
  show ?thesis
  proof (cases "regular m")
    case True
    have k: "mgr_kind m \<noteq> CircularBuffer" "mgr_kind m \<noteq> CrossAttention" using True by (auto simp: regular_def)
    define L where "L = max (skipped_blocks m (nl + ne)) (length (new ! i))"
    define E where "E = (if ne > 0 then external_cost rid nl ne m2 else 0)"
    have L2: "length (req_blocks m2 rid) = L" "partial_hit_reqs m2 rid \<noteq> None \<longrightarrow> has_partial_local_hit m (new ! i) nl"
      using a True by (auto simp: adopted_def L_def)
    have L3: "length (req_blocks m3 rid) = L + E" "partial_hit_reqs m3 rid = None \<or> partial_hit_reqs m3 rid = partial_hit_reqs m2 rid"
      using x L2(1) by (auto simp: E_def extended_def split: if_splits)
    have "cdivn (nl + ne) (mgr_block_size m) \<le> cdivn nt (mgr_block_size m)" using bs le by (rule cdivn_mono)
    then have E: "E \<le> cdivn nt (mgr_block_size m) - L"
      using k L2(1) st by (auto simp: E_def external_cost_def)
    have "new_cost rid (tokens_for enc nt m3) m3 =
        (if partial_hit_reqs m3 rid = None then 0 else 1) + (cdivn nt (mgr_block_size m) - (L + E))"
      using k st L3(1) by (simp add: new_cost_def tokens_for_def)
    moreover have "needed rid nt new enc (nl + ne) nl False p i m = (cdivn nt (mgr_block_size m) - L) +
        (if has_partial_local_hit m (new ! i) nl then 1 else 0) +
        get_num_evictable_blocks p (drop (skipped_blocks m (nl + ne)) (new ! i))"
      using k assms(1) r True by (simp add: needed_def L_def)
    moreover have "(if partial_hit_reqs m3 rid = None then 0 else 1) \<le> (if has_partial_local_hit m (new ! i) nl then 1 else (0 :: nat))"
      using L3(2) L2(2) by (cases "partial_hit_reqs m3 rid = None") simp_all
    ultimately show ?thesis using E True unfolding E_def [symmetric] by simp
  next
    case False
    then have m2: "m2 = m" using a by (simp add: adopted_def)
    show ?thesis
    proof (cases "mgr_kind m = CircularBuffer")
      case True
      then show ?thesis using m2 False x st by (auto simp: external_cost_def new_cost_def needed_def ring_cost_def extended_def split: if_splits)
    next
      case nc: False
      then have c: "mgr_kind m = CrossAttention" using False by (simp add: regular_def)
      have "external_cost rid nl ne m = 0" using c by (simp add: external_cost_def regular_def)
      then have "partial_hit_reqs m3 rid = None" "length (req_blocks m3 rid) = length (req_blocks m rid)"
        using x m2 assms(2) by (auto simp: extended_def split: if_splits)
      then show ?thesis using c m2 False st by (simp add: external_cost_def new_cost_def needed_def tokens_for_def regular_def)
    qed
  qed
qed

lemma all_accounted_bs: "all_accounted ext ms p \<Longrightarrow> k < length ms \<Longrightarrow> 0 < mgr_block_size (ms ! k)"
  by (simp add: all_accounted_def mgr_wf_def)

lemma on_managers_eq:
  "each_manager f 0 (single_type_managers c) (coord_pool c) = Inr (xs, ms, p) \<Longrightarrow>
     on_managers f c = Inr (xs, c\<lparr>single_type_managers := ms, coord_pool := p\<rparr>)"
  by (simp add: on_managers_def)

lemma adopt_fits:
  assumes P: "pool_inv (coord_pool c) free" and A: "all_accounted ext (single_type_managers c) (coord_pool c)"
    and N: "\<forall>m \<in> set (single_type_managers c). partial_hit_reqs m rid = None"
    and a: "adoptable rid new nl (single_type_managers c) (coord_pool c)"
    and n: "costs (needed rid nt new enc (nl + ne) nl False (coord_pool c)) 0 (single_type_managers c) \<le> length free" and le: "nl + ne \<le> nt"
  shows "\<exists>c' free'. allocate_new_computed_blocks rid new nl ne skip c = Inr c' \<and> pool_inv (coord_pool c') free' \<and>
    all_accounted ext (single_type_managers c') (coord_pool c') \<and> same_config (coord_pool c) (coord_pool c') \<and>
    length (single_type_managers c') = length (single_type_managers c) \<and>
    length free + costs (\<lambda>i m. new_cost rid (tokens_for enc nt m) m) 0 (single_type_managers c') \<le>
      length free' + costs (needed rid nt new enc (nl + ne) nl False (coord_pool c)) 0 (single_type_managers c)"
proof -
  let ?ms = "single_type_managers c" and ?p = "coord_pool c"
  define es where "es = map (\<lambda>k. get_num_evictable_blocks ?p (drop (skipped_blocks (?ms ! k) (nl + ne)) (new ! k))) [0..<length ?ms]"
  let ?ac = "\<lambda>i m. if regular m then es ! i else 0" and ?nd = "needed rid nt new enc (nl + ne) nl False ?p"
  have es: "es ! k = get_num_evictable_blocks ?p (drop (skipped_blocks (?ms ! k) (nl + ne)) (new ! k))" if "k < length ?ms" for k
    using that by (simp add: es_def)
  have ad: "num_cached_block (?ms ! k) rid = None" "if regular (?ms ! k) then req_blocks (?ms ! k) rid = [] else new ! k = []"
    if "k < length ?ms" for k using a that by (auto simp: adoptable_def)
  have pre: "\<forall>k < length ?ms. adopt_pre rid new es nl ne (0 + k) (?ms ! k) ?p"
    using a N refs_null [OF P] es by (auto simp: adoptable_def adopt_pre_def)
  have step: "?ac k (?ms ! k) + (if ne > 0 then external_cost rid nl ne m2 else 0) + new_cost rid (tokens_for enc nt m3) m3 \<le> ?nd k (?ms ! k)"
    if "k < length ?ms" "adopted rid (new ! k) nl ne (?ms ! k) m2"
      "if ne > 0 then extended rid (external_cost rid nl ne m2) m2 m3 else m3 = m2" for k m2 m3
    unfolding es [OF that(1)]
    by (rule needed_adopt [OF ad(1) [OF that(1)] _ that(2,3) ad(2) [OF that(1)] le all_accounted_bs [OF A that(1)]]) (use N that(1) in simp)
  have "?ac k (?ms ! k) \<le> ?nd k (?ms ! k)" if k: "k < length ?ms" for k
    using ad [OF k] es [OF k] by (simp add: needed_def regular_def)
  then have "costs ?ac 0 ?ms \<le> costs ?nd 0 ?ms" unfolding costs_sum0 by (intro sum_mono) auto
  then have ca: "costs ?ac 0 ?ms \<le> length free" using n by simp
  from adopt_call.each_step [OF P A pre ca] obtain xs ms2 p2 free2 where
    2: "each_manager (\<lambda>i m p. bind_res (py_nth new i) (\<lambda>bs. no_result (mgr_add_local_computed_blocks rid bs nl ne m p))) 0 ?ms ?p = Inr (xs, ms2, p2)"
    "pool_inv p2 free2" "all_accounted ext ms2 p2" "length free \<le> length free2 + costs ?ac 0 ?ms" "length ms2 = length ?ms"
    "\<forall>k < length ?ms. adopted rid (new ! (0 + k)) nl ne (?ms ! k) (ms2 ! k)" "same_config ?p p2" by blast
  let ?c2 = "c\<lparr>single_type_managers := ms2, coord_pool := p2\<rparr>"
  have nc: "\<not> list_ex (\<lambda>m. num_cached_block m rid \<noteq> None) ?ms" using a by (auto simp: adoptable_def list_ex_iff in_set_conv_nth)
  have run: "allocate_new_computed_blocks rid new nl ne skip c =
      (if ne > 0 then bind_res (on_managers (\<lambda>i m p. no_result (mgr_allocate_external_computed_blocks rid nl ne (i \<notin> set skip) m p)) ?c2) (\<lambda>(_, c2). Inr c2)
       else Inr ?c2)"
    unfolding allocate_new_computed_blocks_def on_managers_eq [OF 2(1)] using nc by simp

  show ?thesis
  proof (cases "ne > 0")
    case False
    have "costs ?ac 0 ?ms + costs (\<lambda>i m. new_cost rid (tokens_for enc nt m) m) 0 ms2 \<le> costs ?nd 0 ?ms"
      unfolding costs_sum0 2(5) sum.distrib [symmetric]
    proof (rule sum_mono)
      fix k assume "k \<in> {..<length ?ms}"
      then show "?ac k (?ms ! k) + new_cost rid (tokens_for enc nt (ms2 ! k)) (ms2 ! k) \<le> ?nd k (?ms ! k)"
        using step [of k "ms2 ! k" "ms2 ! k"] 2(6) False by (simp split del: if_split)
    qed
    then show ?thesis using run False 2(2-5,7) by (intro exI [of _ ?c2] exI [of _ free2]) auto
  next
    case True
    let ?ec = "\<lambda>i m. external_cost rid nl ne m"
    have "costs ?ac 0 ?ms + costs ?ec 0 ms2 \<le> costs ?nd 0 ?ms"
      unfolding costs_sum0 2(5) sum.distrib [symmetric]
    proof (rule sum_mono)
      fix k assume "k \<in> {..<length ?ms}"
      then have k: "k < length ?ms" by simp
      let ?m = "ms2 ! k"
      have "\<exists>m3. extended rid (external_cost rid nl ne ?m) ?m m3"
        by (intro exI [of _ "set_blocks rid (req_blocks ?m rid @ replicate (external_cost rid nl ne ?m) 0) ?m"]) (simp add: extended_def)
      then obtain m3 where "extended rid (external_cost rid nl ne ?m) ?m m3" by blast
      from step [OF k _, of ?m m3] this show "?ac k (?ms ! k) + external_cost rid nl ne ?m \<le> ?nd k (?ms ! k)"
        using 2(6) k True by simp
    qed
    then have ce: "costs ?ec 0 ms2 \<le> length free2" using n 2(4) by simp
    have tt: "\<forall>k < length ms2. True" by simp
    from external_call.each_step [OF 2(2,3) tt ce, of skip] obtain ys ms3 p3 free3 where
      3: "each_manager (\<lambda>i m p. no_result (mgr_allocate_external_computed_blocks rid nl ne (i \<notin> set skip) m p)) 0 ms2 p2 = Inr (ys, ms3, p3)"
      "pool_inv p3 free3" "all_accounted ext ms3 p3" "length free2 \<le> length free3 + costs ?ec 0 ms2" "length ms3 = length ms2"
      "\<forall>k < length ms2. extended rid (external_cost rid nl ne (ms2 ! k)) (ms2 ! k) (ms3 ! k)" "same_config p2 p3" by blast
    have e3: "each_manager (\<lambda>i m p. no_result (mgr_allocate_external_computed_blocks rid nl ne (i \<notin> set skip) m p)) 0
        (single_type_managers ?c2) (coord_pool ?c2) = Inr (ys, ms3, p3)" using 3(1) by simp
    have "costs ?ac 0 ?ms + costs ?ec 0 ms2 + costs (\<lambda>i m. new_cost rid (tokens_for enc nt m) m) 0 ms3 \<le> costs ?nd 0 ?ms"
      unfolding costs_sum0 3(5) 2(5) sum.distrib [symmetric]
    proof (rule sum_mono)
      fix k assume "k \<in> {..<length ?ms}"
      then show "?ac k (?ms ! k) + external_cost rid nl ne (ms2 ! k) + new_cost rid (tokens_for enc nt (ms3 ! k)) (ms3 ! k) \<le> ?nd k (?ms ! k)"
        using step [of k "ms2 ! k" "ms3 ! k"] 2(5,6) 3(6) True by (simp split del: if_split)
    qed
    then show ?thesis using run True 2(4,5) 3(2-5) on_managers_eq [OF e3] same_config_trans [OF 2(7) 3(7)]
      by (intro exI [of _ "?c2\<lparr>single_type_managers := ms3, coord_pool := p3\<rparr>"] exI [of _ free3]) auto
  qed
qed

definition fitting :: "string \<Rightarrow> kv_cache_blocks \<Rightarrow> nat list list \<Rightarrow> nat \<Rightarrow> nat \<Rightarrow> kv_manager list \<Rightarrow> block_pool \<Rightarrow> bool" where
  "fitting rid new_computed new nl ne ms p \<longleftrightarrow>
     (\<forall>k < length ms. partial_hit_reqs (ms ! k) rid = None \<and> window_pos (ms ! k)) \<and>
     ((new_computed \<noteq> None \<or> ne > 0) \<and> adoptable rid new nl ms p \<or>
      extendable rid new (nl + ne) ms \<and> (new_computed = None \<and> ne = 0 \<or> (\<exists>k < length ms. num_cached_block (ms ! k) rid \<noteq> None)))"

lemma fitting_moved:
  assumes f: "fitting rid nc new nl ne ms p" and c: "same_config p p'" and l: "length ms' = length ms"
    and w: "\<forall>k < length ms. window_moved rid pr np (ms ! k) (ms' ! k)"
  shows "fitting rid nc new nl ne ms' p'"
proof -
  have s: "mgr_kind (ms' ! k) = mgr_kind (ms ! k)" "mgr_block_size (ms' ! k) = mgr_block_size (ms ! k)" "mgr_enable_caching (ms' ! k) = mgr_enable_caching (ms ! k)"
    "num_cached_block (ms' ! k) = num_cached_block (ms ! k)" "partial_hit_reqs (ms' ! k) = partial_hit_reqs (ms ! k)"
    "length (req_blocks (ms' ! k) rid) = length (req_blocks (ms ! k) rid)" if "k < length ms" for k
    using w that by (auto simp: window_moved_def static_def nulled_in_def)
  then have e: "req_blocks (ms' ! k) rid = [] \<longleftrightarrow> req_blocks (ms ! k) rid = []" if "k < length ms" for k
    using that by (metis length_0_conv)
  have h: "hit_shape (ms' ! k) p' x nl \<longleftrightarrow> hit_shape (ms ! k) p x nl" "regular (ms' ! k) \<longleftrightarrow> regular (ms ! k)" if "k < length ms" for k x
    using s(1,2) [OF that] c by (simp_all add: regular_def hit_shape_def same_config_def)
  have "adoptable rid new nl ms' p'" if "adoptable rid new nl ms p"
    using that h s(3,4) e l by (simp add: adoptable_def)
  moreover have "extendable rid new (nl + ne) ms'" if "extendable rid new (nl + ne) ms"
    using that s l by (simp add: extendable_def regular_def)
  moreover have "window_pos (ms' ! k) \<longleftrightarrow> window_pos (ms ! k)" if "k < length ms" for k using s(1) [OF that] by (simp add: window_pos_def)
  ultimately show ?thesis using f s(4,5) l unfolding fitting_def by auto
qed

lemma fitting_predicted:
  assumes "fitting rid nc new nl ne (single_type_managers c) p"
  shows "coord_get_num_blocks_to_allocate rid nt new enc tc nl' cap c =
    Inr (costs (needed rid nt new enc tc nl' cap (coord_pool c)) 0 (single_type_managers c))"
  by (rule predictor_total) (use assms in \<open>auto simp: fitting_def adoptable_def extendable_def\<close>)

definition slots_ready :: "string \<Rightarrow> nat \<Rightarrow> nat \<Rightarrow> kv_manager \<Rightarrow> bool" where
  "slots_ready rid enc nt m \<longleftrightarrow>
     (if mgr_kind m = CircularBuffer then req_blocks m rid \<noteq> []
      else tokens_for enc nt m \<le> length (req_blocks m rid) * mgr_block_size m)"

lemma adopt_stage:
  assumes P: "pool_inv (coord_pool c) free" and A: "all_accounted ext (single_type_managers c) (coord_pool c)"
    and f: "fitting rid nc new nl ne (single_type_managers c) (coord_pool c)"
    and n: "costs (needed rid nt new enc (nl + ne) nl False (coord_pool c)) 0 (single_type_managers c) \<le> length free" and le: "nl + ne \<le> nt"
  shows "\<exists>c' free'. (if nc \<noteq> None \<or> ne > 0 then allocate_new_computed_blocks rid new nl ne skip c else Inr c) = Inr c' \<and>
    pool_inv (coord_pool c') free' \<and> all_accounted ext (single_type_managers c') (coord_pool c') \<and>
    same_config (coord_pool c) (coord_pool c') \<and>
    length free + costs (\<lambda>i m. new_cost rid (tokens_for enc nt m) m) 0 (single_type_managers c') \<le>
      length free' + costs (needed rid nt new enc (nl + ne) nl False (coord_pool c)) 0 (single_type_managers c)"
proof (cases "(nc \<noteq> None \<or> ne > 0) \<and> adoptable rid new nl (single_type_managers c) (coord_pool c)")
  case True
  then have "\<forall>m \<in> set (single_type_managers c). partial_hit_reqs m rid = None" using f by (auto simp: fitting_def in_set_conv_nth)
  from adopt_fits [OF P A this _ n le, of skip] show ?thesis using True by auto
next
  case False
  let ?ms = "single_type_managers c"
  from f False have x: "extendable rid new (nl + ne) ?ms" "nc = None \<and> ne = 0 \<or> (\<exists>k < length ?ms. num_cached_block (?ms ! k) rid \<noteq> None)"
    by (auto simp: fitting_def)
  have "list_all (\<lambda>bs. length bs = 0) new" using x(1) by (auto simp: extendable_def list_all_length)
  then have run: "(if nc \<noteq> None \<or> ne > 0 then allocate_new_computed_blocks rid new nl ne skip c else Inr c) = Inr c"
    using x(2) by (auto simp: allocate_new_computed_blocks_def list_ex_length)
  have "new_cost rid (tokens_for enc nt (?ms ! k)) (?ms ! k) = needed rid nt new enc (nl + ne) nl False (coord_pool c) k (?ms ! k)"
    if k: "k < length ?ms" for k
    by (rule needed_extend) (use x(1) f k all_accounted_bs [OF A k] in \<open>auto simp: extendable_def fitting_def\<close>)
  then have "costs (\<lambda>i m. new_cost rid (tokens_for enc nt m) m) 0 ?ms = costs (needed rid nt new enc (nl + ne) nl False (coord_pool c)) 0 ?ms"
    unfolding costs_sum0 by (intro sum.cong) auto
  then show ?thesis using run P A by (intro exI [of _ c] exI [of _ free]) simp
qed

lemma new_stage:
  assumes P: "pool_inv (coord_pool c) free" and A: "all_accounted ext (single_type_managers c) (coord_pool c)"
    and n: "costs (\<lambda>i m. new_cost rid (tokens_for enc nt m) m) 0 (single_type_managers c) \<le> length free"
  shows "\<exists>bs c' free'. coord_allocate_new_blocks rid nt enc c = Inr (bs, c') \<and> pool_inv (coord_pool c') free' \<and>
    all_accounted ext (single_type_managers c') (coord_pool c') \<and> same_config (coord_pool c) (coord_pool c') \<and>
    length free \<le> length free' + costs (\<lambda>i m. new_cost rid (tokens_for enc nt m) m) 0 (single_type_managers c) \<and>
    list_all (slots_ready rid enc nt) (single_type_managers c')"
proof -
  let ?ms = "single_type_managers c"
  have tt: "\<forall>k < length ?ms. True" by simp
  from new_call.each_step [OF P A tt n] obtain bs ms' p' free' where
    1: "each_manager (\<lambda>i m p. mgr_allocate_new_blocks rid (if mgr_kind m = CrossAttention then enc else nt) m p) 0 ?ms (coord_pool c) = Inr (bs, ms', p')"
    "pool_inv p' free'" "all_accounted ext ms' p'" "length free \<le> length free' + costs (\<lambda>i m. new_cost rid (tokens_for enc nt m) m) 0 ?ms"
    "length ms' = length ?ms" "\<forall>k < length ?ms. covered rid (tokens_for enc nt (?ms ! k)) (?ms ! k) (ms' ! k)"
    "same_config (coord_pool c) p'" by blast
  have "list_all (slots_ready rid enc nt) ms'"
    unfolding list_all_length using 1(5,6) by (auto simp: slots_ready_def covered_def static_def tokens_for_def)
  then show ?thesis using on_managers_eq [OF 1(1)] 1(2-5,7)
    by (intro exI [of _ bs] exI [of _ "c\<lparr>single_type_managers := ms', coord_pool := p'\<rparr>"] exI [of _ free']) (simp add: coord_allocate_new_blocks_def)
qed

lemma remove_stage:
  assumes P: "pool_inv (coord_pool c) free" and A: "all_accounted ext (single_type_managers c) (coord_pool c)"
    and f: "fitting rid nc new nl ne (single_type_managers c) (coord_pool c)"
  shows "\<exists>c' free'. coord_remove_skipped_blocks rid pr np c = Inr c' \<and> pool_inv (coord_pool c') free' \<and>
    all_accounted ext (single_type_managers c') (coord_pool c') \<and> same_config (coord_pool c) (coord_pool c') \<and>
    length free \<le> length free' \<and> fitting rid nc new nl ne (single_type_managers c') (coord_pool c')"
proof -
  let ?ms = "single_type_managers c"
  have pre: "\<forall>k < length ?ms. partial_hit_reqs (?ms ! k) rid = None" using f by (simp add: fitting_def)
  have z: "costs (\<lambda>i m. 0) 0 ?ms \<le> length free" by (simp add: costs_sum0)
  from remove_call.each_step [OF P A pre z, of pr np] obtain xs ms' p' free' where
    1: "each_manager (\<lambda>i m p. no_result (remove_skipped_blocks rid pr np m p)) 0 ?ms (coord_pool c) = Inr (xs, ms', p')"
    "pool_inv p' free'" "all_accounted ext ms' p'" "same_config (coord_pool c) p'" "length free \<le> length free' + costs (\<lambda>i m. 0) 0 ?ms"
    "length ms' = length ?ms" "\<forall>k < length ?ms. window_moved rid pr np (?ms ! k) (ms' ! k)" by blast
  have "fitting rid nc new nl ne ms' p'" by (rule fitting_moved [OF f 1(4,6,7)])
  then show ?thesis using on_managers_eq [OF 1(1)] 1(2-5)
    by (intro exI [of _ "c\<lparr>single_type_managers := ms', coord_pool := p'\<rparr>"] exI [of _ free']) (simp add: coord_remove_skipped_blocks_def costs_sum0)
qed

lemma free_blocks_len: "pool_inv p free \<Longrightarrow> get_num_free_blocks p = int (length free)"
  using refs_okD(3) [of p free "{}"] by (simp add: pool_inv_def get_num_free_blocks_def)

lemma admitted_stages:
  assumes P: "pool_inv (coord_pool c) free" and A: "all_accounted ext (single_type_managers c) (coord_pool c)"
    and f: "fitting rid nc new nl ne (single_type_managers c) (coord_pool c)"
    and n: "costs (needed rid nt new enc (nl + ne) nl False (coord_pool c)) 0 (single_type_managers c) + spare \<le> length free" and le: "nl + ne \<le> nt"
  shows "\<exists>c2 bs c3 free3. (if nc \<noteq> None \<or> ne > 0 then allocate_new_computed_blocks rid new nl ne skip c else Inr c) = Inr c2 \<and>
    coord_allocate_new_blocks rid nt enc c2 = Inr (bs, c3) \<and> pool_inv (coord_pool c3) free3 \<and>
    all_accounted ext (single_type_managers c3) (coord_pool c3) \<and> spare \<le> length free3 \<and>
    same_config (coord_pool c) (coord_pool c3) \<and> list_all (slots_ready rid enc nt) (single_type_managers c3)"
proof -
  have n1: "costs (needed rid nt new enc (nl + ne) nl False (coord_pool c)) 0 (single_type_managers c) \<le> length free" using n by simp
  from adopt_stage [OF P A f n1 le, of skip] obtain c2 free2 where
    2: "(if nc \<noteq> None \<or> ne > 0 then allocate_new_computed_blocks rid new nl ne skip c else Inr c) = Inr c2" "pool_inv (coord_pool c2) free2"
    "all_accounted ext (single_type_managers c2) (coord_pool c2)" "same_config (coord_pool c) (coord_pool c2)"
    "length free + costs (\<lambda>i m. new_cost rid (tokens_for enc nt m) m) 0 (single_type_managers c2) \<le>
      length free2 + costs (needed rid nt new enc (nl + ne) nl False (coord_pool c)) 0 (single_type_managers c)" by blast
  have n2: "costs (\<lambda>i m. new_cost rid (tokens_for enc nt m) m) 0 (single_type_managers c2) + spare \<le> length free2" using 2(5) n by linarith
  from new_stage [OF 2(2,3), of rid enc nt] n2 obtain bs c3 free3 where
    "coord_allocate_new_blocks rid nt enc c2 = Inr (bs, c3)" "pool_inv (coord_pool c3) free3" "all_accounted ext (single_type_managers c3) (coord_pool c3)"
    "same_config (coord_pool c2) (coord_pool c3)"
    "length free2 \<le> length free3 + costs (\<lambda>i m. new_cost rid (tokens_for enc nt m) m) 0 (single_type_managers c2)"
    "list_all (slots_ready rid enc nt) (single_type_managers c3)" by auto
  then show ?thesis using 2(1) same_config_trans [OF 2(4)] n2 by (intro exI [of _ c2] exI [of _ bs] exI [of _ c3] exI [of _ free3]) simp
qed

lemma allocate_slots_run:
  assumes "pool_inv (km_pool km) free" and "all_accounted ext (km_managers km) (km_pool km)"
    and "fitting (request_id r) nc (blocks_of km nc) (num_computed_tokens r + nnc) ne (km_managers km) (km_pool km)"
    and "num_computed_tokens r + nnc + ne \<le> max_model_len km" and "0 < num_new + ne + nnc"
  shows "let rid = request_id r; new = blocks_of km nc; nl = num_computed_tokens r + nnc; wm = admission_watermark r sched km;
      slots = min (nl + ne + num_new + lookahead) (max_model_len km)
    in \<exists>g c1 free1 n.
      coord_get_num_blocks_to_allocate rid (min (num_tokens r) (max_model_len km)) new enc (nl + ne) nl True (coordinator km) = Inr g \<and>
      coord_remove_skipped_blocks rid (nl + ne - num_in_flight_tokens r) (Some (num_prompt_tokens r)) (coordinator km) = Inr c1 \<and>
      coord_get_num_blocks_to_allocate rid slots new enc (nl + ne) nl False c1 = Inr n \<and>
      pool_inv (coord_pool c1) free1 \<and> all_accounted ext (single_type_managers c1) (coord_pool c1) \<and> length free \<le> length free1 \<and>
      same_config (km_pool km) (coord_pool c1) \<and> (\<exists>c2 bs c3 free3. n + wm + reserved \<le> length free1 \<longrightarrow>
         (if nc \<noteq> None \<or> ne > 0 then allocate_new_computed_blocks rid new nl ne skip c1 else Inr c1) = Inr c2 \<and>
         coord_allocate_new_blocks rid slots enc c2 = Inr (bs, c3) \<and>
         pool_inv (coord_pool c3) free3 \<and> all_accounted ext (single_type_managers c3) (coord_pool c3) \<and>
         wm + reserved \<le> length free3 \<and> same_config (coord_pool c1) (coord_pool c3) \<and>
         list_all (slots_ready rid enc slots) (single_type_managers c3)) \<and>
      allocate_slots env r num_new nnc nc lookahead ne delay enc must_fit reserved sched skip km =
        (if must_fit \<and> length free < g + wm then Inr (None, r, km)
         else if length free1 < n + wm + reserved then Inr (None, r, km\<lparr>coordinator := c1\<rparr>)
         else bind_res (if nc \<noteq> None \<or> ne > 0 then allocate_new_computed_blocks rid new nl ne skip c1 else Inr c1) (\<lambda>c2.
             bind_res (coord_allocate_new_blocks rid slots enc c2) (\<lambda>(bs, c3).
               if delay then Inr (Some (create_kv_cache_blocks bs), r, km\<lparr>coordinator := c3\<rparr>)
               else bind_res (coord_cache_blocks env r (min (nl + ne + num_new) (num_tokens r)) c3) (\<lambda>(r1, c4).
                 Inr (Some (create_kv_cache_blocks bs), r1, km\<lparr>coordinator := c4\<rparr>)))))"
proof -
  let ?rid = "request_id r" and ?new = "blocks_of km nc" and ?nl = "num_computed_tokens r + nnc" and ?c = "coordinator km"
  let ?wm = "admission_watermark r sched km" and ?slots = "min (num_computed_tokens r + nnc + ne + num_new + lookahead) (max_model_len km)"
  define g where "g = costs (needed ?rid (min (num_tokens r) (max_model_len km)) ?new enc (?nl + ne) ?nl True (coord_pool ?c)) 0 (single_type_managers ?c)"
  have g: "coord_get_num_blocks_to_allocate ?rid (min (num_tokens r) (max_model_len km)) ?new enc (?nl + ne) ?nl True ?c = Inr g"
    unfolding g_def by (rule fitting_predicted [OF assms(3)])
  from remove_stage [OF assms(1-3), of "?nl + ne - num_in_flight_tokens r" "Some (num_prompt_tokens r)"] obtain c1 free1 where
    1: "coord_remove_skipped_blocks ?rid (?nl + ne - num_in_flight_tokens r) (Some (num_prompt_tokens r)) ?c = Inr c1" "pool_inv (coord_pool c1) free1"
    "all_accounted ext (single_type_managers c1) (coord_pool c1)" "length free \<le> length free1"
    "fitting ?rid nc ?new ?nl ne (single_type_managers c1) (coord_pool c1)" "same_config (coord_pool ?c) (coord_pool c1)" by blast
  define n where "n = costs (needed ?rid ?slots ?new enc (?nl + ne) ?nl False (coord_pool c1)) 0 (single_type_managers c1)"
  have n: "coord_get_num_blocks_to_allocate ?rid ?slots ?new enc (?nl + ne) ?nl False c1 = Inr n"
    unfolding n_def by (rule fitting_predicted [OF 1(5)])
  note fr = free_blocks_len [OF assms(1)] free_blocks_len [OF 1(2)]
  have tot: "min (?nl + ne) (max_model_len km) = ?nl + ne" using assms(4) by simp
  have nz: "\<not> (num_new = 0 \<and> ne = 0 \<and> nnc = 0)" using assms(5) by auto
  have gate: "(if must_fit then bind_res (coord_get_num_blocks_to_allocate ?rid (min (num_tokens r) (max_model_len km)) ?new enc (?nl + ne) ?nl True ?c)
      (\<lambda>n. Inr (int (n + ?wm) \<le> get_num_free_blocks (coord_pool ?c))) else Inr True) = Inr (\<not> (must_fit \<and> length free < g + ?wm))"
    unfolding g bind_res_simps fr by auto
  have lim: "get_num_free_blocks (coord_pool c1) - int reserved < int (n + ?wm) \<longleftrightarrow> length free1 < n + ?wm + reserved"
    unfolding fr by linarith
  have run: "allocate_slots env r num_new nnc nc lookahead ne delay enc must_fit reserved sched skip km =
     (if must_fit \<and> length free < g + ?wm then Inr (None, r, km)
      else if length free1 < n + ?wm + reserved then Inr (None, r, km\<lparr>coordinator := c1\<rparr>)
      else bind_res (if nc \<noteq> None \<or> ne > 0 then allocate_new_computed_blocks ?rid ?new ?nl ne skip c1 else Inr c1) (\<lambda>c2.
             bind_res (coord_allocate_new_blocks ?rid ?slots enc c2) (\<lambda>(bs, c3).
               if delay then Inr (Some (create_kv_cache_blocks bs), r, km\<lparr>coordinator := c3\<rparr>)
               else bind_res (coord_cache_blocks env r (min (?nl + ne + num_new) (num_tokens r)) c3) (\<lambda>(r1, c4).
                 Inr (Some (create_kv_cache_blocks bs), r1, km\<lparr>coordinator := c4\<rparr>)))))"
    unfolding allocate_slots_def Let_def if_not_P [OF nz] tot gate bind_res_simps not_not 1(1) n lim ..
  have le: "?nl + ne \<le> ?slots" using assms(4) by simp
  have st: "\<exists>c2 bs c3 free3. n + ?wm + reserved \<le> length free1 \<longrightarrow>
         (if nc \<noteq> None \<or> ne > 0 then allocate_new_computed_blocks ?rid ?new ?nl ne skip c1 else Inr c1) = Inr c2 \<and>
         coord_allocate_new_blocks ?rid ?slots enc c2 = Inr (bs, c3) \<and>
         pool_inv (coord_pool c3) free3 \<and> all_accounted ext (single_type_managers c3) (coord_pool c3) \<and>
         ?wm + reserved \<le> length free3 \<and> same_config (coord_pool c1) (coord_pool c3) \<and>
         list_all (slots_ready ?rid enc ?slots) (single_type_managers c3)"
  proof (cases "n + ?wm + reserved \<le> length free1")
    case True
    then have sp: "n + (?wm + reserved) \<le> length free1" by simp
    show ?thesis using admitted_stages [OF 1(2,3,5) sp [unfolded n_def] le, of skip] by blast
  qed blast
  show ?thesis unfolding Let_def
    by (rule exI [of _ g], rule exI [of _ c1], rule exI [of _ free1], rule exI [of _ n]) (intro conjI g 1(1-4,6) n st run)
qed

text \<open>C1: A call of \<^verbatim>\<open>allocate_slots\<close> never runs out of blocks half way. For a request that takes over the
  hits of a lookup, or one that extends its tables, no step before the caching of blocks raises.
  The call returns \<open>None\<close> exactly when the full sequence has to fit and does not, or when the blocks
  counted for all groups plus watermark and reserve exceed the free blocks left after the blocks
  in front of the windows were dropped. Otherwise all blocks are handed out, every table covers the
  slots of the step, reference counts still match the holders, and the watermark and the reserved
  blocks are still free.\<close>

theorem allocate_slots_admission:
  assumes "pool_inv (km_pool km) free" and "all_accounted ext (km_managers km) (km_pool km)"
    and "fitting (request_id r) nc (blocks_of km nc) (num_computed_tokens r + nnc) ne (km_managers km) (km_pool km)"
    and "num_computed_tokens r + nnc + ne \<le> max_model_len km" and "0 < num_new + ne + nnc"
  shows "let rid = request_id r; new = blocks_of km nc; nl = num_computed_tokens r + nnc; wm = admission_watermark r sched km;
      slots = min (nl + ne + num_new + lookahead) (max_model_len km);
      run = allocate_slots env r num_new nnc nc lookahead ne delay enc must_fit reserved sched skip km
    in \<exists>g c1 free1 n.
      coord_get_num_blocks_to_allocate rid (min (num_tokens r) (max_model_len km)) new enc (nl + ne) nl True (coordinator km) = Inr g \<and>
      coord_remove_skipped_blocks rid (nl + ne - num_in_flight_tokens r) (Some (num_prompt_tokens r)) (coordinator km) = Inr c1 \<and>
      coord_get_num_blocks_to_allocate rid slots new enc (nl + ne) nl False c1 = Inr n \<and>
      pool_inv (coord_pool c1) free1 \<and> all_accounted ext (single_type_managers c1) (coord_pool c1) \<and> length free \<le> length free1 \<and>
      (if must_fit \<and> length free < g + wm then run = Inr (None, r, km)
       else if length free1 < n + wm + reserved then run = Inr (None, r, km\<lparr>coordinator := c1\<rparr>)
       else \<exists>bs c3 free3.
         run = (if delay then Inr (Some (create_kv_cache_blocks bs), r, km\<lparr>coordinator := c3\<rparr>)
                else bind_res (coord_cache_blocks env r (min (nl + ne + num_new) (num_tokens r)) c3) (\<lambda>(r1, c4).
                  Inr (Some (create_kv_cache_blocks bs), r1, km\<lparr>coordinator := c4\<rparr>))) \<and>
         pool_inv (coord_pool c3) free3 \<and> all_accounted ext (single_type_managers c3) (coord_pool c3) \<and>
         wm + reserved \<le> length free3 \<and> list_all (slots_ready rid enc slots) (single_type_managers c3))"
proof -
  note ex = allocate_slots_run [OF assms, unfolded Let_def, where sched = sched and lookahead = lookahead and enc = enc and reserved = reserved and skip = skip
      and env = env and delay = delay and must_fit = must_fit]
  show ?thesis unfolding Let_def using ex
  proof (elim exE conjE, goal_cases)
    case E: (1 g c1 free1 n c2 bs c3 free3)
    show ?case
    proof (rule exI [of _ g], rule exI [of _ c1], rule exI [of _ free1], rule exI [of _ n], intro conjI E(1-6), goal_cases)
      case 1
      let ?wm = "admission_watermark r sched km"
      show ?case
      proof (cases "(must_fit \<and> length free < g + ?wm) \<or> length free1 < n + ?wm + reserved")
        case True
        then show ?thesis using E(8) by auto
      next
        case False
        then show ?thesis using E(8,9) by auto
      qed
    qed
  qed
qed

text \<open>A fresh manager with a full attention, a sliding window and a ring group.\<close>

definition demo_km :: kv_cache_manager where
  "demo_km =
     \<lparr>coordinator = demo_coordinator\<lparr>single_type_managers := single_type_managers demo_coordinator @
        [SingleTypeKVCacheManager CircularBuffer 4 2 False False None 2 False]\<rparr>,
      max_model_len = 8, km_enable_caching = True, km_enable_kv_cache_events = False, log_stats = True,
      prefix_cache_stats_of = Some PrefixCacheStats, watermark_blocks = 0, kv_cache_event_metadata = []\<rparr>"


lemma demo_km_sel:
  "km_pool demo_km = demo_pool" "max_model_len demo_km = 8"
  "km_managers demo_km = [SingleTypeKVCacheManager FullAttention 2 0 True False None 2 True,
     SingleTypeKVCacheManager (SlidingWindow 3 0) 2 1 True False None 2 True,
     SingleTypeKVCacheManager CircularBuffer 4 2 False False None 2 False]"
  by (simp_all add: demo_km_def demo_coordinator_def)

lemma demo_km_accounted: "all_accounted (\<lambda>_. 0) (km_managers demo_km) (km_pool demo_km)"
  using demo_pool(2,4,7) refs_okD(1) [of demo_pool "[1, 2, 3]" "{}"] unfolding demo_km_sel
  by (auto simp: all_accounted_def pool_inv_def)

theorem allocate_slots_admission_witness:
  "\<exists>res. allocate_slots demo_env (demo_request [1, 2, 3] [[7, 0, 1, 2]]) 1 2 (Some [[1], [1], []]) 0 0 True 0 True 0 False [] demo_km = Inr res"
proof -
  let ?r = "demo_request [1, 2, 3] [[7, 0, 1, 2]]"
  have "fitting ''r'' (Some [[1], [1], []]) [[1], [1], []] 2 0 (km_managers demo_km) (km_pool demo_km)"
    using demo_pool(4) unfolding demo_km_sel
    by (auto simp: fitting_def adoptable_def regular_def hit_shape_def window_pos_def SingleTypeKVCacheManager_def req_blocks_def
        eval_nat_numeral cdivn_def cdiv_def less_Suc_eq)
  then have f: "fitting (request_id ?r) (Some [[1], [1], []]) (blocks_of demo_km (Some [[1], [1], []])) (num_computed_tokens ?r + 2) 0
      (km_managers demo_km) (km_pool demo_km)" by (simp add: demo_request_def blocks_of_def numeral_2_eq_2)
  have "pool_inv (km_pool demo_km) [1, 2, 3]" using demo_pool(2) by (simp add: demo_km_sel)
  from allocate_slots_admission [OF this demo_km_accounted f, where num_new = 1 and delay = True and env = demo_env and lookahead = 0
      and enc = 0 and must_fit = True and reserved = 0 and sched = False and skip = "[]"]
  show ?thesis unfolding Let_def by (auto simp: demo_km_sel demo_request_def split: if_splits)
qed

section \<open>Caching blocks keeps the accounts\<close>

text \<open>Registering blocks changes hashes and the counters of cached blocks, never a table or a reference.\<close>

definition same_tables :: "nat \<Rightarrow> kv_manager \<Rightarrow> kv_manager \<Rightarrow> bool" where
  "same_tables n m m' \<longleftrightarrow> mgr_wf n m' \<and> (\<forall>b. held m' b = held m b) \<and> req_blocks m' = req_blocks m \<and> static m m'"

lemma same_tables_refl: "mgr_wf n m \<Longrightarrow> same_tables n m m"
  by (simp add: same_tables_def)

lemma same_tables_trans: "same_tables n m m1 \<Longrightarrow> same_tables n m1 m2 \<Longrightarrow> same_tables n m m2"
  by (auto simp: same_tables_def intro: static_trans)

lemma same_tables_open: "mgr_wf n m \<Longrightarrow> same_tables n m (open_req rid m)"
  by (simp add: same_tables_def open_req_wf open_req_held)

lemma same_tables_cached: "same_tables n m m' \<Longrightarrow> same_tables n m (m'\<lparr>num_cached_block := x\<rparr>)"
proof -
  have "held (m'\<lparr>num_cached_block := x\<rparr>) = held m'" "req_blocks (m'\<lparr>num_cached_block := x\<rparr>) = req_blocks m'"
    by (simp_all add: held_def occ_def req_blocks_def fun_eq_iff)
  moreover from this have "mgr_wf n (m'\<lparr>num_cached_block := x\<rparr>) = mgr_wf n m'" by (simp add: mgr_wf_def)
  ultimately show "same_tables n m m' \<Longrightarrow> same_tables n m (m'\<lparr>num_cached_block := x\<rparr>)" by (simp add: same_tables_def)
qed

lemma base_cache_keeps:
  assumes "base_cache_blocks env r n ret bds m p = Inr (r', m', p')" and "index_ok p" and W: "mgr_wf (length (blocks p)) m"
  shows "index_step p p' \<and> same_tables (length (blocks p)) m m'"
proof (cases "p' = p \<and> m' = m")
  case True
  then show ?thesis using assms(2) W by (simp add: index_step_refl same_tables_refl)
next
  case False
  then obtain nc nf msk where
    c: "cache_full_blocks env r (req_blocks m (request_id r)) nc nf (mgr_block_size m) (mgr_group_id m) msk p = Inr (r', p')"
    and m': "\<exists>x. m' = (open_req (request_id r) m)\<lparr>num_cached_block := x\<rparr>"
    using assms(1) by (auto simp: base_cache_blocks_def Let_def split: if_splits prod.splits)
  have "index_step p p'" by (rule cache_full_blocks_index [OF c assms(2)]) (use req_blocks_bound [OF W] in blast)
  then show ?thesis using m' same_tables_cached [OF same_tables_open [OF W]] by auto
qed

lemma partial_tail_keeps:
  assumes "cache_partial_tail_block env r n m p = Inr (r', m', p')" and "index_ok p" and W: "mgr_wf (length (blocks p)) m"
  shows "index_step p p' \<and> same_tables (length (blocks p)) m m'"
proof (cases "p' = p")
  case True
  then have "m' = m \<or> m' = open_req (request_id r) m"
    using assms(1) by (auto simp: cache_partial_tail_block_def Let_def split: if_splits)
  then show ?thesis using True assms(2) W by (auto simp: index_step_refl same_tables_refl same_tables_open)
next
  case False
  then obtain i e x where i: "i < length (req_blocks m (request_id r))" and m': "m' = open_req (request_id r) m"
    and c: "cache_partial_block env r (req_blocks m (request_id r) ! i) e (mgr_group_id m) (mgr_block_size m) False p = Inr (x, r', p')"
    using assms(1) by (auto simp: cache_partial_tail_block_def Let_def not_le split: if_splits)
  have "req_blocks m (request_id r) ! i < length (blocks p)" using req_blocks_bound [OF W] i nth_mem by blast
  from cache_partial_block_index(1) [OF c assms(2) this] show ?thesis using m' same_tables_open [OF W] by simp
qed

lemma mgr_cache_keeps:
  assumes "mgr_cache_blocks env r n ret bds m p = Inr (r', m', p')" and I: "index_ok p" and W: "mgr_wf (length (blocks p)) m"
  shows "index_step p p' \<and> same_tables (length (blocks p)) m m'"
proof -
  have tail: "index_step p p' \<and> same_tables (length (blocks p)) m m'"
    if "bind_res (base_cache_blocks env r n ret bds m p) (\<lambda>(r1, m1, p1).
          if mgr_block_size m1 = hash_block_size p1 then Inr (r1, m1, p1) else cache_partial_tail_block env r1 n m1 p1) = Inr (r', m', p')"
  proof (cases "base_cache_blocks env r n ret bds m p")
    case (Inr y)
    obtain r1 m1 p1 where y: "y = (r1, m1, p1)" by (cases y)
    from base_cache_keeps [OF Inr [unfolded y] I W] have 1: "index_step p p1" "same_tables (length (blocks p)) m m1" by auto
    have 2: "index_ok p1" "length (blocks p1) = length (blocks p)" "mgr_wf (length (blocks p)) m1"
      using 1 hash_onlyD(1) [of p p1] by (auto simp: index_step_def same_tables_def)
    show ?thesis
    proof (cases "mgr_block_size m1 = hash_block_size p1")
      case True
      then show ?thesis using that Inr y 1 by simp
    next
      case False
      then have "cache_partial_tail_block env r1 n m1 p1 = Inr (r', m', p')" using that Inr y by simp
      from partial_tail_keeps [OF this 2(1)] 2(2,3) show ?thesis using 1 index_step_trans same_tables_trans by auto
    qed
  qed (use that in simp)
  show ?thesis using assms(1) tail base_cache_keeps [OF _ I W] index_step_refl [OF I] same_tables_refl [OF W]
    by (simp add: mgr_cache_blocks_def split: manager_kind.splits)
qed

lemma index_step_config: "index_step p p' \<Longrightarrow> same_config p p'"
  using hash_onlyD(1-6) [of p p'] by (simp add: index_step_def same_config_def)

lemma index_step_accounts:
  assumes "index_step p p'" and "all_accounted ext (ms0 @ m # ms) p" and "same_tables (length (blocks p)) m m'"
  shows "all_accounted ext (ms0 @ m' # ms) p'"
proof -
  have h: "hash_only p p'" using assms(1) by (simp add: index_step_def)
  have "all_held (ms0 @ m' # ms) b = all_held (ms0 @ m # ms) b" for b using assms(3) by (simp add: all_held_def same_tables_def)
  moreover have "rc p' b = rc p b" if "b < length (blocks p)" for b
    using arg_cong [OF hash_only_blk [OF h that], of ref_cnt] by (simp add: reset_hash_def)
  ultimately show ?thesis using assms(2,3) hash_onlyD(1,3) [OF h] by (auto simp: all_accounted_def same_tables_def)
qed

lemma each_cache_keeps:
  assumes "each_manager f i ms (r, p) = Inr (xs, ms', r', p')" and "pool_inv p free" and "all_accounted ext (ms0 @ ms) p"
    and step: "\<And>i m r p x m' r' p'. f i m (r, p) = Inr (x, m', r', p') \<Longrightarrow> index_ok p \<Longrightarrow> mgr_wf (length (blocks p)) m \<Longrightarrow>
      index_step p p' \<and> same_tables (length (blocks p)) m m'"
  shows "pool_inv p' free \<and> all_accounted ext (ms0 @ ms') p' \<and> same_config p p'"
  using assms(1-3)
proof (induction ms arbitrary: i r p xs ms' ms0)
  case (Cons m ms)
  from Cons.prems(1) obtain x m1 r1 p1 ys ms1 where
    1: "f i m (r, p) = Inr (x, m1, r1, p1)" "each_manager f (Suc i) ms (r1, p1) = Inr (ys, ms1, r', p')" "ms' = m1 # ms1"
    by (auto simp: bind_res_eq_Inr)
  have "index_ok p" using Cons.prems(2) by (simp add: pool_inv_def)
  from step [OF 1(1) this] have 2: "index_step p p1" "same_tables (length (blocks p)) m m1"
    using Cons.prems(3) by (auto simp: all_accounted_def)
  have "all_accounted ext ((ms0 @ [m1]) @ ms) p1" using index_step_accounts [OF 2(1) Cons.prems(3) 2(2)] by simp
  from Cons.IH [OF 1(2) index_step_inv [OF 2(1) Cons.prems(2)] this] show ?case
    using 1(3) same_config_trans [OF index_step_config [OF 2(1)]] by simp
qed simp

lemma coord_cache_keeps:
  assumes "coord_cache_blocks env r n c = Inr (r', c')" and "pool_inv (coord_pool c) free"
    and "all_accounted ext (single_type_managers c) (coord_pool c)"
  shows "pool_inv (coord_pool c') free \<and> all_accounted ext (single_type_managers c') (coord_pool c') \<and> same_config (coord_pool c) (coord_pool c')"
proof -
  let ?f = "\<lambda>i m (r1, p). if \<not> mgr_enable_caching m then Inr ((), m, r1, p)
             else bind_res (mgr_cache_blocks env r1 (get_num_cacheable_tokens n m c) (retention_interval c) (get_replay_boundaries r c) m p)
                    (\<lambda>(r2, m', p'). Inr ((), m', r2, p'))"
  from assms(1) obtain xs ms p where
    1: "each_manager ?f 0 (single_type_managers c) (r, coord_pool c) = Inr (xs, ms, r', p)" "c' = c\<lparr>single_type_managers := ms, coord_pool := p\<rparr>"
    by (auto simp: coord_cache_blocks_def Let_def bind_res_eq_Inr)
  have "pool_inv p free \<and> all_accounted ext ([] @ ms) p \<and> same_config (coord_pool c) p"
  proof (rule each_cache_keeps [OF 1(1) assms(2)])
    show "all_accounted ext ([] @ single_type_managers c) (coord_pool c)" using assms(3) by simp
    show "index_step p p' \<and> same_tables (length (blocks p)) m m'"
      if "?f i m (r, p) = Inr (x, m', r', p')" "index_ok p" "mgr_wf (length (blocks p)) m" for i m r p x m' r' p'
      using that mgr_cache_keeps [of env r _ _ _ m p r' m' p'] index_step_refl same_tables_refl
      by (auto simp: bind_res_eq_Inr split: if_splits)
  qed
  then show ?thesis using 1(2) by simp
qed

lemma allocate_slots_keeps:
  assumes P: "pool_inv (km_pool km) free" and A: "all_accounted ext (km_managers km) (km_pool km)"
    and "fitting (request_id r) nc (blocks_of km nc) (num_computed_tokens r + nnc) ne (km_managers km) (km_pool km)"
    and "num_computed_tokens r + nnc + ne \<le> max_model_len km"
    and R: "allocate_slots env r num_new nnc nc lookahead ne delay enc must_fit reserved sched skip km = Inr (res, r', km')"
  shows "\<exists>free'. pool_inv (km_pool km') free' \<and> all_accounted ext (km_managers km') (km_pool km') \<and> same_config (km_pool km) (km_pool km')"
proof -
  have z: "0 < num_new + ne + nnc" using R by (auto simp: allocate_slots_def split: if_splits)
  note ex = allocate_slots_run [OF assms(1-4) z, unfolded Let_def, where sched = sched and lookahead = lookahead and enc = enc
      and reserved = reserved and skip = skip and env = env and delay = delay and must_fit = must_fit]
  show ?thesis using ex
  proof (elim exE conjE, goal_cases)
    case E: (1 g c1 free1 n c2 bs c3 free3)
    let ?wm = "admission_watermark r sched km"
    consider "must_fit \<and> length free < g + ?wm" | "\<not> (must_fit \<and> length free < g + ?wm)" "length free1 < n + ?wm + reserved"
      | (go) "\<not> (must_fit \<and> length free < g + ?wm)" "\<not> length free1 < n + ?wm + reserved" by blast
    then show ?case
    proof cases
      case 1
      then show ?thesis using E(8) R P A by auto
    next
      case 2
      then have "km' = km\<lparr>coordinator := c1\<rparr>" using E(8) R by auto
      then show ?thesis using E(4,5,7) by auto
    next
      case go
      have 3: "pool_inv (coord_pool c3) free3" "all_accounted ext (single_type_managers c3) (coord_pool c3)"
        "same_config (km_pool km) (coord_pool c3)" using E(7,9) go same_config_trans [of "km_pool km" "coord_pool c1" "coord_pool c3"] by auto
      have "(if delay then Inr (Some (create_kv_cache_blocks bs), r, km\<lparr>coordinator := c3\<rparr>)
             else bind_res (coord_cache_blocks env r (min (num_computed_tokens r + nnc + ne + num_new) (num_tokens r)) c3) (\<lambda>(r1, c4).
               Inr (Some (create_kv_cache_blocks bs), r1, km\<lparr>coordinator := c4\<rparr>))) = Inr (res, r', km')"
        using E(8,9) go R by auto
      then have "km' = km\<lparr>coordinator := c3\<rparr> \<or> (\<exists>n r1 c4. coord_cache_blocks env r n c3 = Inr (r1, c4) \<and> km' = km\<lparr>coordinator := c4\<rparr>)"
        by (auto split: if_splits)
      then show ?thesis
      proof (elim disjE exE conjE)
        assume "km' = km\<lparr>coordinator := c3\<rparr>"
        then show ?thesis using 3 by auto
      next
        fix n r1 c4 assume c: "coord_cache_blocks env r n c3 = Inr (r1, c4)" and "km' = km\<lparr>coordinator := c4\<rparr>"
        then show ?thesis using coord_cache_keeps [OF c 3(1,2)] same_config_trans [OF 3(3)] by auto
      qed
    qed
  qed
qed

end
