(* ===== verification/BlockLifetime.thy ===== *)
theory BlockLifetime
  imports KVCacheManager
begin

text \<open>
  How the scheduler gives blocks back (\<^verbatim>\<open>src/vllm/v1/core/sched/scheduler.py\<close>). With several batches in flight
  and a connector that loads into free blocks, the blocks of a finished or preempted request
  only return to the pool when the last step that may write them has been processed; until then they wait in a
  queue with a fence. The state is the KV cache manager, the two step counters, the queue and the step each
  request was last scheduled in. The lemmas show that no reference is lost or released twice in any
  order of allocations, frees and processed steps.
\<close>

section \<open>State and operations\<close>

record block_scheduler =
  sched_km :: kv_cache_manager
  defer_block_free :: bool
  sched_step_seq :: nat
  processed_step_seq :: nat
  deferred_frees :: "(nat \<times> nat list) list"
  last_sched_seq :: "string \<Rightarrow> nat"

abbreviation sched_pool :: "block_scheduler \<Rightarrow> block_pool" where
  "sched_pool s \<equiv> km_pool (sched_km s)"

abbreviation sched_managers :: "block_scheduler \<Rightarrow> kv_manager list" where
  "sched_managers s \<equiv> km_managers (sched_km s)"

definition set_sched_pool :: "block_pool \<Rightarrow> block_scheduler \<Rightarrow> block_scheduler" where
  "set_sched_pool p s = s\<lparr>sched_km := set_pool p (sched_km s)\<rparr>"

definition request_blocks_can_be_freed :: "request \<Rightarrow> block_scheduler \<Rightarrow> bool" where
  "request_blocks_can_be_freed r s \<longleftrightarrow> \<not> defer_block_free s \<or> last_sched_seq s (request_id r) \<le> processed_step_seq s"

definition free_request_blocks :: "request \<Rightarrow> block_scheduler \<Rightarrow> block_scheduler res" where
  "free_request_blocks r s =
     (if request_blocks_can_be_freed r s
      then bind_res (km_free r (sched_km s)) (\<lambda>km. Inr (s\<lparr>sched_km := km\<rparr>))
      else let (bs, km) = km_pop_blocks_for_free r (sched_km s); s1 = s\<lparr>sched_km := km\<rparr>
           in Inr (if bs \<noteq> [] then s1\<lparr>deferred_frees := deferred_frees s1 @ [(sched_step_seq s1, bs)]\<rparr> else s1))"

definition free_cow_retained_blocks :: "nat list \<Rightarrow> nat \<Rightarrow> block_scheduler \<Rightarrow> block_scheduler res" where
  "free_cow_retained_blocks bs fence_seq s =
     (if \<not> defer_block_free s \<or> fence_seq \<le> processed_step_seq s
      then bind_res (free_own_blocks bs (sched_pool s)) (\<lambda>p. Inr (set_sched_pool p s))
      else Inr (s\<lparr>deferred_frees := deferred_frees s @ [(fence_seq, rev bs)]\<rparr>))"

text \<open>The loop of \<^verbatim>\<open>_drain_deferred_frees\<close>.\<close>

fun drain_loop :: "nat \<Rightarrow> (nat \<times> nat list) list \<Rightarrow> block_pool \<Rightarrow> ((nat \<times> nat list) list \<times> block_pool) res" where
  "drain_loop processed [] p = Inr ([], p)"
| "drain_loop processed ((fence, bs) # ds) p =
     (if fence > processed then Inr ((fence, bs) # ds, p)
      else bind_res (free_own_blocks (rev bs) p) (drain_loop processed ds))"

definition drain_deferred_frees :: "block_scheduler \<Rightarrow> block_scheduler res" where
  "drain_deferred_frees s =
     bind_res (drain_loop (processed_step_seq s) (deferred_frees s) (sched_pool s)) (\<lambda>(ds, p).
       Inr (set_sched_pool p (s\<lparr>deferred_frees := ds\<rparr>)))"

text \<open>The end of \<^verbatim>\<open>schedule\<close>: the copies of partially hit blocks leave with the step, and then the step gets its
  number if it schedules any token.\<close>

definition send_block_copies :: "block_scheduler \<Rightarrow> ((nat \<times> nat) list \<times> block_scheduler) res" where
  "send_block_copies s =
     (let (copies, retained, km) = take_kv_cache_block_copies (sched_km s); s1 = s\<lparr>sched_km := km\<rparr>
      in if copies \<noteq> [] then bind_res (free_cow_retained_blocks retained (sched_step_seq s1 + 1) s1) (\<lambda>s2. Inr (copies, s2))
         else Inr (copies, s1))"

definition advance_step_seq :: "nat \<Rightarrow> block_scheduler \<Rightarrow> block_scheduler" where
  "advance_step_seq total_num_scheduled_tokens s =
     (if defer_block_free s \<and> total_num_scheduled_tokens > 0 then s\<lparr>sched_step_seq := sched_step_seq s + 1\<rparr> else s)"

text \<open>What \<^verbatim>\<open>_update_after_schedule\<close> records for the fences, for each scheduled request.\<close>

definition record_sched_seq :: "(string \<times> nat) list \<Rightarrow> block_scheduler \<Rightarrow> block_scheduler" where
  "record_sched_seq num_scheduled_tokens s =
     (if defer_block_free s
      then s\<lparr>last_sched_seq := fold (\<lambda>(rid, n) f. f(rid := sched_step_seq s)) num_scheduled_tokens (last_sched_seq s)\<rparr>
      else s)"

definition number_step :: "(string \<times> nat) list \<Rightarrow> block_scheduler \<Rightarrow> block_scheduler" where
  "number_step num_scheduled_tokens s =
     record_sched_seq num_scheduled_tokens (advance_step_seq (sum_list (map snd num_scheduled_tokens)) s)"

text \<open>The start of \<^verbatim>\<open>update_from_output\<close>.\<close>

definition complete_step :: "nat \<Rightarrow> block_scheduler \<Rightarrow> block_scheduler res" where
  "complete_step total_num_scheduled_tokens s =
     (if defer_block_free s \<and> total_num_scheduled_tokens > 0
      then drain_deferred_frees (s\<lparr>processed_step_seq := processed_step_seq s + 1\<rparr>)
      else Inr s)"

section \<open>Steps\<close>

text \<open>
  Any order of the operations. Outputs arrive once per step with tokens, in the order of the steps, so
  never before such a step was scheduled. A request asks for slots with the hits of a lookup while it has
  no blocks, or extends its tables.
\<close>

inductive sched_step :: "block_scheduler \<Rightarrow> block_scheduler \<Rightarrow> bool" where
  allocate: "allocate_slots env r num_new nnc nc lookahead ne delay enc must_fit reserved has_sched skip (sched_km s) = Inr (res, r', km') \<Longrightarrow>
    fitting (request_id r) nc (blocks_of (sched_km s) nc) (num_computed_tokens r + nnc) ne (sched_managers s) (sched_pool s) \<Longrightarrow>
    num_computed_tokens r + nnc + ne \<le> max_model_len (sched_km s) \<Longrightarrow> sched_step s (s\<lparr>sched_km := km'\<rparr>)"
| give_back: "free_request_blocks r s = Inr s' \<Longrightarrow> sched_step s s'"
| copies: "send_block_copies s = Inr (cs, s') \<Longrightarrow> sched_step s s'"
| number: "sched_step s (number_step ns s)"
| complete: "complete_step n s = Inr s' \<Longrightarrow> (0 < n \<and> defer_block_free s \<longrightarrow> processed_step_seq s < sched_step_seq s) \<Longrightarrow> sched_step s s'"

inductive_cases sched_stepE: "sched_step s s'"

section \<open>Accounts with the queue\<close>

definition fenced :: "(nat \<times> nat list) list \<Rightarrow> nat \<Rightarrow> nat" where
  "fenced ds b = count_list (concat (map snd ds)) b"

lemma fenced_simps [simp]: "fenced [] b = 0" "fenced (d # ds) b = count_list (snd d) b + fenced ds b" "fenced (ds @ ds') b = fenced ds b + fenced ds' b"
  by (simp_all add: fenced_def)

text \<open>
  Every reference of the pool is an entry of a table, an endpoint of a pending copy, an entry of
  the queue, or held by someone else (\<open>ext\<close>). Fences are at most one step ahead.
\<close>

definition queue_ok :: "block_scheduler \<Rightarrow> bool" where
  "queue_ok s \<longleftrightarrow> processed_step_seq s \<le> sched_step_seq s \<and> (\<forall>rid. last_sched_seq s rid \<le> sched_step_seq s) \<and>
     (\<forall>d \<in> set (deferred_frees s). fst d \<le> Suc (sched_step_seq s) \<and> (\<forall>b \<in> set (snd d). b < length (blocks (sched_pool s)))) \<and>
     (\<not> defer_block_free s \<longrightarrow> deferred_frees s = [])"

definition lifetime_inv :: "(nat \<Rightarrow> nat) \<Rightarrow> block_scheduler \<Rightarrow> bool" where
  "lifetime_inv ext s \<longleftrightarrow> (\<exists>free. pool_inv (sched_pool s) free) \<and>
     all_accounted (\<lambda>b. ext b + fenced (deferred_frees s) b) (sched_managers s) (sched_pool s) \<and> queue_ok s"

lemma all_accounted_cong: "all_accounted ext ms p \<Longrightarrow> (\<And>b. b \<noteq> 0 \<Longrightarrow> ext' b = ext b) \<Longrightarrow> all_accounted ext' ms p"
  by (auto simp: all_accounted_def)

lemma release_ext:
  assumes P: "pool_inv p free" and A: "all_accounted (\<lambda>b. ext b + count_list bs b) ms p" and B: "\<forall>b \<in> set bs. b < length (blocks p)"
  shows "\<exists>p' free'. free_own_blocks bs p = Inr p' \<and> pool_inv p' free' \<and> same_config p p' \<and> all_accounted ext ms p'"
proof -
  have rc: "rc p b = int (ext b + count_list bs b + all_held ms b)" if "b < length (blocks p)" "b \<noteq> 0" for b
    using A that by (simp add: all_accounted_def)
  have "releasable p bs" using B rc by (simp add: releasable_def)
  from free_blocks_refs [OF P this] obtain p' free' where
    1: "free_own_blocks bs p = Inr p'" "pool_inv p' free'" "same_config p p'" "\<forall>j < length (blocks p). rc p' j = rc p j - int (count_list bs j)" by blast
  have "all_accounted ext ms p'" using A 1(3,4) rc by (auto simp: all_accounted_def same_config_def)
  then show ?thesis using 1(1-3) by blast
qed

text \<open>Managers that hand over references.\<close>

lemma all_held_split:
  "\<forall>m \<in> set ms. held m b = held (g m) b + count_list (h m) b \<Longrightarrow> all_held ms b = all_held (map g ms) b + count_list (concat (map h ms)) b"
  by (induction ms) simp_all

lemma hand_over:
  assumes A: "all_accounted ext ms p"
    and h: "\<And>m n. m \<in> set ms \<Longrightarrow> mgr_wf n m \<Longrightarrow> mgr_wf n (g m) \<and> (\<forall>b. held (g m) b + count_list (h m) b = held m b)"
  shows "all_accounted (\<lambda>b. ext b + count_list (concat (map h ms)) b) (map g ms) p" and "b \<in> set (concat (map h ms)) \<Longrightarrow> b < length (blocks p)"
proof -
  have W: "mgr_wf (length (blocks p)) m" if "m \<in> set ms" for m using A that by (simp add: all_accounted_def)
  have hb: "held m b = held (g m) b + count_list (h m) b" "mgr_wf (length (blocks p)) (g m)" if "m \<in> set ms" for m b
    using h [OF that W [OF that]] by simp_all
  then have "all_held ms b = all_held (map g ms) b + count_list (concat (map h ms)) b" for b by (intro all_held_split) blast
  moreover have "\<forall>m \<in> set (map g ms). mgr_wf (length (blocks p)) m" using hb(2) by simp
  ultimately show "all_accounted (\<lambda>b. ext b + count_list (concat (map h ms)) b) (map g ms) p" using A by (simp add: all_accounted_def)
  assume "b \<in> set (concat (map h ms))"
  then obtain m where m: "m \<in> set ms" "b \<in> set (h m)" by auto
  then have "0 < count_list (h m) b" using count_list_0_iff [of "h m" b] by auto
  then have "0 < held m b" using hb(1) [OF m(1), of b] by simp
  then show "b < length (blocks p)" using W [OF m(1)] by (simp add: mgr_wf_def)
qed

lemma pop_hand_over:
  assumes "all_accounted ext (single_type_managers c) p" and "coord_pop_blocks_for_free rid c = (bs, c')"
  shows "all_accounted (\<lambda>b. ext b + count_list bs b) (single_type_managers c') p" and "\<forall>b \<in> set bs. b < length (blocks p)"
    and "coord_pool c' = coord_pool c" and "bs = concat (map (\<lambda>m. req_blocks m rid) (single_type_managers c))"
proof -
  have e: "bs = concat (map (\<lambda>m. req_blocks m rid) (single_type_managers c))"
    "single_type_managers c' = map (\<lambda>m. snd (pop_blocks_for_free rid m)) (single_type_managers c)" "coord_pool c' = coord_pool c"
    using assms(2) by (auto simp: coord_pop_blocks_for_free_def Let_def comp_def pop_blocks_for_free_def)
  have h: "mgr_wf n (snd (pop_blocks_for_free rid m)) \<and> (\<forall>b. held (snd (pop_blocks_for_free rid m)) b + count_list (req_blocks m rid) b = held m b)"
    if "mgr_wf n m" for m n
    using pop_held(1,2) [OF that, of rid "req_blocks m rid" "snd (pop_blocks_for_free rid m)"] by (simp add: pop_blocks_for_free_def)
  show "all_accounted (\<lambda>b. ext b + count_list bs b) (single_type_managers c') p"
    unfolding e(1,2) by (rule hand_over(1) [OF assms(1)]) (rule h)
  show "\<forall>b \<in> set bs. b < length (blocks p)"
    unfolding e(1) using hand_over(2) [OF assms(1), of "\<lambda>m. snd (pop_blocks_for_free rid m)" "\<lambda>m. req_blocks m rid"] h by blast
  show "coord_pool c' = coord_pool c" "bs = concat (map (\<lambda>m. req_blocks m rid) (single_type_managers c))" by (fact e)+
qed

lemma take_copies_held:
  assumes "mgr_wf n m"
  shows "mgr_wf n (snd (take_pending_cow_copies m)) \<and>
    (\<forall>b. held (snd (take_pending_cow_copies m)) b + count_list (map fst (pending_cow_copies m) @ map snd (pending_cow_copies m)) b = held m b)"
proof -
  let ?m = "snd (take_pending_cow_copies m)"
  have e: "req_to_blocks ?m = req_to_blocks m" "pending_cow_copies ?m = []" "partial_hit_reqs ?m = partial_hit_reqs m"
    "mgr_block_size ?m = mgr_block_size m" "req_blocks ?m = req_blocks m"
    by (simp_all add: take_pending_cow_copies_def req_blocks_def fun_eq_iff)
  then have h: "held ?m b + count_list (map fst (pending_cow_copies m) @ map snd (pending_cow_copies m)) b = held m b" for b
    by (simp add: held_def occ_def)
  then have "held ?m b \<le> held m b" for b by (metis le_add1)
  then have "mgr_wf n ?m" using assms unfolding mgr_wf_def e by (meson le_trans less_le_trans)
  then show ?thesis using h by blast
qed

lemma count_endpoints: "count_list (concat (map (\<lambda>(s, d). [s, d]) xs)) b = count_list (map fst xs @ map snd xs) b"
  by (induction xs) auto

lemma count_all_endpoints:
  "count_list (map fst (concat (map f ms)) @ map snd (concat (map f ms))) b = count_list (concat (map (\<lambda>m. map fst (f m) @ map snd (f m)) ms)) b"
  by (induction ms) auto

lemma set_count_eq: "(\<And>b. count_list xs b = count_list ys b) \<Longrightarrow> set xs = set ys"
  by (metis count_list_0_iff subsetI subset_antisym)

lemma copies_hand_over:
  assumes "all_accounted ext (km_managers km) p" and "take_kv_cache_block_copies km = (cs, bs, km')"
  shows "all_accounted (\<lambda>b. ext b + count_list bs b) (km_managers km') p" and "\<forall>b \<in> set bs. b < length (blocks p)" and "km_pool km' = km_pool km"
proof -
  let ?h = "\<lambda>m. map fst (pending_cow_copies m) @ map snd (pending_cow_copies m)"
  have e: "bs = concat (map (\<lambda>(s, d). [s, d]) (concat (map pending_cow_copies (km_managers km))))"
    "km_managers km' = map (\<lambda>m. snd (take_pending_cow_copies m)) (km_managers km)" "km_pool km' = km_pool km"
    using assms(2) by (auto simp: take_kv_cache_block_copies_def Let_def take_pending_cow_copies_def)
  have c: "count_list bs b = count_list (concat (map ?h (km_managers km))) b" for b
    unfolding e(1) count_endpoints count_all_endpoints ..
  show "all_accounted (\<lambda>b. ext b + count_list bs b) (km_managers km') p"
    unfolding e(2) c by (rule hand_over(1) [OF assms(1)]) (rule take_copies_held)
  show "\<forall>b \<in> set bs. b < length (blocks p)"
    unfolding set_count_eq [OF c] using hand_over(2) [OF assms(1), of "\<lambda>m. snd (take_pending_cow_copies m)" ?h] take_copies_held by blast
  show "km_pool km' = km_pool km" by (fact e(3))
qed

lemma drain_spec:
  assumes "pool_inv p free" and "all_accounted (\<lambda>b. ext b + fenced ds b) ms p" and "\<forall>d \<in> set ds. \<forall>b \<in> set (snd d). b < length (blocks p)"
  shows "\<exists>p' free'. drain_loop n ds p = Inr (dropWhile (\<lambda>d. fst d \<le> n) ds, p') \<and> pool_inv p' free' \<and> same_config p p' \<and>
    all_accounted (\<lambda>b. ext b + fenced (dropWhile (\<lambda>d. fst d \<le> n) ds) b) ms p'"
  using assms
proof (induction ds arbitrary: p free)
  case Nil
  then show ?case by auto
next
  case (Cons d ds)
  obtain f bs where d: "d = (f, bs)" by (cases d)
  show ?case
  proof (cases "f \<le> n")
    case False
    then show ?thesis using Cons.prems(1,2) by (intro exI [of _ p] exI [of _ free]) (simp add: d)
  next
    case True
    have B: "\<forall>b \<in> set (rev bs). b < length (blocks p)" using Cons.prems(3) by (simp add: d)
    have "all_accounted (\<lambda>b. (ext b + fenced ds b) + count_list (rev bs) b) ms p"
      using Cons.prems(2) by (rule all_accounted_cong) (simp add: d count_list_rev)
    from release_ext [OF Cons.prems(1) this B] obtain p1 free1 where
      1: "free_own_blocks (rev bs) p = Inr p1" "pool_inv p1 free1" "same_config p p1" "all_accounted (\<lambda>b. ext b + fenced ds b) ms p1" by blast
    have "\<forall>d \<in> set ds. \<forall>b \<in> set (snd d). b < length (blocks p1)" using Cons.prems(3) 1(3) by (simp add: same_config_def)
    from Cons.IH [OF 1(2,4) this] obtain p' free' where
      2: "drain_loop n ds p1 = Inr (dropWhile (\<lambda>d. fst d \<le> n) ds, p')" "pool_inv p' free'" "same_config p1 p'"
      "all_accounted (\<lambda>b. ext b + fenced (dropWhile (\<lambda>d. fst d \<le> n) ds) b) ms p'" by blast
    show ?thesis using 1(1) True 2(1,2,4) same_config_trans [OF 1(3) 2(3)]
      by (intro exI [of _ p'] exI [of _ free']) (simp add: d)
  qed
qed

section \<open>Every operation keeps the accounts\<close>

text \<open>Entries leave the queue only when their fence has passed.\<close>

definition waits :: "block_scheduler \<Rightarrow> block_scheduler \<Rightarrow> bool" where
  "waits s s' \<longleftrightarrow> defer_block_free s' = defer_block_free s \<and> processed_step_seq s \<le> processed_step_seq s' \<and>
     (\<forall>d \<in> set (deferred_frees s). processed_step_seq s' < fst d \<longrightarrow> d \<in> set (deferred_frees s'))"

lemma waits_refl [simp]: "waits s s"
  by (simp add: waits_def)

lemma waits_trans: "waits s s1 \<Longrightarrow> waits s1 s2 \<Longrightarrow> waits s s2"
  by (force simp: waits_def)

lemma lifetime_invD:
  assumes "lifetime_inv ext s"
  shows "\<exists>free. pool_inv (sched_pool s) free" and "all_accounted (\<lambda>b. ext b + fenced (deferred_frees s) b) (sched_managers s) (sched_pool s)"
    and "processed_step_seq s \<le> sched_step_seq s" and "last_sched_seq s rid \<le> sched_step_seq s"
    and "d \<in> set (deferred_frees s) \<Longrightarrow> fst d \<le> Suc (sched_step_seq s)"
    and "d \<in> set (deferred_frees s) \<Longrightarrow> b \<in> set (snd d) \<Longrightarrow> b < length (blocks (sched_pool s))"
    and "\<not> defer_block_free s \<Longrightarrow> deferred_frees s = []"
  using assms by (auto simp: lifetime_inv_def queue_ok_def)

lemma lifetime_km:
  assumes "lifetime_inv ext s" and "pool_inv (km_pool km) free" and "same_config (sched_pool s) (km_pool km)"
    and "all_accounted (\<lambda>b. ext b + fenced (deferred_frees s) b) (km_managers km) (km_pool km)"
  shows "lifetime_inv ext (s\<lparr>sched_km := km\<rparr>)"
  using assms by (auto simp: lifetime_inv_def queue_ok_def same_config_def)

lemma set_sched_pool_sel [simp]:
  "sched_pool (set_sched_pool p s) = p" "sched_managers (set_sched_pool p s) = sched_managers s" "deferred_frees (set_sched_pool p s) = deferred_frees s"
  "sched_step_seq (set_sched_pool p s) = sched_step_seq s" "processed_step_seq (set_sched_pool p s) = processed_step_seq s"
  "defer_block_free (set_sched_pool p s) = defer_block_free s" "last_sched_seq (set_sched_pool p s) = last_sched_seq s"
  by (simp_all add: set_sched_pool_def set_pool_def)

text \<open>Blocks that were handed over enter the queue.\<close>

lemma lifetime_enqueue:
  assumes "pool_inv (sched_pool s) free" and "queue_ok s"
    and "all_accounted (\<lambda>b. ext b + fenced (deferred_frees s) b + count_list bs b) (sched_managers s) (sched_pool s)"
    and "\<forall>b \<in> set bs. b < length (blocks (sched_pool s))" and "fence \<le> Suc (sched_step_seq s)" and "defer_block_free s"
    and "\<And>b. count_list bs' b = count_list bs b"
  shows "lifetime_inv ext (s\<lparr>deferred_frees := deferred_frees s @ [(fence, bs')]\<rparr>)"
proof -
  have "set bs' = set bs" by (rule set_count_eq) (rule assms(7))
  then have "queue_ok (s\<lparr>deferred_frees := deferred_frees s @ [(fence, bs')]\<rparr>)" using assms(2,4-6) by (auto simp: queue_ok_def)
  moreover have "all_accounted (\<lambda>b. ext b + fenced (deferred_frees s @ [(fence, bs')]) b) (sched_managers s) (sched_pool s)"
    using assms(3) by (rule all_accounted_cong) (simp add: assms(7))
  ultimately show ?thesis using assms(1) by (auto simp: lifetime_inv_def)
qed

lemma km_free_total:
  assumes P: "pool_inv (km_pool km) free" and A: "all_accounted ext (km_managers km) (km_pool km)"
  shows "\<exists>km' free'. km_free r km = Inr km' \<and> pool_inv (km_pool km') free' \<and> all_accounted ext (km_managers km') (km_pool km') \<and>
    same_config (km_pool km) (km_pool km')"
proof -
  have tt: "\<forall>k < length (km_managers km). True" and z: "costs (\<lambda>i m. 0) 0 (km_managers km) \<le> length free" by (simp_all add: costs_sum0)
  from free_call.each_step [OF P A tt z, of "request_id r"] obtain xs ms' p' free' where
    1: "each_manager (\<lambda>i m p. no_result (mgr_free (request_id r) m p)) 0 (km_managers km) (km_pool km) = Inr (xs, ms', p')"
    "pool_inv p' free'" "all_accounted ext ms' p'" "same_config (km_pool km) p'" by blast
  show ?thesis using on_managers_eq [OF 1(1)] 1(2-4)
    by (intro exI [of _ "km\<lparr>coordinator := (coordinator km)\<lparr>single_type_managers := ms', coord_pool := p'\<rparr>\<rparr>"] exI [of _ free'])
      (simp add: km_free_def coord_free_def)
qed

lemma free_request_total:
  assumes I: "lifetime_inv ext s"
  shows "\<exists>s'. free_request_blocks r s = Inr s' \<and> lifetime_inv ext s' \<and> waits s s' \<and> processed_step_seq s' = processed_step_seq s \<and>
    (\<not> request_blocks_can_be_freed r s \<longrightarrow>
      (\<forall>m \<in> set (sched_managers s). \<forall>b \<in> set (req_blocks m (request_id r)). \<exists>d \<in> set (deferred_frees s'). fst d = sched_step_seq s \<and> b \<in> set (snd d)))"
proof -
  obtain free where P: "pool_inv (sched_pool s) free" using lifetime_invD(1) [OF I] by blast
  note A = lifetime_invD(2) [OF I]
  show ?thesis
  proof (cases "request_blocks_can_be_freed r s")
    case True
    from km_free_total [OF P A, of r] obtain km free' where
      1: "km_free r (sched_km s) = Inr km" "pool_inv (km_pool km) free'"
      "all_accounted (\<lambda>b. ext b + fenced (deferred_frees s) b) (km_managers km) (km_pool km)" "same_config (sched_pool s) (km_pool km)" by blast
    show ?thesis using 1(1) True lifetime_km [OF I 1(2,4,3)]
      by (intro exI [of _ "s\<lparr>sched_km := km\<rparr>"]) (simp add: free_request_blocks_def waits_def)
  next
    case False
    obtain bs c where pop: "coord_pop_blocks_for_free (request_id r) (coordinator (sched_km s)) = (bs, c)" by (metis surj_pair)
    note H = pop_hand_over [OF A pop]
    let ?s1 = "s\<lparr>sched_km := (sched_km s)\<lparr>coordinator := c\<rparr>\<rparr>"
    have run: "free_request_blocks r s = Inr (if bs \<noteq> [] then ?s1\<lparr>deferred_frees := deferred_frees s @ [(sched_step_seq s, bs)]\<rparr> else ?s1)"
      using False pop by (simp add: free_request_blocks_def km_pop_blocks_for_free_def)
    have d: "defer_block_free s" using False by (simp add: request_blocks_can_be_freed_def)
    have q: "queue_ok ?s1" using I H(3) by (simp add: lifetime_inv_def queue_ok_def)
    show ?thesis
    proof (cases "bs = []")
      case True
      have "lifetime_inv ext ?s1" using H(1,3) True P q by (auto simp: lifetime_inv_def)
      moreover have "req_blocks m (request_id r) = []" if "m \<in> set (sched_managers s)" for m using H(4) True that by simp
      ultimately show ?thesis using run True by (intro exI [of _ ?s1]) (simp add: waits_def)
    next
      case ne: False
      have "lifetime_inv ext (?s1\<lparr>deferred_frees := deferred_frees ?s1 @ [(sched_step_seq s, bs)]\<rparr>)"
        by (rule lifetime_enqueue [where bs = bs and free = free]) (use P q H d in simp_all)
      then show ?thesis using run ne H(4)
        by (intro exI [of _ "?s1\<lparr>deferred_frees := deferred_frees s @ [(sched_step_seq s, bs)]\<rparr>"]) (auto simp: waits_def)
    qed
  qed
qed

lemma send_copies_total:
  assumes I: "lifetime_inv ext s"
  shows "\<exists>cs s'. send_block_copies s = Inr (cs, s') \<and> lifetime_inv ext s' \<and> waits s s'"
proof -
  obtain free where P: "pool_inv (sched_pool s) free" using lifetime_invD(1) [OF I] by blast
  obtain cs bs km where t: "take_kv_cache_block_copies (sched_km s) = (cs, bs, km)" by (metis surj_pair)
  note H = copies_hand_over [OF lifetime_invD(2) [OF I] t]
  let ?s1 = "s\<lparr>sched_km := km\<rparr>"
  have q: "queue_ok ?s1" using I H(3) by (simp add: lifetime_inv_def queue_ok_def)
  have "bs = []" if "cs = []" using t that by (auto simp: take_kv_cache_block_copies_def Let_def)
  then consider (none) "cs = []" "bs = []" | (now) "cs \<noteq> []" "\<not> defer_block_free s \<or> Suc (sched_step_seq s) \<le> processed_step_seq s"
    | (later) "cs \<noteq> []" "\<not> (\<not> defer_block_free s \<or> Suc (sched_step_seq s) \<le> processed_step_seq s)" by blast
  then show ?thesis
  proof cases
    case none
    have "lifetime_inv ext ?s1" using H(1,3) none P q by (auto simp: lifetime_inv_def)
    then show ?thesis using t none by (intro exI [of _ cs] exI [of _ ?s1]) (simp add: send_block_copies_def waits_def)
  next
    case now
    from release_ext [OF _ H(1)] P H(2,3) obtain p' free' where
      1: "free_own_blocks bs (sched_pool s) = Inr p'" "pool_inv p' free'" "same_config (sched_pool s) p'"
      "all_accounted (\<lambda>b. ext b + fenced (deferred_frees s) b) (km_managers km) p'" by blast
    have "lifetime_inv ext (set_sched_pool p' ?s1)"
      using 1(2-4) q H(3) by (auto simp: lifetime_inv_def queue_ok_def same_config_def)
    then show ?thesis using t now 1(1) H(3)
      by (intro exI [of _ cs] exI [of _ "set_sched_pool p' ?s1"]) (simp add: send_block_copies_def free_cow_retained_blocks_def waits_def)
  next
    case later
    have "lifetime_inv ext (?s1\<lparr>deferred_frees := deferred_frees ?s1 @ [(Suc (sched_step_seq s), rev bs)]\<rparr>)"
      by (rule lifetime_enqueue [where bs = bs and free = free]) (use P q H later in \<open>simp_all add: count_list_rev\<close>)
    then show ?thesis using t later
      by (intro exI [of _ cs] exI [of _ "?s1\<lparr>deferred_frees := deferred_frees s @ [(Suc (sched_step_seq s), rev bs)]\<rparr>"])
        (simp add: send_block_copies_def free_cow_retained_blocks_def waits_def)
  qed
qed

lemma fold_update_le: "(\<forall>x. f x \<le> (n :: nat)) \<Longrightarrow> fold (\<lambda>(rid, k) f. f(rid := n)) xs f y \<le> n"
  by (induction xs arbitrary: f) auto

lemma number_keeps:
  assumes I: "lifetime_inv ext s"
  shows "lifetime_inv ext (number_step ns s) \<and> waits s (number_step ns s) \<and> processed_step_seq (number_step ns s) = processed_step_seq s"
proof (cases "defer_block_free s")
  case False
  then show ?thesis using I by (simp add: number_step_def advance_step_seq_def record_sched_seq_def)
next
  case True
  define t where "t = sum_list (map snd ns)"
  define n where "n = (if t > 0 then sched_step_seq s + 1 else sched_step_seq s)"
  have e: "number_step ns s = s\<lparr>sched_step_seq := n, last_sched_seq := fold (\<lambda>(rid, k) f. f(rid := n)) ns (last_sched_seq s)\<rparr>"
    unfolding number_step_def t_def [symmetric] using True by (cases "0 < t") (simp_all add: n_def advance_step_seq_def record_sched_seq_def)
  have le: "sched_step_seq s \<le> n" by (simp add: n_def)
  then have "\<forall>x. last_sched_seq s x \<le> n" using lifetime_invD(4) [OF I] le_trans by blast
  from fold_update_le [OF this] have "queue_ok (number_step ns s)"
    using I le unfolding e lifetime_inv_def queue_ok_def by fastforce
  then show ?thesis using I unfolding e by (simp add: lifetime_inv_def waits_def)
qed

lemma in_dropWhile: "x \<in> set xs \<Longrightarrow> \<not> P x \<Longrightarrow> x \<in> set (dropWhile P xs)"
  by (induction xs) auto

lemma complete_total:
  assumes I: "lifetime_inv ext s" and g: "0 < n \<and> defer_block_free s \<longrightarrow> processed_step_seq s < sched_step_seq s"
  shows "\<exists>s'. complete_step n s = Inr s' \<and> lifetime_inv ext s' \<and> waits s s' \<and> sched_step_seq s' = sched_step_seq s \<and>
    (0 < n \<and> defer_block_free s \<longrightarrow> processed_step_seq s' = Suc (processed_step_seq s) \<and>
       deferred_frees s' = dropWhile (\<lambda>d. fst d \<le> Suc (processed_step_seq s)) (deferred_frees s))"
proof (cases "0 < n \<and> defer_block_free s")
  case False
  then show ?thesis using I by (intro exI [of _ s]) (auto simp: complete_step_def)
next
  case True
  obtain free where P: "pool_inv (sched_pool s) free" using lifetime_invD(1) [OF I] by blast
  let ?ds = "dropWhile (\<lambda>d. fst d \<le> Suc (processed_step_seq s)) (deferred_frees s)"
  have "\<forall>d \<in> set (deferred_frees s). \<forall>b \<in> set (snd d). b < length (blocks (sched_pool s))" using lifetime_invD(6) [OF I] by blast
  from drain_spec [OF P lifetime_invD(2) [OF I] this, of "Suc (processed_step_seq s)"] obtain p' free' where
    1: "drain_loop (Suc (processed_step_seq s)) (deferred_frees s) (sched_pool s) = Inr (?ds, p')" "pool_inv p' free'" "same_config (sched_pool s) p'"
    "all_accounted (\<lambda>b. ext b + fenced ?ds b) (sched_managers s) p'" by blast
  let ?s = "set_sched_pool p' (s\<lparr>processed_step_seq := Suc (processed_step_seq s), deferred_frees := ?ds\<rparr>)"
  have sel: "sched_managers ?s = sched_managers s" by (simp add: set_sched_pool_def set_pool_def)
  have "d \<in> set ?ds" if "d \<in> set (deferred_frees s)" "Suc (processed_step_seq s) < fst d" for d
    using that by (intro in_dropWhile) simp_all
  then have w: "waits s ?s" by (simp add: waits_def)
  have "queue_ok ?s" using I True g 1(3) unfolding lifetime_inv_def queue_ok_def same_config_def by (auto dest: set_dropWhileD)
  then have "lifetime_inv ext ?s" using 1(2,4) sel by (auto simp: lifetime_inv_def)
  then show ?thesis using True 1(1) w
    by (intro exI [of _ ?s]) (simp add: complete_step_def drain_deferred_frees_def)
qed

lemma step_keeps:
  assumes "sched_step s s'" and I: "lifetime_inv ext s"
  shows "lifetime_inv ext s' \<and> waits s s'"
  using assms(1)
proof cases
  case (allocate env r num_new nnc nc lookahead ne delay enc must_fit reserved has_sched skip res r' km')
  obtain free where P: "pool_inv (sched_pool s) free" using lifetime_invD(1) [OF I] by blast
  from allocate_slots_keeps [OF P lifetime_invD(2) [OF I] allocate(3,4,2)] obtain free' where
    1: "pool_inv (km_pool km') free'" "all_accounted (\<lambda>b. ext b + fenced (deferred_frees s) b) (km_managers km') (km_pool km')"
    "same_config (sched_pool s) (km_pool km')" by blast
  show ?thesis using lifetime_km [OF I 1(1,3,2)] allocate(1) by (simp add: waits_def)
next
  case (give_back r)
  then show ?thesis using free_request_total [OF I, of r] by auto
next
  case (copies cs)
  then show ?thesis using send_copies_total [OF I] by auto
next
  case (number ns)
  then show ?thesis using number_keeps [OF I] by auto
next
  case (complete n)
  then show ?thesis using complete_total [OF I, of n] by auto
qed

lemma steps_keep: "sched_step\<^sup>*\<^sup>* s s' \<Longrightarrow> lifetime_inv ext s \<Longrightarrow> lifetime_inv ext s' \<and> waits s s'"
proof (induction rule: rtranclp_induct)
  case (step y z)
  then show ?case using step_keeps [OF step.hyps(2)] waits_trans by blast
qed simp

lemma fenced_taken:
  assumes I: "lifetime_inv ext s" and "d \<in> set (deferred_frees s)" and "b \<in> set (snd d)" and "b \<noteq> 0"
  shows "0 < rc (sched_pool s) b"
proof -
  have "b \<in> set (concat (map snd (deferred_frees s)))" using assms(2,3) by auto
  then have "0 < fenced (deferred_frees s) b" unfolding fenced_def using count_list_0_iff by (metis not_gr_zero)
  then show ?thesis using lifetime_invD(2) [OF I] lifetime_invD(6) [OF I assms(2,3)] assms(4) by (simp add: all_accounted_def)
qed

section \<open>Properties\<close>

text \<open>A scheduler with a fresh manager that has scheduled one step and not seen its output; the request of
  the step has two blocks of the full attention group.\<close>

definition demo_sched :: block_scheduler where
  "demo_sched = \<lparr>sched_km = demo_km, defer_block_free = True, sched_step_seq = 1, processed_step_seq = 0, deferred_frees = [],
     last_sched_seq = (\<lambda>rid. if rid = ''r'' then 1 else 0)\<rparr>"

lemma demo_sched_inv: "lifetime_inv (\<lambda>_. 0) demo_sched"
  using demo_pool(2) demo_km_accounted by (auto simp: lifetime_inv_def queue_ok_def demo_sched_def demo_km_sel)

lemma demo_sched_running:
  "\<exists>s m b. lifetime_inv (\<lambda>_. 0) s \<and> defer_block_free s \<and> processed_step_seq s = 0 \<and> last_sched_seq s ''r'' = 1 \<and>
     m \<in> set (sched_managers s) \<and> b \<in> set (req_blocks m ''r'') \<and> b \<noteq> 0"
proof -
  let ?m = "SingleTypeKVCacheManager FullAttention 2 0 True False None 2 True"
  have a: "accounted (\<lambda>_. 0) ?m demo_pool"
    using demo_pool(2,4,7) refs_okD(1) [of demo_pool "[1, 2, 3]" "{}"] by (simp add: accounted_def pool_inv_def)
  from get_new_blocks_total [OF demo_pool(2), of 1] obtain p where
    1: "get_new_blocks 1 demo_pool = Inr ([1], p)" "pool_inv p [2, 3]" "same_config demo_pool p" by auto
  let ?m1 = "set_blocks ''r'' (req_blocks ?m ''r'' @ [1]) ?m"
  have "accounted (\<lambda>_. 0) ?m1 p" by (rule append_new_blocks(1) [OF demo_pool(2) a 1(1)])
  then have A: "all_accounted (\<lambda>_. 0) [?m1] p" by (simp add: all_accounted_def accounted_def)
  let ?s = "demo_sched\<lparr>sched_km := demo_km\<lparr>coordinator := demo_coordinator\<lparr>single_type_managers := [?m1], coord_pool := p\<rparr>\<rparr>\<rparr>"
  have "lifetime_inv (\<lambda>_. 0) ?s" using 1(2) A by (auto simp: lifetime_inv_def queue_ok_def demo_sched_def)
  moreover have "1 \<in> set (req_blocks ?m1 ''r'')" by simp
  ultimately show ?thesis by (intro exI [of _ ?s] exI [of _ ?m1] exI [of _ "1 :: nat"]) (simp add: demo_sched_def)
qed

text \<open>C3: The accounts of the scheduler's block bookkeeping hold in every state it can reach: by any
  sequence of slot allocations, frees of finished or preempted requests, copies of shared blocks, numbered steps and
  completed steps, the reference count of every block is exactly the number of table entries, pending
  copies and queue entries that name it (plus outside holders). In every such state freeing any
  request, sending copies and completing a scheduled step succeed, so no block is ever released twice.\<close>

theorem block_accounts_invariant:
  assumes "lifetime_inv ext s0" and "sched_step\<^sup>*\<^sup>* s0 s"
  shows "lifetime_inv ext s \<and> (\<exists>s'. free_request_blocks r s = Inr s') \<and> (\<exists>cs s'. send_block_copies s = Inr (cs, s')) \<and>
    (processed_step_seq s < sched_step_seq s \<longrightarrow> (\<exists>s'. complete_step n s = Inr s'))"
proof -
  have I: "lifetime_inv ext s" using steps_keep [OF assms(2,1)] by blast
  show ?thesis using I free_request_total [OF I, of r] send_copies_total [OF I] complete_total [OF I, of n] by blast
qed

theorem block_accounts_invariant_witness:
  "\<exists>s'. free_request_blocks (demo_request [1, 2, 3] []) (number_step [(''r'', 1)] demo_sched) = Inr s'"
proof -
  have "sched_step\<^sup>*\<^sup>* demo_sched (number_step [(''r'', 1)] demo_sched)" using sched_step.number by blast
  from block_accounts_invariant [OF demo_sched_inv this] show ?thesis by blast
qed

text \<open>C2: Blocks that a step in flight may still write are not given to anyone else. When a request is freed
  while a step it was scheduled in has not been processed, then in every state reached later, as long as that step is
  unprocessed, every block of the request is still referenced and not on the free list.\<close>

theorem in_flight_blocks_stay_taken:
  assumes I: "lifetime_inv ext s" and "defer_block_free s" and "processed_step_seq s < last_sched_seq s (request_id r)"
    and run: "free_request_blocks r s = Inr s1" and steps: "sched_step\<^sup>*\<^sup>* s1 s2"
    and late: "processed_step_seq s2 < last_sched_seq s (request_id r)"
    and b: "m \<in> set (sched_managers s)" "b \<in> set (req_blocks m (request_id r))" "b \<noteq> 0"
  shows "0 < rc (sched_pool s2) b \<and> (\<forall>free. pool_inv (sched_pool s2) free \<longrightarrow> b \<notin> set free)"
proof -
  have "\<not> request_blocks_can_be_freed r s" using assms(2,3) by (simp add: request_blocks_can_be_freed_def)
  with free_request_total [OF I, of r] run b(1,2) have 1: "lifetime_inv ext s1"
    and "\<exists>d \<in> set (deferred_frees s1). fst d = sched_step_seq s \<and> b \<in> set (snd d)" by auto
  then obtain d where d: "d \<in> set (deferred_frees s1)" "fst d = sched_step_seq s" "b \<in> set (snd d)" by blast
  from steps_keep [OF steps 1] have 2: "lifetime_inv ext s2" "waits s1 s2" by auto
  have "processed_step_seq s2 < fst d" using late lifetime_invD(4) [OF I, of "request_id r"] d(2) by linarith
  then have "d \<in> set (deferred_frees s2)" using 2(2) d(1) by (simp add: waits_def)
  from fenced_taken [OF 2(1) this d(3) b(3)] have "0 < rc (sched_pool s2) b" .
  moreover have "b \<notin> set free" if "pool_inv (sched_pool s2) free" for free
    using that refs_okD(4-6) [of "sched_pool s2" free "{}" b] calculation by (auto simp: pool_inv_def)
  ultimately show ?thesis by blast
qed

theorem in_flight_blocks_stay_taken_witness:
  "\<exists>s s1 m b. free_request_blocks (demo_request [1, 2, 3] []) s = Inr s1 \<and> m \<in> set (sched_managers s) \<and> b \<in> set (req_blocks m ''r'') \<and>
     0 < rc (sched_pool s1) b"
proof -
  obtain s m b where 1: "lifetime_inv (\<lambda>_. 0) s" "defer_block_free s" "processed_step_seq s = 0" "last_sched_seq s ''r'' = 1"
    "m \<in> set (sched_managers s)" "b \<in> set (req_blocks m ''r'')" "b \<noteq> 0" using demo_sched_running by blast
  have rid: "request_id (demo_request [1, 2, 3] []) = ''r''" by (simp add: demo_request_def)
  from free_request_total [OF 1(1), of "demo_request [1, 2, 3] []"] obtain s1 where
    2: "free_request_blocks (demo_request [1, 2, 3] []) s = Inr s1" "processed_step_seq s1 = processed_step_seq s" by blast
  have "0 < rc (sched_pool s1) b"
    using in_flight_blocks_stay_taken [OF 1(1,2) _ 2(1) rtranclp.rtrancl_refl _ 1(5) _ 1(7)] 1(3,4,6) 2(2) rid by simp
  then show ?thesis using 2(1) 1(5,6) by blast
qed

text \<open>Completing all outstanding steps.\<close>

definition complete_all :: "nat \<Rightarrow> block_scheduler \<Rightarrow> block_scheduler res" where
  "complete_all k s = for_res (\<lambda>_. complete_step 1) [0..<k] s"

lemma dropWhile_mono: "(\<And>x. P x \<Longrightarrow> Q x) \<Longrightarrow> dropWhile Q (dropWhile P xs) = dropWhile Q xs"
  by (induction xs) auto

lemma complete_all_spec:
  assumes I: "lifetime_inv ext s" and d: "defer_block_free s" and "processed_step_seq s + Suc k \<le> sched_step_seq s"
  shows "\<exists>s'. complete_all (Suc k) s = Inr s' \<and> lifetime_inv ext s' \<and> defer_block_free s' \<and> processed_step_seq s' = processed_step_seq s + Suc k \<and>
    sched_step_seq s' = sched_step_seq s \<and> deferred_frees s' = dropWhile (\<lambda>d. fst d \<le> processed_step_seq s + Suc k) (deferred_frees s)"
  using assms(3)
proof (induction k)
  case 0
  then have "0 < Suc 0 \<and> defer_block_free s \<longrightarrow> processed_step_seq s < sched_step_seq s" by simp
  from complete_total [OF I this] show ?case using d by (auto simp: complete_all_def waits_def)
next
  case (Suc k)
  then obtain s1 where 1: "complete_all (Suc k) s = Inr s1" "lifetime_inv ext s1" "defer_block_free s1"
    "processed_step_seq s1 = processed_step_seq s + Suc k" "sched_step_seq s1 = sched_step_seq s"
    "deferred_frees s1 = dropWhile (\<lambda>d. fst d \<le> processed_step_seq s + Suc k) (deferred_frees s)" by auto
  have "0 < Suc 0 \<and> defer_block_free s1 \<longrightarrow> processed_step_seq s1 < sched_step_seq s1" using Suc.prems 1(4,5) by simp
  from complete_total [OF 1(2) this] 1(3) obtain s2 where
    2: "complete_step 1 s1 = Inr s2" "lifetime_inv ext s2" "waits s1 s2" "sched_step_seq s2 = sched_step_seq s1"
    "processed_step_seq s2 = Suc (processed_step_seq s1)" "deferred_frees s2 = dropWhile (\<lambda>d. fst d \<le> Suc (processed_step_seq s1)) (deferred_frees s1)"
    by auto
  have "complete_all (Suc (Suc k)) s = Inr s2" using 1(1) 2(1) by (auto simp: complete_all_def)
  moreover have "deferred_frees s2 = dropWhile (\<lambda>d. fst d \<le> processed_step_seq s + Suc (Suc k)) (deferred_frees s)"
    unfolding 2(6) 1(4,6) by (subst dropWhile_mono) simp_all
  ultimately show ?case using 2 1(3-5) by (intro exI [of _ s2]) (simp add: waits_def)
qed

text \<open>C12: Deferred blocks come back. Once one more step with tokens is scheduled and all outstanding steps
  have completed, the queue is empty: no completion fails, and every reference the pool still counts
  belongs to a table, a pending copy or an outside holder.\<close>

theorem deferred_blocks_return:
  assumes I: "lifetime_inv ext s" and d: "defer_block_free s" and t: "0 < sum_list (map snd ns)"
  shows "\<exists>s'. complete_all (sched_step_seq (number_step ns s) - processed_step_seq s) (number_step ns s) = Inr s' \<and>
    deferred_frees s' = [] \<and> all_accounted ext (sched_managers s') (sched_pool s') \<and> (\<exists>free. pool_inv (sched_pool s') free)"
proof -
  let ?s = "number_step ns s"
  have n: "sched_step_seq ?s = Suc (sched_step_seq s)" "defer_block_free ?s" "deferred_frees ?s = deferred_frees s"
    using d t unfolding number_step_def advance_step_seq_def record_sched_seq_def by simp_all
  have I1: "lifetime_inv ext ?s" "processed_step_seq ?s = processed_step_seq s" using number_keeps [OF I] by blast+
  have le: "processed_step_seq s \<le> sched_step_seq s" by (rule lifetime_invD(3) [OF I])
  from complete_all_spec [OF I1(1) n(2), of "sched_step_seq s - processed_step_seq s"] n(1) I1(2) le obtain s' where
    1: "complete_all (Suc (sched_step_seq s - processed_step_seq s)) ?s = Inr s'" "lifetime_inv ext s'"
    "deferred_frees s' = dropWhile (\<lambda>d. fst d \<le> Suc (sched_step_seq s)) (deferred_frees s)" by (auto simp: n(3))
  have e: "deferred_frees s' = []" unfolding 1(3) dropWhile_eq_Nil_conv using lifetime_invD(5) [OF I] by blast
  have "Suc (sched_step_seq s) - processed_step_seq s = Suc (sched_step_seq s - processed_step_seq s)" using le by simp
  then show ?thesis using 1(1,2) e n(1) lifetime_invD(1,2) [OF 1(2)] by (intro exI [of _ s']) simp
qed

theorem deferred_blocks_return_witness:
  "\<exists>s'. complete_all 2 (number_step [(''r'', 1)] demo_sched) = Inr s' \<and> deferred_frees s' = []"
proof -
  have "defer_block_free demo_sched" "0 < sum_list (map snd [(''r'', 1 :: nat)])" by (simp_all add: demo_sched_def)
  from deferred_blocks_return [OF demo_sched_inv this] obtain s' where
    1: "complete_all (sched_step_seq (number_step [(''r'', 1)] demo_sched) - processed_step_seq demo_sched) (number_step [(''r'', 1)] demo_sched) = Inr s'"
    "deferred_frees s' = []" by blast
  have "sched_step_seq (number_step [(''r'', 1)] demo_sched) - processed_step_seq demo_sched = 2" by (simp add: number_step_def advance_step_seq_def record_sched_seq_def demo_sched_def)
  then show ?thesis using 1 by simp
qed

end
