(* ===== verification/NgramProposer.thy ===== *)
theory NgramProposer
  imports VllmPrelude
begin

text \<open>
  Draft tokens by prompt lookup (\<^verbatim>\<open>src/vllm/v1/spec_decode/ngram_proposer.py\<close>): the longest suffix of the tokens that
  occurred before, found in linear time with the failure function of Knuth, Morris and Pratt on the
  reversed tokens, and the tokens that followed it. The lemmas show that the loop ends and finds exactly the
  longest, earliest occurrence.
\<close>

section \<open>The search\<close>

text \<open>
  The \<^verbatim>\<open>while\<close> loop over the reversed tokens. Nothing in its shape bounds it, so it is a partial function;
  reads outside an array are errors.
\<close>

partial_function (option) ngram_loop :: "int list \<Rightarrow> nat \<Rightarrow> nat list \<Rightarrow> nat \<Rightarrow> nat \<Rightarrow> nat \<Rightarrow> nat \<Rightarrow> (nat \<times> nat) res option" where
  "ngram_loop tokens max_ngram lps longest_ngram position prev_lps i =
     (if i < length tokens
      then (case bind_res (py_nth tokens prev_lps) (\<lambda>a. bind_res (py_nth tokens i) (\<lambda>b. Inr (a = b))) of
              Inl e \<Rightarrow> Some (Inl e)
            | Inr same \<Rightarrow>
                if same
                then let prev1 = prev_lps + 1;
                         longest1 = (if prev1 \<ge> longest_ngram then prev1 else longest_ngram);
                         position1 = (if prev1 \<ge> longest_ngram then i else position);
                         lps1 = (if i < max_ngram then lps[i := prev1] else lps)
                     in if prev1 = max_ngram
                        then (case py_nth lps1 (max_ngram - 1) of
                                Inl e \<Rightarrow> Some (Inl e)
                              | Inr prev2 \<Rightarrow> ngram_loop tokens max_ngram lps1 longest1 position1 prev2 (i + 1))
                        else ngram_loop tokens max_ngram lps1 longest1 position1 prev1 (i + 1)
                else if prev_lps \<noteq> 0
                     then (case py_nth lps (prev_lps - 1) of
                             Inl e \<Rightarrow> Some (Inl e)
                           | Inr prev1 \<Rightarrow> ngram_loop tokens max_ngram lps longest_ngram position prev1 i)
                     else ngram_loop tokens max_ngram lps longest_ngram position prev_lps (i + 1))
      else Some (Inr (longest_ngram, position)))"

declare ngram_loop.simps [code]

definition find_longest_matched_ngram_and_propose_tokens :: "int list \<Rightarrow> nat \<Rightarrow> nat \<Rightarrow> nat \<Rightarrow> nat \<Rightarrow> int list res option" where
  "find_longest_matched_ngram_and_propose_tokens origin_tokens min_ngram max_ngram max_model_len k =
     (let total_token = length origin_tokens
      in if total_token < min_ngram then Some (Inr [])
         else let k1 = min (int k) (int max_model_len - int total_token)
              in if k1 \<le> 0 then Some (Inr [])
                 else (case ngram_loop (rev origin_tokens) max_ngram (replicate max_ngram 0) 0 0 0 1 of
                         None \<Rightarrow> None
                       | Some (Inl e) \<Rightarrow> Some (Inl e)
                       | Some (Inr (longest_ngram, position)) \<Rightarrow>
                           if longest_ngram < min_ngram then Some (Inr [])
                           else let start_position = total_token - 1 - position + longest_ngram;
                                    k2 = min (nat k1) (total_token - start_position)
                                in Some (Inr (take k2 (drop start_position origin_tokens)))))"

section \<open>Borders\<close>

text \<open>The first \<open>v\<close> tokens are also the last \<open>v\<close> of the first \<open>i\<close>.\<close>

definition border :: "'a list \<Rightarrow> nat \<Rightarrow> nat \<Rightarrow> bool" where
  "border t v i \<longleftrightarrow> v \<le> i \<and> i \<le> length t \<and> (\<forall>j < v. t ! j = t ! (i - v + j))"

lemma border_0 [simp]: "border t 0 i \<longleftrightarrow> i \<le> length t"
  by (simp add: border_def)

lemma border_Suc: "i < length t \<Longrightarrow> border t (Suc v) (Suc i) \<longleftrightarrow> border t v i \<and> t ! v = t ! i"
  by (auto simp: border_def less_Suc_eq)

lemma border_nest:
  assumes "border t u i" and "border t v i" and "u \<le> v"
  shows "border t u v"
proof -
  have "t ! j = t ! (v - u + j)" if "j < u" for j
  proof -
    have "t ! (v - u + j) = t ! (i - v + (v - u + j))" using assms(2,3) that by (simp add: border_def)
    also have "i - v + (v - u + j) = i - u + j" using assms by (simp add: border_def)
    also have "t ! (i - u + j) = t ! j" using assms(1) that by (simp add: border_def)
    finally show ?thesis by simp
  qed
  then show ?thesis using assms by (simp add: border_def)
qed

lemma border_trans:
  assumes "border t u v" and "border t v i"
  shows "border t u i"
proof -
  have "t ! j = t ! (i - u + j)" if "j < u" for j
  proof -
    have l: "v - u + j < v" "u \<le> v" "v \<le> i" using assms that by (auto simp: border_def)
    have "t ! j = t ! (v - u + j)" using assms(1) that by (simp add: border_def)
    also have "\<dots> = t ! (i - v + (v - u + j))" using assms(2) l(1) unfolding border_def by blast
    also have "i - v + (v - u + j) = i - u + j" using l by simp
    finally show ?thesis .
  qed
  then show ?thesis using assms by (simp add: border_def)
qed

text \<open>The longest proper border of at most \<open>n\<close> tokens.\<close>

definition best :: "'a list \<Rightarrow> nat \<Rightarrow> nat \<Rightarrow> nat \<Rightarrow> bool" where
  "best t n i p \<longleftrightarrow> border t p i \<and> p < i \<and> p \<le> n \<and> (\<forall>v. border t v i \<and> v < i \<and> v \<le> n \<longrightarrow> v \<le> p)"

section \<open>The invariant of the loop\<close>

text \<open>What is known about the current candidate: it is a border, and no longer one can be extended.\<close>

definition candidate :: "int list \<Rightarrow> nat \<Rightarrow> nat \<Rightarrow> nat \<Rightarrow> bool" where
  "candidate t n prev i \<longleftrightarrow> prev < i \<and> prev < n \<and> border t prev i \<and>
     (\<forall>v. prev < v \<and> v < i \<and> v < n \<and> border t v i \<and> i < length t \<longrightarrow> t ! v \<noteq> t ! i)"

definition table_ok :: "int list \<Rightarrow> nat \<Rightarrow> nat list \<Rightarrow> nat \<Rightarrow> bool" where
  "table_ok t n lps i \<longleftrightarrow> length lps = n \<and> (\<forall>x < n. if x < i then best t n (Suc x) (lps ! x) else lps ! x = 0)"

text \<open>The longest border so far and the last place it ends at.\<close>

definition longest_ok :: "int list \<Rightarrow> nat \<Rightarrow> nat \<Rightarrow> nat \<Rightarrow> nat \<Rightarrow> bool" where
  "longest_ok t n longest pos i \<longleftrightarrow>
     (0 < longest \<longrightarrow> pos < i \<and> border t longest (Suc pos) \<and> longest \<le> pos \<and> longest \<le> n) \<and>
     (\<forall>x v. x < i \<and> border t v (Suc x) \<and> v \<le> x \<and> v \<le> n \<and> 0 < v \<longrightarrow> v < longest \<or> (v = longest \<and> x \<le> pos))"

lemma extend_best:
  assumes c: "candidate t n prev i" and i: "i < length t" and m: "t ! prev = t ! i"
  shows "best t n (Suc i) (Suc prev)"
proof -
  have "v \<le> Suc prev" if v: "border t v (Suc i)" "v < Suc i" "v \<le> n" for v
  proof (cases v)
    case (Suc w)
    then have "border t w i" "t ! w = t ! i" using v(1) i by (simp_all add: border_Suc)
    moreover have "w < i" "w < n" using v(2,3) Suc by simp_all
    ultimately have "\<not> prev < w" using c i unfolding candidate_def by blast
    then show ?thesis using Suc by simp
  qed simp
  moreover have "border t (Suc prev) (Suc i)" using c i m by (simp add: border_Suc candidate_def)
  ultimately show ?thesis using c by (simp add: best_def candidate_def)
qed

lemma no_border:
  assumes c: "candidate t n 0 i" and i: "i < length t" and m: "t ! 0 \<noteq> t ! i"
  shows "best t n (Suc i) 0"
proof -
  have H: "t ! w \<noteq> t ! i" if "0 < w" "w < i" "w < n" "border t w i" for w
    using c that i by (simp add: candidate_def)
  have "v = 0" if v: "border t v (Suc i)" "v < Suc i" "v \<le> n" for v
  proof (rule ccontr)
    assume "v \<noteq> 0"
    then obtain w where w: "v = Suc w" by (cases v) auto
    have b: "border t w i" "t ! w = t ! i" using v(1) i unfolding w by (simp_all add: border_Suc)
    show False
    proof (cases "w = 0")
      case True
      then show False using b(2) m by simp
    next
      case False
      then show False using H [of w] b v(2,3) unfolding w by simp
    qed
  qed
  then have "v \<le> 0" if "border t v (Suc i) \<and> v < Suc i \<and> v \<le> n" for v using that by simp
  moreover have "border t 0 (Suc i)" using i by simp
  ultimately show ?thesis unfolding best_def by (intro conjI allI impI) simp_all
qed

lemma table_step:
  assumes "table_ok t n lps i" and "best t n (Suc i) p"
  shows "table_ok t n (if i < n then lps[i := p] else lps) (Suc i)"
  using assms by (auto simp: table_ok_def less_Suc_eq nth_list_update)

lemma table_step_zero: "table_ok t n lps i \<Longrightarrow> best t n (Suc i) 0 \<Longrightarrow> table_ok t n lps (Suc i)"
  by (auto simp: table_ok_def less_Suc_eq)

lemma longest_step_zero:
  assumes l: "longest_ok t n longest pos i" and b: "best t n (Suc i) 0"
  shows "longest_ok t n longest pos (Suc i)"
proof -
  have "v = 0" if "border t v (Suc i)" "v \<le> i" "v \<le> n" for v using b that by (simp add: best_def)
  then show ?thesis using l unfolding longest_ok_def less_Suc_eq by blast
qed

lemma longest_step:
  assumes l: "longest_ok t n longest pos i" and b: "best t n (Suc i) p" and p: "0 < p"
  shows "longest_ok t n (if p \<ge> longest then p else longest) (if p \<ge> longest then i else pos) (Suc i)"
proof -
  have old: "v < longest \<or> (v = longest \<and> x \<le> pos)" if "x < i" "border t v (Suc x)" "v \<le> x" "v \<le> n" "0 < v" for x v
    using l that unfolding longest_ok_def by blast
  have new: "v \<le> p" if "border t v (Suc i)" "v \<le> i" "v \<le> n" for v using b that by (simp add: best_def)
  have bp: "border t p (Suc i)" "p \<le> i" "p \<le> n" using b by (simp_all add: best_def)
  have "v < longest' \<or> (v = longest' \<and> x \<le> pos')"
    if "longest' = (if p \<ge> longest then p else longest)" "pos' = (if p \<ge> longest then i else pos)"
      "x < Suc i" "border t v (Suc x)" "v \<le> x" "v \<le> n" "0 < v" for x v longest' pos'
  proof (cases "x = i")
    case True
    then show ?thesis using new [of v] that by (auto split: if_splits)
  next
    case False
    then show ?thesis using old [of x v] that by (auto split: if_splits)
  qed
  moreover have "0 < longest \<longrightarrow> pos < Suc i \<and> border t longest (Suc pos) \<and> longest \<le> pos \<and> longest \<le> n"
    using l by (auto simp: longest_ok_def)
  ultimately show ?thesis using bp unfolding longest_ok_def by simp
qed

text \<open>The candidate after a match, with and without the cut at the longest allowed n-gram, and after a mismatch.\<close>

lemma candidate_extend:
  assumes "best t n (Suc i) p" and "p < n"
  shows "candidate t n p (Suc i)"
  using assms by (force simp: best_def candidate_def)

lemma candidate_cut:
  assumes b: "best t n (Suc i) n" and l: "best t n n q" and n: "0 < n"
  shows "candidate t n q (Suc i)"
proof -
  have bn: "border t n (Suc i)" "n < Suc i" using b by (simp_all add: best_def)
  have q: "border t q n" "q < n" "\<And>v. border t v n \<Longrightarrow> v < n \<Longrightarrow> v \<le> q" using l by (auto simp: best_def)
  have "v \<le> q" if "v < n" "border t v (Suc i)" for v using q(3) border_nest [OF that(2) bn(1)] that(1) by simp
  then show ?thesis using q(2) bn(2) border_trans [OF q(1) bn(1)] by (force simp: candidate_def)
qed

lemma candidate_fallback:
  assumes c: "candidate t n prev i" and l: "best t n prev q" and m: "i < length t \<Longrightarrow> t ! prev \<noteq> t ! i"
  shows "candidate t n q i"
proof -
  have p: "prev < i" "prev < n" "border t prev i" "\<And>v. prev < v \<Longrightarrow> v < i \<Longrightarrow> v < n \<Longrightarrow> border t v i \<Longrightarrow> i < length t \<Longrightarrow> t ! v \<noteq> t ! i"
    using c by (auto simp: candidate_def)
  have q: "border t q prev" "q < prev" "\<And>v. border t v prev \<Longrightarrow> v < prev \<Longrightarrow> v \<le> n \<Longrightarrow> v \<le> q" using l by (auto simp: best_def)
  have "t ! v \<noteq> t ! i" if v: "q < v" "v < i" "v < n" "border t v i" "i < length t" for v
  proof (cases "v < prev")
    case True
    then show ?thesis using q(3) [OF border_nest [OF v(4) p(3)]] v(1,3) by simp
  next
    case False
    then show ?thesis using p(4) [of v] m v by (cases "v = prev") auto
  qed
  then show ?thesis using p(1,2) q(2) border_trans [OF q(1) p(3)] by (auto simp: candidate_def)
qed

lemma table_read: "table_ok t n lps i \<Longrightarrow> 0 < x \<Longrightarrow> x \<le> n \<Longrightarrow> x \<le> i \<Longrightarrow> py_nth lps (x - 1) = Inr (lps ! (x - 1)) \<and> best t n x (lps ! (x - 1))"
  by (cases x) (auto simp: table_ok_def py_nth_def)

text \<open>The loop ends: every iteration moves on or falls back to a shorter candidate.\<close>

lemma ngram_loop_spec:
  assumes "candidate t n prev i" and "table_ok t n lps i" and "longest_ok t n longest pos i" and "i \<le> length t"
  shows "\<exists>longest' pos'. ngram_loop t n lps longest pos prev i = Some (Inr (longest', pos')) \<and> longest_ok t n longest' pos' (length t)"
  using assms
proof (induction "2 * (length t - i) + prev" arbitrary: prev i lps longest pos rule: less_induct)
  case less
  note c = less.prems(1) and tb = less.prems(2) and lo = less.prems(3) and il = less.prems(4)
  have p: "prev < i" "prev < n" using c by (simp_all add: candidate_def)
  show ?case
  proof (cases "i < length t")
    case False
    then have "i = length t" using il by simp
    then show ?thesis using lo by (subst ngram_loop.simps) simp
  next
    case i: True
    have rd: "bind_res (py_nth t prev) (\<lambda>a. bind_res (py_nth t i) (\<lambda>b. Inr (a = b))) = Inr (t ! prev = t ! i)"
      using i p(1) by (simp add: py_nth_def)
    show ?thesis
    proof (cases "t ! prev = t ! i")
      case True
      let ?p = "prev + 1" and ?lps = "if i < n then lps[i := prev + 1] else lps"
      let ?lo = "if prev + 1 \<ge> longest then prev + 1 else longest" and ?po = "if prev + 1 \<ge> longest then i else pos"
      have b: "best t n (i + 1) ?p" using extend_best [OF c i True] by simp
      have tb': "table_ok t n ?lps (i + 1)" using table_step [OF tb, of ?p] b by simp
      have lo': "longest_ok t n ?lo ?po (i + 1)" using longest_step [OF lo, of ?p] b by simp
      show ?thesis
      proof (cases "?p = n")
        case cut: True
        have rl: "py_nth ?lps (n - 1) = Inr (?lps ! (n - 1))" "best t n n (?lps ! (n - 1))"
          using table_read [OF tb', of n] p cut by auto
        have cd: "candidate t n (?lps ! (n - 1)) (i + 1)" using candidate_cut [of t n i] b rl(2) cut p(2) by simp
        have eq: "ngram_loop t n lps longest pos prev i = ngram_loop t n ?lps ?lo ?po (?lps ! (n - 1)) (i + 1)"
          by (subst ngram_loop.simps) (simp only: i rd True cut if_True sum.case Let_def rl(1) [unfolded cut] refl)
        have "?lps ! (n - 1) < n" using cd by (simp add: candidate_def)
        then have "2 * (length t - (i + 1)) + ?lps ! (n - 1) < 2 * (length t - i) + prev" using i cut by linarith
        from less.hyps [OF this cd tb' lo'] i show ?thesis unfolding eq by simp
      next
        case nocut: False
        have cd: "candidate t n ?p (i + 1)" using candidate_extend [of t n i ?p] b nocut p(2) by simp
        have eq: "ngram_loop t n lps longest pos prev i = ngram_loop t n ?lps ?lo ?po ?p (i + 1)"
          by (subst ngram_loop.simps) (simp only: i rd True nocut if_True if_False sum.case Let_def refl)
        have "2 * (length t - (i + 1)) + ?p < 2 * (length t - i) + prev" using i by linarith
        from less.hyps [OF this cd tb' lo'] i show ?thesis unfolding eq by simp
      qed
    next
      case ne: False
      show ?thesis
      proof (cases "prev = 0")
        case True
        have b: "best t n (Suc i) 0" using no_border [of t n i] c ne i True by simp
        have cd: "candidate t n prev (i + 1)" using candidate_extend [OF b] p(2) True by simp
        have z: "(prev \<noteq> 0) = False" using True by simp
        have eq: "ngram_loop t n lps longest pos prev i = ngram_loop t n lps longest pos prev (i + 1)"
          by (subst ngram_loop.simps) (simp only: i rd ne z if_True if_False sum.case)
        have "2 * (length t - (i + 1)) + prev < 2 * (length t - i) + prev" using i by linarith
        from less.hyps [OF this cd] table_step_zero [OF tb b] longest_step_zero [OF lo b] i show ?thesis unfolding eq by simp
      next
        case pos: False
        have rl: "py_nth lps (prev - 1) = Inr (lps ! (prev - 1))" "best t n prev (lps ! (prev - 1))"
          using table_read [OF tb, of prev] p pos by auto
        have cd: "candidate t n (lps ! (prev - 1)) i" by (rule candidate_fallback [OF c rl(2)]) (use ne in simp)
        have eq: "ngram_loop t n lps longest pos prev i = ngram_loop t n lps longest pos (lps ! (prev - 1)) i"
          by (subst ngram_loop.simps) (simp only: i rd ne pos rl(1) if_True if_False sum.case not_False_eq_True)
        have "2 * (length t - i) + lps ! (prev - 1) < 2 * (length t - i) + prev" using rl(2) by (simp add: best_def)
        from less.hyps [OF this cd tb lo il] show ?thesis unfolding eq .
      qed
    qed
  qed
qed

section \<open>Earlier occurrences of the last tokens\<close>

text \<open>The last \<open>n\<close> tokens also start at position \<open>s\<close>, further to the left.\<close>

definition seen_before :: "'a list \<Rightarrow> nat \<Rightarrow> nat \<Rightarrow> bool" where
  "seen_before ts n s \<longleftrightarrow> s + n < length ts \<and> take n (drop s ts) = drop (length ts - n) ts"

lemma seen_before_nth:
  "s + n < length ts \<Longrightarrow> seen_before ts n s \<longleftrightarrow> (\<forall>m < n. ts ! (s + m) = ts ! (length ts - n + m))"
  by (auto simp: seen_before_def list_eq_iff_nth_eq)

lemma border_rev:
  assumes x: "x < length ts" and v: "v \<le> x"
  shows "border (rev ts) v (Suc x) \<longleftrightarrow> seen_before ts v (length ts - 1 - x)"
proof -
  let ?T = "length ts" and ?s = "length ts - 1 - x"
  have sv: "?s + v < ?T" using x v by simp
  have j: "rev ts ! j = rev ts ! (Suc x - v + j) \<longleftrightarrow> ts ! (?s + (v - 1 - j)) = ts ! (?T - v + (v - 1 - j))" if "j < v" for j
  proof -
    have "?T - Suc j = ?T - v + (v - 1 - j)" "?T - Suc (Suc x - v + j) = ?s + (v - 1 - j)" using that x v by simp_all
    then have "rev ts ! j = ts ! (?T - v + (v - 1 - j))" "rev ts ! (Suc x - v + j) = ts ! (?s + (v - 1 - j))"
      using that x v by (simp_all add: rev_nth)
    then show ?thesis by auto
  qed
  have "border (rev ts) v (Suc x) \<longleftrightarrow> (\<forall>j < v. ts ! (?s + (v - 1 - j)) = ts ! (?T - v + (v - 1 - j)))"
    using x v j unfolding border_def by auto
  also have "\<dots> \<longleftrightarrow> (\<forall>m < v. ts ! (?s + m) = ts ! (?T - v + m))"
  proof (intro iffI allI impI)
    fix m assume a: "\<forall>j < v. ts ! (?s + (v - 1 - j)) = ts ! (?T - v + (v - 1 - j))" and m: "m < v"
    have "v - 1 - (v - 1 - m) = m" "v - 1 - m < v" using m by simp_all
    then show "ts ! (?s + m) = ts ! (?T - v + m)" using a [rule_format, of "v - 1 - m"] by simp
  next
    fix j assume a: "\<forall>m < v. ts ! (?s + m) = ts ! (?T - v + m)" and "j < v"
    then show "ts ! (?s + (v - 1 - j)) = ts ! (?T - v + (v - 1 - j))" using a [rule_format, of "v - 1 - j"] by simp
  qed
  also have "\<dots> \<longleftrightarrow> seen_before ts v ?s" using seen_before_nth [OF sv] by simp
  finally show ?thesis .
qed

text \<open>What the search returns, stated on the tokens themselves.\<close>

definition longest_earliest :: "'a list \<Rightarrow> nat \<Rightarrow> nat \<Rightarrow> nat \<Rightarrow> bool" where
  "longest_earliest ts max_ngram n s \<longleftrightarrow> n \<le> max_ngram \<and> seen_before ts n s \<and>
     (\<forall>n' s'. n' \<le> max_ngram \<and> seen_before ts n' s' \<longrightarrow> n' \<le> n) \<and> (\<forall>s'. seen_before ts n s' \<longrightarrow> s \<le> s')"

lemma ngram_search:
  assumes n: "0 < max_ngram" and ts: "ts \<noteq> []"
  shows "\<exists>longest pos. ngram_loop (rev ts) max_ngram (replicate max_ngram 0) 0 0 0 1 = Some (Inr (longest, pos)) \<and>
    (0 < longest \<longrightarrow> pos < length ts \<and> longest_earliest ts max_ngram longest (length ts - 1 - pos)) \<and>
    (longest = 0 \<longrightarrow> (\<forall>n s. 0 < n \<and> n \<le> max_ngram \<longrightarrow> \<not> seen_before ts n s))"
proof -
  let ?t = "rev ts"
  have l: "1 \<le> length ?t" using ts by (cases ts) auto
  have "candidate ?t max_ngram 0 1" using n l by (auto simp: candidate_def)
  moreover have "table_ok ?t max_ngram (replicate max_ngram 0) 1" using l by (simp add: table_ok_def best_def)
  moreover have "longest_ok ?t max_ngram 0 0 1" by (simp add: longest_ok_def)
  ultimately obtain longest pos where
    1: "ngram_loop ?t max_ngram (replicate max_ngram 0) 0 0 0 1 = Some (Inr (longest, pos))" "longest_ok ?t max_ngram longest pos (length ?t)"
    using ngram_loop_spec [OF _ _ _ l, of max_ngram 0 "replicate max_ngram 0" 0 0] by blast
  have up: "n' < longest \<or> (n' = longest \<and> length ts - 1 - s' \<le> pos)" if "0 < n'" "n' \<le> max_ngram" "seen_before ts n' s'" for n' s'
  proof -
    have s: "s' + n' < length ts" using that(3) by (simp add: seen_before_def)
    let ?x = "length ts - 1 - s'"
    have x: "?x < length ts" "n' \<le> ?x" "length ts - 1 - ?x = s'" using s by simp_all
    then have "border ?t n' (Suc ?x)" using border_rev [OF x(1,2)] that(3) by simp
    then show ?thesis using 1(2) x(1,2) that(1,2) unfolding longest_ok_def by simp
  qed
  have "longest_earliest ts max_ngram longest (length ts - 1 - pos) \<and> pos < length ts" if p: "0 < longest"
  proof -
    have b: "pos < length ts" "border ?t longest (Suc pos)" "longest \<le> pos" "longest \<le> max_ngram"
      using 1(2) p by (simp_all add: longest_ok_def)
    have "seen_before ts longest (length ts - 1 - pos)" using border_rev [OF b(1,3)] b(2) by simp
    moreover have "n' \<le> longest" if "n' \<le> max_ngram" "seen_before ts n' s'" for n' s'
      using up [OF _ that] by (cases "n' = 0") auto
    moreover have "length ts - 1 - pos \<le> s'" if "seen_before ts longest s'" for s'
      using up [OF p b(4) that] by auto
    ultimately show ?thesis using b(1,4) by (auto simp: longest_earliest_def)
  qed
  moreover have "\<not> seen_before ts n s" if "longest = 0" "0 < n" "n \<le> max_ngram" for n s using up [OF that(2,3), of s] that(1,2) by auto
  ultimately show ?thesis using 1(1) by blast
qed

text \<open>The drafted tokens.\<close>

definition drafts_for :: "int list \<Rightarrow> nat \<Rightarrow> nat \<Rightarrow> nat \<Rightarrow> nat \<Rightarrow> int list \<Rightarrow> bool" where
  "drafts_for ts min_ngram max_ngram max_model_len k r \<longleftrightarrow>
     (if k = 0 \<or> max_model_len \<le> length ts \<or> (\<forall>n s. min_ngram \<le> n \<and> n \<le> max_ngram \<longrightarrow> \<not> seen_before ts n s) then r = []
      else \<exists>n s. min_ngram \<le> n \<and> longest_earliest ts max_ngram n s \<and> r = take (min k (max_model_len - length ts)) (drop (s + n) ts))"

lemma take_eq_min: "take (min a (length xs - b)) (drop b xs) = take a (drop b xs)"
  by (cases "a \<le> length xs - b") (simp_all add: min_def)

lemma find_longest_spec:
  assumes n: "0 < min_ngram" "min_ngram \<le> max_ngram"
  shows "\<exists>r. find_longest_matched_ngram_and_propose_tokens ts min_ngram max_ngram max_model_len k = Some (Inr r) \<and>
    drafts_for ts min_ngram max_ngram max_model_len k r \<and> length r \<le> k"
proof -
  let ?k = "min (int k) (int max_model_len - int (length ts))"
  consider (short) "length ts < min_ngram" | (none) "\<not> length ts < min_ngram" "?k \<le> 0" | (go) "\<not> length ts < min_ngram" "\<not> ?k \<le> 0" by blast
  then show ?thesis
  proof cases
    case short
    then have "\<forall>n s. min_ngram \<le> n \<longrightarrow> \<not> seen_before ts n s" by (auto simp: seen_before_def)
    then show ?thesis using short by (simp add: find_longest_matched_ngram_and_propose_tokens_def drafts_for_def)
  next
    case none
    then have "k = 0 \<or> max_model_len \<le> length ts" by auto
    then show ?thesis using none by (auto simp: find_longest_matched_ngram_and_propose_tokens_def drafts_for_def Let_def)
  next
    case go
    have ts: "ts \<noteq> []" and n0: "0 < max_ngram" using go(1) n by auto
    have k: "k \<noteq> 0" "\<not> max_model_len \<le> length ts" "nat ?k = min k (max_model_len - length ts)" using go(2) by auto
    obtain longest pos where
      run: "ngram_loop (rev ts) max_ngram (replicate max_ngram 0) 0 0 0 1 = Some (Inr (longest, pos))"
      and found: "0 < longest \<longrightarrow> pos < length ts \<and> longest_earliest ts max_ngram longest (length ts - 1 - pos)"
      and none_found: "longest = 0 \<longrightarrow> (\<forall>n s. 0 < n \<and> n \<le> max_ngram \<longrightarrow> \<not> seen_before ts n s)"
      using ngram_search [OF n0 ts] by blast
    show ?thesis
    proof (cases "longest < min_ngram")
      case True
      have "\<not> seen_before ts m s" if m: "min_ngram \<le> m" "m \<le> max_ngram" for m s
      proof (cases "longest = 0")
        case True
        have "0 < m" using n(1) m(1) by linarith
        then show ?thesis using mp [OF none_found True] m(2) by blast
      next
        case z: False
        then have "\<forall>n' s'. n' \<le> max_ngram \<and> seen_before ts n' s' \<longrightarrow> n' \<le> longest" using found by (simp add: longest_earliest_def)
        then have "seen_before ts m s \<longrightarrow> m \<le> longest" using m(2) by blast
        then show ?thesis using m(1) True by linarith
      qed
      then show ?thesis using go run True
        by (simp add: find_longest_matched_ngram_and_propose_tokens_def drafts_for_def Let_def)
    next
      case False
      let ?s = "length ts - 1 - pos"
      let ?r = "take (min k (max_model_len - length ts)) (drop (?s + longest) ts)"
      have le: "longest_earliest ts max_ngram longest ?s" using found False n(1) by simp
      have "find_longest_matched_ngram_and_propose_tokens ts min_ngram max_ngram max_model_len k =
          Some (Inr (take (min (nat ?k) (length ts - (?s + longest))) (drop (?s + longest) ts)))"
        unfolding find_longest_matched_ngram_and_propose_tokens_def Let_def
        by (simp only: if_not_P [OF go(1)] if_not_P [OF go(2)] run option.case sum.case prod.case if_not_P [OF False])
      also have "take (min (nat ?k) (length ts - (?s + longest))) (drop (?s + longest) ts) = ?r"
        unfolding k(3) by (simp add: take_eq_min)
      finally have "find_longest_matched_ngram_and_propose_tokens ts min_ngram max_ngram max_model_len k = Some (Inr ?r)" .
      moreover have "drafts_for ts min_ngram max_ngram max_model_len k ?r"
      proof -
        have go': "\<not> (k = 0 \<or> max_model_len \<le> length ts \<or> (\<forall>n s. min_ngram \<le> n \<and> n \<le> max_ngram \<longrightarrow> \<not> seen_before ts n s))"
          using le False k(1,2) by (auto simp: longest_earliest_def not_less)
        have "\<exists>n s. min_ngram \<le> n \<and> longest_earliest ts max_ngram n s \<and>
            ?r = take (min k (max_model_len - length ts)) (drop (s + n) ts)"
          using le False by (intro exI [of _ longest] exI [of _ ?s]) simp
        then show ?thesis unfolding drafts_for_def if_not_P [OF go'] .
      qed
      ultimately show ?thesis by (intro exI [of _ ?r]) simp
    qed
  qed
qed

section \<open>The proposer\<close>

text \<open>
  The state of \<^verbatim>\<open>NgramProposer\<close>: its configuration and the two buffers that the batch routine fills, one row per
  request. The number of threads the batch runs on is left out: the iterations write distinct rows.
\<close>

record ngram_proposer =
  min_n :: nat
  max_n :: nat
  np_k :: nat
  np_max_model_len :: nat
  valid_ngram_draft :: "int list list"
  valid_ngram_num_drafts :: "nat list"

text \<open>One row per listed request; an output longer than the row it is assigned to is a shape error.\<close>

fun batch_propose_numba :: "nat list \<Rightarrow> nat list \<Rightarrow> int list list \<Rightarrow> nat \<Rightarrow> nat \<Rightarrow> nat \<Rightarrow> nat \<Rightarrow> int list list \<Rightarrow> nat list \<Rightarrow>
    (int list list \<times> nat list) res option" where
  "batch_propose_numba [] num_tokens_no_spec token_ids_cpu mn mx max_model_len k drafts num_drafts = Some (Inr (drafts, num_drafts))"
| "batch_propose_numba (idx # rest) num_tokens_no_spec token_ids_cpu mn mx max_model_len k drafts num_drafts =
     (case bind_res (py_nth num_tokens_no_spec idx) (\<lambda>n. bind_res (py_nth token_ids_cpu idx) (\<lambda>row. Inr (take n row))) of
        Inl e \<Rightarrow> Some (Inl e)
      | Inr context_token_ids \<Rightarrow>
          (case find_longest_matched_ngram_and_propose_tokens context_token_ids mn mx max_model_len k of
             None \<Rightarrow> None
           | Some (Inl e) \<Rightarrow> Some (Inl e)
           | Some (Inr drafter_output) \<Rightarrow>
               if \<not> idx < length num_drafts then Some (Inl IndexError)
               else let num_drafts1 = num_drafts[idx := length drafter_output]
                    in if drafter_output = []
                       then batch_propose_numba rest num_tokens_no_spec token_ids_cpu mn mx max_model_len k drafts num_drafts1
                       else (case py_nth drafts idx of
                               Inl e \<Rightarrow> Some (Inl e)
                             | Inr row \<Rightarrow>
                                 if length row < length drafter_output then Some (Inl ValueError)
                                 else batch_propose_numba rest num_tokens_no_spec token_ids_cpu mn mx max_model_len k
                                        (drafts[idx := drafter_output @ drop (length drafter_output) row]) num_drafts1)))"

text \<open>The result list of \<^verbatim>\<open>batch_propose\<close>, read back from the buffers.\<close>

fun collect_drafts :: "nat list \<Rightarrow> ngram_proposer \<Rightarrow> nat list \<Rightarrow> int list list res" where
  "collect_drafts valid p [] = Inr []"
| "collect_drafts valid p (i # is) =
     bind_res (if i \<in> set valid
               then bind_res (py_nth (valid_ngram_num_drafts p) i) (\<lambda>n.
                      if n > 0 then bind_res (py_nth (valid_ngram_draft p) i) (\<lambda>row. Inr (take n row)) else Inr [])
               else Inr [])
       (\<lambda>d. bind_res (collect_drafts valid p is) (\<lambda>ds. Inr (d # ds)))"

definition batch_propose :: "ngram_proposer \<Rightarrow> nat \<Rightarrow> nat list \<Rightarrow> nat list \<Rightarrow> int list list \<Rightarrow> nat \<Rightarrow>
    (ngram_proposer \<times> int list list) res option" where
  "batch_propose p num_requests valid_ngram_requests num_tokens_no_spec token_ids_cpu k =
     (case (if length valid_ngram_requests \<noteq> 0
            then batch_propose_numba valid_ngram_requests num_tokens_no_spec token_ids_cpu (min_n p) (max_n p) (np_max_model_len p) k
                   (valid_ngram_draft p) (valid_ngram_num_drafts p)
            else Some (Inr (valid_ngram_draft p, valid_ngram_num_drafts p))) of
        None \<Rightarrow> None
      | Some (Inl e) \<Rightarrow> Some (Inl e)
      | Some (Inr (drafts, num_drafts)) \<Rightarrow>
          let p1 = p\<lparr>valid_ngram_draft := drafts, valid_ngram_num_drafts := num_drafts\<rparr>
          in Some (bind_res (collect_drafts valid_ngram_requests p1 [0..<num_requests]) (\<lambda>ds. Inr (p1, ds))))"

text \<open>The requests of a batch that take part: those that sampled a token and are below the maximum length.\<close>

fun find_valid_requests :: "nat \<Rightarrow> nat list \<Rightarrow> int list list \<Rightarrow> nat \<Rightarrow> nat list res" where
  "find_valid_requests max_model_len num_tokens_no_spec [] i = Inr []"
| "find_valid_requests max_model_len num_tokens_no_spec (sampled_ids # rest) i =
     (if length sampled_ids = 0 then find_valid_requests max_model_len num_tokens_no_spec rest (i + 1)
      else bind_res (py_nth num_tokens_no_spec i) (\<lambda>n.
             if n \<ge> max_model_len then find_valid_requests max_model_len num_tokens_no_spec rest (i + 1)
             else bind_res (find_valid_requests max_model_len num_tokens_no_spec rest (i + 1)) (\<lambda>v. Inr (i # v))))"

definition propose :: "ngram_proposer \<Rightarrow> nat \<Rightarrow> int list list \<Rightarrow> nat list \<Rightarrow> int list list \<Rightarrow>
    (ngram_proposer \<times> int list list) res option" where
  "propose p num_speculative_tokens sampled_token_ids num_tokens_no_spec token_ids_cpu =
     (if \<not> num_speculative_tokens \<le> np_k p then Some (Inl AssertionError)
      else (case find_valid_requests (np_max_model_len p) num_tokens_no_spec sampled_token_ids 0 of
              Inl e \<Rightarrow> Some (Inl e)
            | Inr valid_ngram_requests \<Rightarrow>
                batch_propose p (length sampled_token_ids) valid_ngram_requests num_tokens_no_spec token_ids_cpu num_speculative_tokens))"

text \<open>\<^verbatim>\<open>__init__\<close>, with the warm-up call on an empty batch that compiles the routine.\<close>

definition ngram_proposer_init :: "nat \<Rightarrow> nat \<Rightarrow> nat \<Rightarrow> nat \<Rightarrow> nat \<Rightarrow> ngram_proposer res option" where
  "ngram_proposer_init prompt_lookup_min prompt_lookup_max num_speculative_tokens max_model_len max_num_seqs =
     (let p = \<lparr>min_n = prompt_lookup_min, max_n = prompt_lookup_max, np_k = num_speculative_tokens,
               np_max_model_len = max_model_len,
               valid_ngram_draft = replicate max_num_seqs (replicate num_speculative_tokens 0),
               valid_ngram_num_drafts = replicate max_num_seqs 0\<rparr>
      in (case propose p num_speculative_tokens (replicate 1024 []) (replicate 1024 0) (replicate 1024 (replicate max_model_len 0)) of
            None \<Rightarrow> None
          | Some (Inl e) \<Rightarrow> Some (Inl e)
          | Some (Inr (p1, ds)) \<Rightarrow> Some (Inr p1)))"

section \<open>What a batch returns\<close>

definition buffers_ok :: "nat \<Rightarrow> nat \<Rightarrow> int list list \<Rightarrow> nat list \<Rightarrow> bool" where
  "buffers_ok m k drafts num_drafts \<longleftrightarrow> length drafts = m \<and> length num_drafts = m \<and> (\<forall>row \<in> set drafts. length row = k)"

definition proposer_ok :: "nat \<Rightarrow> ngram_proposer \<Rightarrow> bool" where
  "proposer_ok m p \<longleftrightarrow> 0 < min_n p \<and> min_n p \<le> max_n p \<and> buffers_ok m (np_k p) (valid_ngram_draft p) (valid_ngram_num_drafts p)"

text \<open>The row of a request holds the drafts for its own tokens.\<close>

definition row_ok :: "nat list \<Rightarrow> int list list \<Rightarrow> nat \<Rightarrow> nat \<Rightarrow> nat \<Rightarrow> nat \<Rightarrow> int list list \<Rightarrow> nat list \<Rightarrow> nat \<Rightarrow> bool" where
  "row_ok nt tok mn mx len k drafts num_drafts i \<longleftrightarrow>
     num_drafts ! i \<le> k \<and> drafts_for (take (nt ! i) (tok ! i)) mn mx len k (take (num_drafts ! i) (drafts ! i))"

lemma buffers_ok_write:
  assumes "buffers_ok m kk drafts num_drafts" and "length r \<le> kk" and "idx < m"
  shows "buffers_ok m kk (drafts[idx := r @ drop (length r) (drafts ! idx)]) (num_drafts[idx := length r])"
  using assms by (auto simp: buffers_ok_def dest!: set_update_subset_insert [THEN subsetD])

lemma buffers_ok_count: "buffers_ok m kk drafts num_drafts \<Longrightarrow> buffers_ok m kk drafts (num_drafts[idx := x])"
  by (simp add: buffers_ok_def)

lemma batch_propose_numba_spec:
  assumes "0 < mn" and "mn \<le> mx" and "k \<le> kk" and "buffers_ok m kk drafts num_drafts"
    and "\<forall>i \<in> set valid. i < m \<and> i < length nt \<and> i < length tok"
  shows "\<exists>drafts' num_drafts'. batch_propose_numba valid nt tok mn mx len k drafts num_drafts = Some (Inr (drafts', num_drafts')) \<and>
    buffers_ok m kk drafts' num_drafts' \<and> (\<forall>i \<in> set valid. row_ok nt tok mn mx len k drafts' num_drafts' i) \<and>
    (\<forall>i. i \<notin> set valid \<longrightarrow> drafts' ! i = drafts ! i \<and> num_drafts' ! i = num_drafts ! i)"
  using assms(4,5)
proof (induction valid arbitrary: drafts num_drafts)
  case Nil
  then show ?case by simp
next
  case (Cons idx rest)
  have i: "idx < m" "idx < length nt" "idx < length tok" and rest: "\<forall>i \<in> set rest. i < m \<and> i < length nt \<and> i < length tok"
    using Cons.prems(2) by simp_all
  have l: "idx < length num_drafts" "idx < length drafts" "length (drafts ! idx) = kk"
    using Cons.prems(1) i(1) by (auto simp: buffers_ok_def)
  obtain r where r: "find_longest_matched_ngram_and_propose_tokens (take (nt ! idx) (tok ! idx)) mn mx len k = Some (Inr r)"
    "drafts_for (take (nt ! idx) (tok ! idx)) mn mx len k r" "length r \<le> k"
    using find_longest_spec [OF assms(1,2)] by blast
  let ?N = "num_drafts[idx := length r]"
  let ?D = "if r = [] then drafts else drafts[idx := r @ drop (length r) (drafts ! idx)]"
  have step: "batch_propose_numba (idx # rest) nt tok mn mx len k drafts num_drafts = batch_propose_numba rest nt tok mn mx len k ?D ?N"
    using r i l assms(3) by (simp add: py_nth_def Let_def)
  have b: "buffers_ok m kk ?D ?N"
    using buffers_ok_write [OF Cons.prems(1) _ i(1), of r] buffers_ok_count [OF Cons.prems(1)] r(3) assms(3) by simp
  have row: "row_ok nt tok mn mx len k ?D ?N idx" using r(2,3) l by (auto simp: row_ok_def)
  obtain D N where DN: "batch_propose_numba rest nt tok mn mx len k ?D ?N = Some (Inr (D, N))" "buffers_ok m kk D N"
    "\<forall>i \<in> set rest. row_ok nt tok mn mx len k D N i" "\<forall>i. i \<notin> set rest \<longrightarrow> D ! i = ?D ! i \<and> N ! i = ?N ! i"
    using Cons.IH [OF b rest] by blast
  have "row_ok nt tok mn mx len k D N idx"
    using DN(3) DN(4) [rule_format, of idx] row by (cases "idx \<in> set rest") (simp_all add: row_ok_def)
  moreover have "D ! j = drafts ! j \<and> N ! j = num_drafts ! j" if "j \<notin> set (idx # rest)" for j
    using DN(4) [rule_format, of j] that by simp
  ultimately show ?case using DN(1-3) step by auto
qed

lemma collect_drafts_spec:
  assumes "\<forall>i \<in> set valid. i < length (valid_ngram_num_drafts p) \<and> i < length (valid_ngram_draft p)"
  shows "collect_drafts valid p is =
    Inr (map (\<lambda>i. if i \<in> set valid then take (valid_ngram_num_drafts p ! i) (valid_ngram_draft p ! i) else []) is)"
  using assms by (induction "is") (auto simp: py_nth_def)

lemma find_valid_requests_spec:
  assumes "i + length ss \<le> length nt"
  shows "\<exists>v. find_valid_requests len nt ss i = Inr v \<and>
    (\<forall>j. j \<in> set v \<longleftrightarrow> i \<le> j \<and> j < i + length ss \<and> ss ! (j - i) \<noteq> [] \<and> nt ! j < len)"
  using assms
proof (induction ss arbitrary: i)
  case Nil
  then show ?case by simp
next
  case (Cons s ss)
  obtain v where v: "find_valid_requests len nt ss (i + 1) = Inr v"
    "\<forall>j. j \<in> set v \<longleftrightarrow> i + 1 \<le> j \<and> j < i + 1 + length ss \<and> ss ! (j - (i + 1)) \<noteq> [] \<and> nt ! j < len"
    using Cons.IH [of "i + 1"] Cons.prems by auto
  have tail: "j \<in> set v \<longleftrightarrow> i \<noteq> j \<and> i \<le> j \<and> j < i + length (s # ss) \<and> (s # ss) ! (j - i) \<noteq> [] \<and> nt ! j < len" for j
  proof (cases "i < j")
    case True
    then have "j - i = Suc (j - (i + 1))" by simp
    then show ?thesis using v(2) True by auto
  qed (use v(2) in auto)
  show ?case
  proof (cases "s \<noteq> [] \<and> nt ! i < len")
    case True
    then have "find_valid_requests len nt (s # ss) i = Inr (i # v)" using v(1) Cons.prems by (simp add: py_nth_def)
    moreover have "j \<in> set (i # v) \<longleftrightarrow> i \<le> j \<and> j < i + length (s # ss) \<and> (s # ss) ! (j - i) \<noteq> [] \<and> nt ! j < len" for j
      using tail [of j] True by (cases "i = j") auto
    ultimately show ?thesis by blast
  next
    case False
    then have "find_valid_requests len nt (s # ss) i = Inr v" using v(1) Cons.prems by (auto simp: py_nth_def)
    moreover have "j \<in> set v \<longleftrightarrow> i \<le> j \<and> j < i + length (s # ss) \<and> (s # ss) ! (j - i) \<noteq> [] \<and> nt ! j < len" for j
      using tail [of j] False by (cases "i = j") auto
    ultimately show ?thesis by blast
  qed
qed

lemma batch_propose_spec:
  assumes ok: "proposer_ok m p" and k: "k \<le> np_k p"
    and valid: "\<forall>i \<in> set valid. i < m \<and> i < length nt \<and> i < length tok"
  shows "\<exists>p' ds. batch_propose p n valid nt tok k = Some (Inr (p', ds)) \<and> proposer_ok m p' \<and> length ds = n \<and>
    (\<forall>i < n. if i \<in> set valid
             then drafts_for (take (nt ! i) (tok ! i)) (min_n p) (max_n p) (np_max_model_len p) k (ds ! i) \<and> length (ds ! i) \<le> k
             else ds ! i = [])"
proof -
  have b: "0 < min_n p" "min_n p \<le> max_n p" "buffers_ok m (np_k p) (valid_ngram_draft p) (valid_ngram_num_drafts p)"
    using ok by (simp_all add: proposer_ok_def)
  obtain D N where DN:
    "batch_propose_numba valid nt tok (min_n p) (max_n p) (np_max_model_len p) k (valid_ngram_draft p) (valid_ngram_num_drafts p) =
       Some (Inr (D, N))" "buffers_ok m (np_k p) D N"
    "\<forall>i \<in> set valid. row_ok nt tok (min_n p) (max_n p) (np_max_model_len p) k D N i"
    using batch_propose_numba_spec [OF b(1,2) k b(3) valid, of "np_max_model_len p"] by blast
  let ?p = "p\<lparr>valid_ngram_draft := D, valid_ngram_num_drafts := N\<rparr>"
  let ?ds = "map (\<lambda>i. if i \<in> set valid then take (N ! i) (D ! i) else []) [0..<n]"
  have "collect_drafts valid ?p [0..<n] = Inr ?ds"
    using collect_drafts_spec [of valid ?p "[0..<n]"] valid DN(2) by (simp add: buffers_ok_def)
  then have "batch_propose p n valid nt tok k = Some (Inr (?p, ?ds))"
    using DN(1) by (cases valid) (simp_all add: batch_propose_def Let_def)
  moreover have "proposer_ok m ?p" using b DN(2) by (simp add: proposer_ok_def)
  moreover have "length (take (N ! i) (D ! i)) \<le> k" if "i \<in> set valid" for i using DN(3) that by (auto simp: row_ok_def)
  ultimately show ?thesis using DN(3) by (intro exI [of _ ?p] exI [of _ ?ds]) (auto simp: row_ok_def)
qed

text \<open>C13: on a proposer with well-formed buffers, \<^verbatim>\<open>propose\<close> returns for every batch that fits them. A request that sampled
  nothing or is at the maximum length gets no drafts. Any other request gets the tokens that follow the longest
  match of its last tokens, of a length within the configured bounds, at the earliest place it occurs (or none
  if there is no such match); never more than asked for, nor past the maximum length. The buffers stay well-formed.
\<close>

theorem propose_correct:
  assumes "proposer_ok m p" and "num_speculative_tokens \<le> np_k p" and "length sampled_token_ids \<le> m"
    and "length sampled_token_ids \<le> length num_tokens_no_spec" and "length sampled_token_ids \<le> length token_ids_cpu"
  shows "\<exists>p' ds. propose p num_speculative_tokens sampled_token_ids num_tokens_no_spec token_ids_cpu = Some (Inr (p', ds)) \<and>
    proposer_ok m p' \<and> length ds = length sampled_token_ids \<and>
    (\<forall>i < length sampled_token_ids.
       if sampled_token_ids ! i = [] \<or> np_max_model_len p \<le> num_tokens_no_spec ! i then ds ! i = []
       else drafts_for (take (num_tokens_no_spec ! i) (token_ids_cpu ! i)) (min_n p) (max_n p) (np_max_model_len p)
              num_speculative_tokens (ds ! i) \<and> length (ds ! i) \<le> num_speculative_tokens)"
proof -
  obtain v where v: "find_valid_requests (np_max_model_len p) num_tokens_no_spec sampled_token_ids 0 = Inr v"
    "\<forall>j. j \<in> set v \<longleftrightarrow> j < length sampled_token_ids \<and> sampled_token_ids ! j \<noteq> [] \<and> num_tokens_no_spec ! j < np_max_model_len p"
    using find_valid_requests_spec [of 0 sampled_token_ids num_tokens_no_spec "np_max_model_len p"] assms(4) by auto
  have valid: "\<forall>i \<in> set v. i < m \<and> i < length num_tokens_no_spec \<and> i < length token_ids_cpu" using v(2) assms(3-5) by auto
  have run: "propose p num_speculative_tokens sampled_token_ids num_tokens_no_spec token_ids_cpu =
      batch_propose p (length sampled_token_ids) v num_tokens_no_spec token_ids_cpu num_speculative_tokens"
    using assms(2) v(1) by (simp add: propose_def)
  obtain p' ds where r: "batch_propose p (length sampled_token_ids) v num_tokens_no_spec token_ids_cpu num_speculative_tokens = Some (Inr (p', ds))"
    "proposer_ok m p'" "length ds = length sampled_token_ids"
    "\<forall>i < length sampled_token_ids. if i \<in> set v
       then drafts_for (take (num_tokens_no_spec ! i) (token_ids_cpu ! i)) (min_n p) (max_n p) (np_max_model_len p)
              num_speculative_tokens (ds ! i) \<and> length (ds ! i) \<le> num_speculative_tokens
       else ds ! i = []"
    using batch_propose_spec [OF assms(1,2) valid, of "length sampled_token_ids"] by blast
  have "if sampled_token_ids ! i = [] \<or> np_max_model_len p \<le> num_tokens_no_spec ! i then ds ! i = []
       else drafts_for (take (num_tokens_no_spec ! i) (token_ids_cpu ! i)) (min_n p) (max_n p) (np_max_model_len p)
              num_speculative_tokens (ds ! i) \<and> length (ds ! i) \<le> num_speculative_tokens" if "i < length sampled_token_ids" for i
    using r(4) [rule_format, OF that] v(2) [rule_format, of i] that by (auto split: if_splits)
  then show ?thesis using r(1-3) run by (intro exI [of _ p'] exI [of _ ds]) simp
qed

definition example_proposer :: ngram_proposer where
  "example_proposer = \<lparr>min_n = 1, max_n = 3, np_k = 2, np_max_model_len = 8,
     valid_ngram_draft = [[0, 0], [0, 0]], valid_ngram_num_drafts = [0, 0]\<rparr>"

theorem propose_correct_witness:
  "proposer_ok 2 example_proposer \<and>
   (\<exists>p' ds. propose example_proposer 2 [[2], []] [5, 3] [[1, 2, 3, 1, 2, 0, 0, 0], [4, 4, 4, 0, 0, 0, 0, 0]] = Some (Inr (p', ds)) \<and>
      proposer_ok 2 p' \<and> length ds = 2 \<and> ds ! 1 = [] \<and> drafts_for [1, 2, 3, 1, 2] 1 3 8 2 (ds ! 0) \<and> ds = [[3, 1], []])"
proof -
  have ok: "proposer_ok 2 example_proposer" by (simp add: proposer_ok_def buffers_ok_def example_proposer_def)
  obtain p' ds where r:
    "propose example_proposer 2 [[2], []] [5, 3] [[1, 2, 3, 1, 2, 0, 0, 0], [4, 4, 4, 0, 0, 0, 0, 0]] = Some (Inr (p', ds))"
    "proposer_ok 2 p'" "length ds = 2" "ds ! 1 = []" "drafts_for [1, 2, 3, 1, 2] 1 3 8 2 (ds ! 0)"
    using propose_correct [OF ok, of 2 "[[2], []]" "[5, 3]" "[[1, 2, 3, 1, 2, 0, 0, 0], [4, 4, 4, 0, 0, 0, 0, 0]]"]
    by (auto simp: example_proposer_def All_less_Suc2 numeral_2_eq_2)
  moreover have "map_option (map_sum id snd)
      (propose example_proposer 2 [[2], []] [5, 3] [[1, 2, 3, 1, 2, 0, 0, 0], [4, 4, 4, 0, 0, 0, 0, 0]]) = Some (Inr [[3, 1], []])"
    by code_simp
  ultimately show ?thesis using ok by auto
qed

lemma ngram_proposer_init_ok:
  assumes "0 < prompt_lookup_min" and "prompt_lookup_min \<le> prompt_lookup_max"
  shows "\<exists>p. ngram_proposer_init prompt_lookup_min prompt_lookup_max k max_model_len max_num_seqs = Some (Inr p) \<and>
    proposer_ok max_num_seqs p \<and> np_k p = k \<and> np_max_model_len p = max_model_len"
proof -
  have v: "find_valid_requests len nt (replicate n []) i = Inr []" for len nt n i by (induction n arbitrary: i) simp_all
  show ?thesis using assms
    by (auto simp: ngram_proposer_init_def propose_def v batch_propose_def collect_drafts_spec Let_def proposer_ok_def buffers_ok_def)
qed

end
