(* ===== verification/Spec2Isabelle.thy ===== *)
theory Spec2Isabelle
  imports RequestQueues EncoderSchedule AdmissionCap BlockLifetime NgramProposer
begin

text \<open>
  A verification library for the scheduling core of the vLLM engine in this repository: the memory
  management of the KV cache, prefix caching, the waiting queues, the encoder cache and drafting by prompt lookup. All
  paths below are under \<^verbatim>\<open>src/vllm/v1\<close>.

  \<^bold>\<open>The program.\<close> The scheduler holds requests (\<^verbatim>\<open>request.py\<close>) in waiting queues
  (\<^verbatim>\<open>core/sched/request_queue.py\<close>). To run a request it asks the KV cache manager
  (\<^verbatim>\<open>core/kv_cache_manager.py\<close>) for slots. The manager looks for cached prefixes and hands out blocks through
  a coordinator (\<^verbatim>\<open>core/kv_cache_coordinator.py\<close>), which calls one manager per group of layers
  (\<^verbatim>\<open>core/single_type_kv_cache_manager.py\<close>). These keep the block tables and take blocks from one pool
  (\<^verbatim>\<open>core/block_pool.py\<close>) with a free queue and an index of block hashes (\<^verbatim>\<open>core/kv_cache_utils.py\<close>).
  Multimodal inputs go through the encoder cache (\<^verbatim>\<open>core/encoder_cache_manager.py\<close>). The scheduler
  (\<^verbatim>\<open>core/sched/scheduler.py\<close>) decides when blocks return. The worker may draft tokens from a request's own text
  (\<^verbatim>\<open>spec_decode/ngram_proposer.py\<close>).

  \<^bold>\<open>Style.\<close> Objects are records, passed and returned. A Python exception is the left value of
  \<open>'a res\<close>; every \<^verbatim>\<open>raise\<close>, \<^verbatim>\<open>assert\<close> and failing lookup of the modelled code is such a branch. Loops are
  structural recursion, \<open>function\<close> with a termination proof, or \<open>partial_function (option)\<close> where only an invariant
  makes them end (walks along the links of the free queue, the n-gram search), with lemmas that they return; no
  function takes fuel. Hash
  functions, the divisor test between specifications and other code from outside are arguments.
  Floating point results are rational numbers.

  \<^bold>\<open>Theories, in the order of the code.\<close>

  \<^item> \<open>VllmPrelude\<close>: results, exceptions, ceiling division, slices.

  \<^item> \<open>FreeBlockQueue\<close>: \<^verbatim>\<open>KVCacheBlock\<close> and \<^verbatim>\<open>FreeKVCacheBlockQueue\<close> as a store of linked blocks. The queue
    refines a list (locale \<open>free_queue\<close>): what every operation does to the pointers is what it does to the list.

  \<^item> \<open>RequestModel\<close>: \<^verbatim>\<open>Request\<close> and \<^verbatim>\<open>RequestStatus\<close>, and the stop conditions of \<^verbatim>\<open>core/sched/utils.py\<close>; the
    repetition check is equal to its specification by patterns.

  \<^item> \<open>BlockHashes\<close>: extra keys, chained block hashes and keys with a group id. Equal hashes mean equal prefixes when the
    hash function has no collision; appending tokens keeps hashes current.

  \<^item> \<open>BlockHashMap\<close>, \<open>BlockPool\<close>: the index (locale \<open>hash_index\<close>) and every method of \<^verbatim>\<open>BlockPool\<close>.
    \<open>BlockPoolInv\<close> and \<open>BlockPoolAlloc\<close> give its invariant (free queue against reference counts, index
    against block hashes), the exact effect of each operation, and the invariant for all reachable pools.

  \<^item> \<open>SingleTypeManager\<close>: block tables, counting, allocation, freeing and window removal for the managers of full,
    reference sliding window, sliding window, chunked local, circular buffer and cross attention. \<open>accounted\<close>
    says that the references of the pool are those of the tables and pending copies.

  \<^item> \<open>PrefixCaching\<close>: which blocks a manager registers and the searches for the longest cached prefix. Hits are sound
    and maximal; what was cached is found; the sparse mask of sliding windows keeps what hits need.

  \<^item> \<open>CacheCoordinator\<close>: the coordinators, with the fixed point search over several kinds of groups: it ends, and its hit is valid
    for every group.

  \<^item> \<open>AllocationBudget\<close>: the locale \<open>manager_step\<close> is the contract of one call of a manager on the shared pool
    (succeeds within a number of free blocks, keeps the accounts), its lemma lifts it to the calls of all
    managers, and each operation is an interpretation. No attended token loses its block.

  \<^item> \<open>AdmissionCap\<close>: the caps of \<^verbatim>\<open>kv_cache_interface.py\<close> bound what a request holds.

  \<^item> \<open>KVCacheManager\<close>: \<^verbatim>\<open>KVCacheBlocks\<close> and \<^verbatim>\<open>KVCacheManager\<close>. \<open>allocate_slots\<close> either refuses before it takes a
    block or succeeds completely.

  \<^item> \<open>BlockLifetime\<close>: deferred frees of the scheduler as a transition system over the KV cache manager. References are
    accounted for in all reachable states, blocks of steps in flight stay taken, and all of them return.

  \<^item> \<open>HeapQueue\<close>, \<open>RequestQueues\<close>: \<^verbatim>\<open>heapq\<close> over a total order (locale \<open>key_order\<close>) and the two waiting queues, whose
    common laws are the locale \<open>queue_contract\<close>, interpreted for both policies.

  \<^item> \<open>EncoderCache\<close>, \<open>EncoderSchedule\<close>: both encoder cache managers and the scheduler methods that decide, book and
    release encoder inputs.

  \<^item> \<open>NgramProposer\<close>: the search for the longest earlier match of the last tokens and \<^verbatim>\<open>NgramProposer\<close> with its
    buffers. The search keeps a failure table bounded by the longest n-gram; its invariant (\<open>candidate\<close>, \<open>table_ok\<close>,
    \<open>longest_ok\<close>) gives that it returns the longest match at its earliest place.

  \<^bold>\<open>Assumptions.\<close> Context parallel sizes are one. Windows and prompts have at least one token. Token counts are
  natural numbers. In \<open>BlockLifetime\<close> callers ask for slots in one of two ways (\<open>fitting\<close>): with the hits
  of a lookup for a request without blocks, or to extend existing tables; and outputs arrive once per
  scheduled step. The bounds on n-gram lengths are positive and ordered. The witnesses instantiate every
  hypothesis on small concrete states.

  \<^bold>\<open>Not modelled.\<close> The main loops \<^verbatim>\<open>schedule\<close> and \<^verbatim>\<open>update_from_output\<close>, which weigh token budgets under
  dozens of options and drive connectors and grammars; Mamba, sink and HiSparse groups, whose managers depend
  on copies done by workers; the sampled metrics collector (random numbers and a clock); the start-up sizing of the
  cache; connectors and offloading; engine processes, workers, attention backends, drafting by models, models, kernels and
  front ends, which are I/O, device code or tensor programs.
\<close>

end
